(* ===== verification/Prelude.thy ===== *)
theory Prelude
  imports Complex_Main "HOL-Library.Word"
begin

text \<open>
  The prelude of the development: the host systems the sources are compiled for, the fixed-width
  unsigned arithmetic of Rust (saturating, wrapping and checked operations on
  \<^verbatim>\<open>u64\<close> and \<^verbatim>\<open>usize\<close>, both 64 bits wide on every supported host), rounding
  division, and the facts on lists and options that the component theories share. Unsigned
  machine integers are natural numbers; each operation writes its wrap-around or saturation out,
  and the components carry the bound \<^verbatim>\<open>u64::MAX\<close> in their invariants.
\<close>

unbundle bit_operations_syntax

section \<open>Host systems\<close>

text \<open>The sources select code with \<^verbatim>\<open>cfg(target_os)\<close>; the model takes the host as an argument.\<close>

datatype target_os = Linux | MacOS | Windows

section \<open>Collections of lemmas\<close>

named_theorems sat_simps \<open>unfolding of the saturating and wrapping operations\<close>
named_theorems wf_intros \<open>introduction rules of the component invariants\<close>

section \<open>Unsigned 64-bit arithmetic\<close>

definition U64_MAX :: nat where
  "U64_MAX = 2 ^ 64 - 1"

definition saturating_add :: "nat \<Rightarrow> nat \<Rightarrow> nat" where
  "saturating_add a b = min (a + b) U64_MAX"

definition saturating_sub :: "nat \<Rightarrow> nat \<Rightarrow> nat" where
  "saturating_sub a b = a - b"

definition saturating_mul :: "nat \<Rightarrow> nat \<Rightarrow> nat" where
  "saturating_mul a b = min (a * b) U64_MAX"

definition wrapping_add :: "nat \<Rightarrow> nat \<Rightarrow> nat" where
  "wrapping_add a b = (a + b) mod 2 ^ 64"

definition wrapping_sub :: "nat \<Rightarrow> nat \<Rightarrow> nat" where
  "wrapping_sub a b = (a + 2 ^ 64 - b) mod 2 ^ 64"

definition wrapping_mul :: "nat \<Rightarrow> nat \<Rightarrow> nat" where
  "wrapping_mul a b = (a * b) mod 2 ^ 64"

definition div_ceil :: "nat \<Rightarrow> nat \<Rightarrow> nat" where
  "div_ceil a b = (a + b - 1) div b"

lemmas [sat_simps] = saturating_add_def saturating_sub_def saturating_mul_def

lemma U64_MAX_pos [simp]: "0 < U64_MAX"
  by (simp add: U64_MAX_def)

lemma U64_MAX_eq: "U64_MAX = 18446744073709551615"
  by (simp add: U64_MAX_def)

lemma saturating_add_le [simp]: "saturating_add a b \<le> U64_MAX"
  by (simp add: sat_simps)

lemma saturating_add_ge: "a \<le> U64_MAX \<Longrightarrow> a \<le> saturating_add a b"
  by (simp add: sat_simps)

lemma saturating_add_mono: "a \<le> a' \<Longrightarrow> b \<le> b' \<Longrightarrow> saturating_add a b \<le> saturating_add a' b'"
  by (simp add: sat_simps min_le_iff_disj)

lemma saturating_add_0 [simp]: "a \<le> U64_MAX \<Longrightarrow> saturating_add a 0 = a"
  by (simp add: sat_simps)

lemma saturating_mul_le [simp]: "saturating_mul a b \<le> U64_MAX"
  by (simp add: sat_simps)

lemma wrapping_sub_eq: "b \<le> a \<Longrightarrow> a \<le> U64_MAX \<Longrightarrow> wrapping_sub a b = a - b"
  by (simp add: wrapping_sub_def U64_MAX_eq mod_if)

lemma div_ceil_ge: "0 < b \<Longrightarrow> a \<le> div_ceil a b * b"
proof -
  assume b: "0 < b"
  have "a + b - 1 = (a + b - 1) div b * b + (a + b - 1) mod b" by simp
  moreover have "(a + b - 1) mod b \<le> b - 1" using b by (simp add: less_Suc_eq_le [symmetric])
  ultimately have "a + b - 1 \<le> (a + b - 1) div b * b + (b - 1)" by linarith
  then show ?thesis using b unfolding div_ceil_def by linarith
qed

lemma div_ceil_least: "0 < b \<Longrightarrow> a \<le> k * b \<Longrightarrow> div_ceil a b \<le> k"
proof -
  assume b: "0 < b" and k: "a \<le> k * b"
  have "(a + b - 1) div b \<le> (b - 1 + k * b) div b"
    using b k by (intro div_le_mono) simp
  also have "\<dots> = k" using b by (subst div_mult_self1) simp_all
  finally show ?thesis by (simp add: div_ceil_def)
qed

text \<open>Masking with a power of two less one is the remainder.\<close>

lemma and_mask_nat: "(n::nat) AND (2 ^ k - 1) = n mod 2 ^ k"
  by (metis mask_eq_exp_minus_1 take_bit_eq_mask take_bit_eq_mod)

section \<open>Lists\<close>

text \<open>\<^verbatim>\<open>Iterator::position\<close>.\<close>

primrec position :: "('a \<Rightarrow> bool) \<Rightarrow> 'a list \<Rightarrow> nat option" where
  "position P [] = None"
| "position P (x # xs) = (if P x then Some 0 else map_option Suc (position P xs))"

lemma position_Some_iff:
  "position P xs = Some i \<longleftrightarrow> i < length xs \<and> P (xs ! i) \<and> (\<forall>j<i. \<not> P (xs ! j))"
proof (induction xs arbitrary: i)
  case (Cons x xs)
  show ?case
  proof (cases i)
    case (Suc k)
    then show ?thesis using Cons.IH [of k] by (auto simp: less_Suc_eq_0_disj)
  qed (auto simp: map_option_case split: option.splits)
qed simp

lemma position_None_iff: "position P xs = None \<longleftrightarrow> (\<forall>x \<in> set xs. \<not> P x)"
  by (induction xs) auto

text \<open>\<^verbatim>\<open>Vec::swap_remove\<close>: the last element takes the place of the removed one.\<close>

definition swap_remove :: "'a list \<Rightarrow> nat \<Rightarrow> 'a list" where
  "swap_remove xs i = butlast (xs[i := last xs])"

lemma length_swap_remove [simp]: "length (swap_remove xs i) = length xs - 1"
  by (simp add: swap_remove_def)

lemma nth_swap_remove:
  "j < length xs - 1 \<Longrightarrow> swap_remove xs i ! j = (if j = i then last xs else xs ! j)"
  by (simp add: swap_remove_def nth_butlast nth_list_update)

lemma nth_swap_remove_self: "i < length xs - 1 \<Longrightarrow> swap_remove xs i ! i = xs ! (length xs - 1)"
  by (subst last_conv_nth [symmetric]) (auto simp: nth_swap_remove)

lemma distinct_singleton: "distinct xs \<Longrightarrow> set xs = {a} \<Longrightarrow> xs = [a]"
  by (cases xs) (auto simp: subset_singleton_iff)

lemma find_SomeD: "List.find P xs = Some x \<Longrightarrow> x \<in> set xs \<and> P x"
  by (auto simp: find_Some_iff)

lemma option_eqI: "(\<And>v. x = Some v \<longleftrightarrow> y = Some v) \<Longrightarrow> x = y"
  by (cases x; cases y) auto

text \<open>Sorting keeps a symmetric relation between all pairs.\<close>

lemma sorted_wrt_insort_key:
  assumes "symp R"
  shows "sorted_wrt R (insort_key f x xs) \<longleftrightarrow> (\<forall>y \<in> set xs. R x y) \<and> sorted_wrt R xs"
  using assms by (induction xs) (auto simp: set_insort_key dest: sympD)

lemma sorted_wrt_sort_key: "symp R \<Longrightarrow> sorted_wrt R (sort_key f xs) \<longleftrightarrow> sorted_wrt R xs"
  by (induction xs) (simp_all add: sorted_wrt_insort_key)

lemma sorted_wrt_pairs_symp:
  assumes "symp R" "sorted_wrt R xs" "x \<in> set xs" "y \<in> set xs" "x \<noteq> y"
  shows "R x y"
proof -
  obtain i j where "i < length xs" "j < length xs" "x = xs ! i" "y = xs ! j"
    using assms(3,4) by (metis in_set_conv_nth)
  then show ?thesis
    using assms(1,2,5) by (metis linorder_neqE_nat sorted_wrt_nth_less sympD)
qed

end
