(* ===== verification/Table_Spec.thy ===== *)
theory Table_Spec
  imports Prelude
begin

text \<open>
  The contract of a table with a fixed number of places, as its clients use it: the table stands for
  a finite map; an insertion is the update of the map, dropped when the key is new and the table is
  full; a removal always ends and is the removal from the map. The client lemmas about applying a
  whole log of insertions and removals are proved here once, from these laws alone.
\<close>

text \<open>One change of a log: the key and, for an insertion, the value.\<close>

type_synonym ('k, 'v) change = "'k \<times> 'v option"

text \<open>The effect of a change, and of a log of them, on the map the table stands for.\<close>

definition change_map :: "('k, 'v) change \<Rightarrow> ('k \<rightharpoonup> 'v) \<Rightarrow> 'k \<rightharpoonup> 'v" where
  "change_map c m = m(fst c := snd c)"

lemma change_map_simps [simp]:
  "change_map (k, None) m = m(k := None)"
  "change_map (k, Some v) m = m(k \<mapsto> v)"
  by (simp_all add: change_map_def)

lemma dom_fold_change:
  "dom (fold change_map cs m) \<subseteq> dom m \<union> fst ` set cs"
proof (induction cs arbitrary: m)
  case (Cons c cs)
  have "dom (change_map c m) \<subseteq> insert (fst c) (dom m)"
    by (auto simp: change_map_def split: if_splits)
  then show ?case using Cons.IH [of "change_map c m"] by (simp del: dom_fun_upd) blast
qed simp

text \<open>The last change of a key decides what the map says of it.\<close>

lemma fold_change_last:
  "fold change_map cs m k = (case filter (\<lambda>c. fst c = k) (rev cs) of [] \<Rightarrow> m k | c # _ \<Rightarrow> snd c)"
  by (induction cs rule: rev_induct) (auto simp: change_map_def)

locale bounded_map =
  fixes wf :: "'t \<Rightarrow> bool"
    and look :: "'t \<Rightarrow> 'k \<rightharpoonup> 'v"
    and ins :: "'t \<Rightarrow> 'k \<Rightarrow> 'v \<Rightarrow> 't"
    and del :: "'t \<Rightarrow> 'k \<Rightarrow> 't option"
    and key :: "'k \<Rightarrow> bool"
    and cap :: nat
  assumes finite_dom: "wf t \<Longrightarrow> finite (dom (look t))"
    and ins_wf: "wf t \<Longrightarrow> key k \<Longrightarrow> wf (ins t k v)"
    and ins_look: "wf t \<Longrightarrow> key k \<Longrightarrow> k \<in> dom (look t) \<or> card (dom (look t)) < cap \<Longrightarrow>
      look (ins t k v) = (look t)(k \<mapsto> v)"
    and ins_full: "wf t \<Longrightarrow> key k \<Longrightarrow> k \<notin> dom (look t) \<Longrightarrow> cap \<le> card (dom (look t)) \<Longrightarrow>
      look (ins t k v) = look t"
    and del_ok: "wf t \<Longrightarrow> key k \<Longrightarrow>
      \<exists>t'. del t k = Some t' \<and> wf t' \<and> look t' = (look t)(k := None)"
begin

fun play :: "'t \<Rightarrow> ('k, 'v) change \<Rightarrow> 't option" where
  "play t (k, Some v) = Some (ins t k v)"
| "play t (k, None) = del t k"

primrec play_all :: "'t \<Rightarrow> ('k, 'v) change list \<Rightarrow> 't option" where
  "play_all t [] = Some t"
| "play_all t (c # cs) = (case play t c of None \<Rightarrow> None | Some t' \<Rightarrow> play_all t' cs)"

lemma play_total:
  assumes "wf t" "key (fst c)"
  obtains t' where "play t c = Some t'" "wf t'"
    "dom (look t') \<subseteq> insert (fst c) (dom (look t))"
    "fst c \<in> dom (look t) \<or> card (dom (look t)) < cap \<or> snd c = None \<Longrightarrow>
      look t' = change_map c (look t)"
proof (cases c)
  case (Pair k ov)
  show thesis
  proof (cases ov)
    case None
    then show ?thesis using that del_ok [of t k] assms Pair by fastforce
  next
    case (Some v)
    have "look (ins t k v) = (look t)(k \<mapsto> v) \<or> look (ins t k v) = look t"
      using ins_look [of t k v] ins_full [of t k v] assms Pair by (metis fst_conv not_le)
    then have "dom (look (ins t k v)) \<subseteq> insert k (dom (look t))" by (elim disjE) auto
    then show ?thesis
      using that [of "ins t k v"] ins_wf [of t k v] ins_look [of t k v] assms Pair Some by auto
  qed
qed

text \<open>Every log can be played: no change makes the table fail or hang.\<close>

lemma play_all_total:
  assumes "wf t" "\<forall>c \<in> set cs. key (fst c)"
  shows "\<exists>t'. play_all t cs = Some t' \<and> wf t'"
  using assms
proof (induction cs arbitrary: t)
  case (Cons c cs)
  then show ?case using play_total [of t c] by (metis list.set_intros option.simps(5) play_all.simps(2))
qed simp

text \<open>A log that names no more keys than fit is played exactly.\<close>

lemma play_all_exact:
  assumes "wf t" "\<forall>c \<in> set cs. key (fst c)"
    and "card (dom (look t) \<union> fst ` set cs) \<le> cap"
  shows "\<exists>t'. play_all t cs = Some t' \<and> wf t' \<and> look t' = fold change_map cs (look t)"
  using assms
proof (induction cs arbitrary: t)
  case (Cons c cs)
  have fin: "finite (dom (look t) \<union> fst ` set (c # cs))" using finite_dom [OF Cons.prems(1)] by simp
  have room: "fst c \<in> dom (look t) \<or> card (dom (look t)) < cap"
  proof (rule disjCI)
    assume "\<not> card (dom (look t)) < cap"
    then have "dom (look t) = dom (look t) \<union> fst ` set (c # cs)"
      using Cons.prems(3) by (intro card_seteq [OF fin]) auto
    then show "fst c \<in> dom (look t)" by auto
  qed
  obtain t' where t': "play t c = Some t'" "wf t'" "look t' = change_map c (look t)"
    "dom (look t') \<subseteq> insert (fst c) (dom (look t))"
    using play_total [of t c] Cons.prems room by (metis list.set_intros(1))
  have "card (dom (look t') \<union> fst ` set cs) \<le> card (dom (look t) \<union> fst ` set (c # cs))"
    using t'(4) by (intro card_mono [OF fin]) auto
  then show ?case using Cons.IH [OF t'(2)] Cons.prems t' by simp
qed simp

end

end
