(* ===== verification/Mutex_Owners.thy ===== *)
theory Mutex_Owners
  imports Table_Spec
begin

text \<open>
  \<^verbatim>\<open>MutexOwners\<close> of \<^verbatim>\<open>crates/snare-interpose/src/sched.rs\<close>: which thread holds each mutex, in
  an open-addressing hash table of fixed size with linear probing and backward-shift deletion
  (address 0 marks a free slot). The theory shows that the table implements a finite map from
  mutex addresses to thread lineages: lookups, insertions up to the capacity and removals agree with
  the map, the removal loop always ends, and the probe-run invariant is kept.
\<close>

section \<open>The table\<close>

definition OWNED_MUTEXES :: nat where
  "OWNED_MUTEXES = 1024"

definition MASK :: nat where
  "MASK = OWNED_MUTEXES - 1"

record mutex_owners =
  mo_slots :: "(nat \<times> nat) list"
  mo_len :: nat

definition mo_default :: mutex_owners where
  "mo_default = \<lparr>mo_slots = replicate OWNED_MUTEXES (0, 0), mo_len = 0\<rparr>"

text \<open>The shift is \<^verbatim>\<open>64 - OWNED_MUTEXES.trailing_zeros()\<close>, that is \<open>64 - 10\<close>.\<close>

definition home :: "nat \<Rightarrow> nat" where
  "home addr = drop_bit (64 - 10) (wrapping_mul (drop_bit 3 addr) 0x9e3779b97f4a7c15)"

fun find_loop :: "nat \<Rightarrow> (nat \<times> nat) list \<Rightarrow> nat \<Rightarrow> nat \<Rightarrow> nat option" where
  "find_loop 0 slots addr i = None"
| "find_loop (Suc n) slots addr i =
     (let slot = fst (slots ! i)
      in if slot = addr \<or> slot = 0 then Some i
         else find_loop n slots addr ((i + 1) AND MASK))"

definition mo_find :: "mutex_owners \<Rightarrow> nat \<Rightarrow> nat option" where
  "mo_find t addr = find_loop OWNED_MUTEXES (mo_slots t) addr (home addr)"

definition mo_insert :: "mutex_owners \<Rightarrow> nat \<Rightarrow> nat \<Rightarrow> mutex_owners" where
  "mo_insert t addr owner =
     (case mo_find t addr of
        None \<Rightarrow> t
      | Some i \<Rightarrow>
          if fst (mo_slots t ! i) = 0 then
            (if mo_len t + 1 \<ge> OWNED_MUTEXES then t
             else t\<lparr>mo_len := mo_len t + 1, mo_slots := (mo_slots t)[i := (addr, owner)]\<rparr>)
          else t\<lparr>mo_slots := (mo_slots t)[i := (addr, owner)]\<rparr>)"

definition mo_contains :: "mutex_owners \<Rightarrow> nat \<Rightarrow> bool" where
  "mo_contains t addr =
     (case mo_find t addr of None \<Rightarrow> False | Some i \<Rightarrow> fst (mo_slots t ! i) = addr)"

text \<open>
  The loop of \<^verbatim>\<open>remove\<close>: from \<open>hole\<close>, every later entry of the run that may fill it moves back.
  The source loops until it meets a free slot, so not ending is the value \<open>None\<close>.
\<close>

partial_function (option) remove_loop ::
  "(nat \<times> nat) list \<Rightarrow> nat \<Rightarrow> nat \<Rightarrow> ((nat \<times> nat) list \<times> nat) option" where
  "remove_loop slots hole j0 =
     (let j = (j0 + 1) AND MASK;
          entry = slots ! j
      in if fst entry = 0 then Some (slots, hole)
         else if (wrapping_sub j (home (fst entry)) AND MASK) \<ge> (wrapping_sub j hole AND MASK)
         then remove_loop (slots[hole := entry]) j j
         else remove_loop slots hole j)"

text \<open>A decrement below 0 panics in the source, which is the value \<open>None\<close> as well.\<close>

definition mo_remove :: "mutex_owners \<Rightarrow> nat \<Rightarrow> mutex_owners option" where
  "mo_remove t addr =
     (case mo_find t addr of
        None \<Rightarrow> Some t
      | Some i \<Rightarrow>
          if fst (mo_slots t ! i) \<noteq> addr then Some t
          else (case remove_loop (mo_slots t) i i of
                  None \<Rightarrow> None
                | Some (slots, hole) \<Rightarrow>
                    if mo_len t = 0 then None
                    else Some (t\<lparr>mo_slots := slots[hole := (0, 0)], mo_len := mo_len t - 1\<rparr>)))"

definition mo_held_by :: "mutex_owners \<Rightarrow> nat \<Rightarrow> nat option" where
  "mo_held_by t owner =
     map_option fst (List.find (\<lambda>(addr, o'). addr \<noteq> 0 \<and> o' = owner) (mo_slots t))"

definition mo_owner :: "mutex_owners \<Rightarrow> nat \<Rightarrow> nat option" where
  "mo_owner t addr =
     (case mo_find t addr of
        None \<Rightarrow> None
      | Some i \<Rightarrow> if fst (mo_slots t ! i) = addr then Some (snd (mo_slots t ! i)) else None)"

text \<open>\<^verbatim>\<open>MutexRecord\<close> of \<^verbatim>\<open>pending.rs\<close>, and its application to the table.\<close>

record mutex_record =
  mr_mutex :: nat
  mr_lineage :: nat
  mr_taken :: bool

definition mo_apply :: "mutex_owners \<Rightarrow> mutex_record \<Rightarrow> mutex_owners option" where
  "mo_apply t r =
     (if mr_taken r then Some (mo_insert t (mr_mutex r) (mr_lineage r))
      else mo_remove t (mr_mutex r))"

section \<open>Cyclic distance\<close>

text \<open>\<open>cdist x y\<close> is how many probe steps lead from slot \<open>x\<close> to slot \<open>y\<close>.\<close>

definition cdist :: "nat \<Rightarrow> nat \<Rightarrow> nat" where
  "cdist x y = (if x \<le> y then y - x else y + OWNED_MUTEXES - x)"

abbreviation nxt :: "nat \<Rightarrow> nat" where
  "nxt i \<equiv> Suc i AND MASK"

lemma MASK_eq: "MASK = 2 ^ 10 - 1"
  by (simp add: MASK_def OWNED_MUTEXES_def)

lemma and_MASK: "n AND MASK = n mod OWNED_MUTEXES"
  using and_mask_nat [of n 10] by (simp add: MASK_eq OWNED_MUTEXES_def)

lemma OWNED_MUTEXES_pos [simp]: "0 < OWNED_MUTEXES"
  by (simp add: OWNED_MUTEXES_def)

lemma home_less [simp]: "home a < OWNED_MUTEXES"
proof -
  have "wrapping_mul x y < 2 ^ 64" for x y
    by (simp add: wrapping_mul_def)
  then have "wrapping_mul x y div 2 ^ 54 < 2 ^ 10" for x y
    by (intro less_mult_imp_div_less) simp
  then show ?thesis
    by (simp add: home_def drop_bit_eq_div OWNED_MUTEXES_def)
qed

lemma nxt_eq: "i < OWNED_MUTEXES \<Longrightarrow> nxt i = (if Suc i = OWNED_MUTEXES then 0 else Suc i)"
  by (simp add: and_MASK)

lemma nxt_less [simp]: "nxt i < OWNED_MUTEXES"
  by (simp add: and_MASK)

lemma wrapping_sub_MASK:
  assumes "j < OWNED_MUTEXES" "h < OWNED_MUTEXES"
  shows "wrapping_sub j h AND MASK = cdist h j"
proof -
  have "wrapping_sub j h mod 1024 = (j + 2 ^ 64 - h) mod 1024"
    unfolding wrapping_sub_def by (rule mod_mod_cancel) simp
  also have "j + 2 ^ 64 - h = (j + 1024 - h) + (2 ^ 54 - 1) * 1024"
    using assms by (simp add: OWNED_MUTEXES_def)
  also have "((j + 1024 - h) + (2 ^ 54 - 1) * 1024) mod 1024 = (j + 1024 - h) mod 1024"
    by (rule mod_mult_self1)
  also have "\<dots> = cdist h j"
    using assms by (auto simp: cdist_def OWNED_MUTEXES_def mod_if)
  finally show ?thesis by (simp add: and_MASK OWNED_MUTEXES_def)
qed


lemma cdist_less: "x < OWNED_MUTEXES \<Longrightarrow> y < OWNED_MUTEXES \<Longrightarrow> cdist x y < OWNED_MUTEXES"
  by (auto simp: cdist_def)

lemma cdist_eq_0: "x < OWNED_MUTEXES \<Longrightarrow> y < OWNED_MUTEXES \<Longrightarrow> cdist x y = 0 \<longleftrightarrow> x = y"
  by (auto simp: cdist_def)

lemma cdist_self [simp]: "cdist x x = 0"
  by (simp add: cdist_def)

lemma cdist_inj:
  "x < OWNED_MUTEXES \<Longrightarrow> y < OWNED_MUTEXES \<Longrightarrow> z < OWNED_MUTEXES \<Longrightarrow> cdist x y = cdist x z \<Longrightarrow> y = z"
  by (auto simp: cdist_def split: if_splits)

lemma cdist_nxt_left:
  "x < OWNED_MUTEXES \<Longrightarrow> y < OWNED_MUTEXES \<Longrightarrow> x \<noteq> y \<Longrightarrow> Suc (cdist (nxt x) y) = cdist x y"
  by (auto simp: cdist_def nxt_eq)

lemma cdist_nxt_right:
  "x < OWNED_MUTEXES \<Longrightarrow> y < OWNED_MUTEXES \<Longrightarrow> nxt y \<noteq> x \<Longrightarrow> cdist x (nxt y) = Suc (cdist x y)"
  by (auto simp: cdist_def nxt_eq)

lemma cdist_via:
  assumes "h < OWNED_MUTEXES" "p < OWNED_MUTEXES" "i < OWNED_MUTEXES" "cdist h p \<le> cdist h i"
  shows "cdist h i = cdist h p + cdist p i"
  using assms by (auto simp: cdist_def split: if_splits)

lemma cdist_tri:
  assumes "h < OWNED_MUTEXES" "p < OWNED_MUTEXES" "i < OWNED_MUTEXES"
    and "cdist h p + cdist p i < OWNED_MUTEXES"
  shows "cdist h i = cdist h p + cdist p i"
  using assms by (auto simp: cdist_def split: if_splits)

lemma cdist_between:
  assumes "h < OWNED_MUTEXES" "p < OWNED_MUTEXES" "i < OWNED_MUTEXES"
  shows "cdist p i \<le> cdist h i \<longleftrightarrow> cdist h p \<le> cdist h i"
  using assms by (auto simp: cdist_def split: if_splits)

section \<open>The invariant and the map the table stands for\<close>

definition occ :: "(nat \<times> nat) list \<Rightarrow> nat \<Rightarrow> bool" where
  "occ s i \<longleftrightarrow> fst (s ! i) \<noteq> 0"

text \<open>\<open>on_run s i k\<close>: slot \<open>k\<close> lies on the probe run of the entry in slot \<open>i\<close>.\<close>

definition on_run :: "(nat \<times> nat) list \<Rightarrow> nat \<Rightarrow> nat \<Rightarrow> bool" where
  "on_run s i k \<longleftrightarrow> cdist (home (fst (s ! i))) k \<le> cdist (home (fst (s ! i))) i"

definition run_ok :: "(nat \<times> nat) list \<Rightarrow> bool" where
  "run_ok s \<longleftrightarrow>
     (\<forall>i<OWNED_MUTEXES. \<forall>k<OWNED_MUTEXES. occ s i \<longrightarrow> on_run s i k \<longrightarrow> occ s k)"

definition uniq :: "(nat \<times> nat) list \<Rightarrow> bool" where
  "uniq s \<longleftrightarrow>
     (\<forall>i<OWNED_MUTEXES. \<forall>j<OWNED_MUTEXES. occ s i \<longrightarrow> fst (s ! i) = fst (s ! j) \<longrightarrow> i = j)"

definition mo_wf :: "mutex_owners \<Rightarrow> bool" where
  "mo_wf t \<longleftrightarrow>
     length (mo_slots t) = OWNED_MUTEXES \<and>
     mo_len t = card {i. i < OWNED_MUTEXES \<and> occ (mo_slots t) i} \<and>
     mo_len t < OWNED_MUTEXES \<and> run_ok (mo_slots t) \<and> uniq (mo_slots t)"

definition mo_map :: "mutex_owners \<Rightarrow> nat \<Rightarrow> nat option" where
  "mo_map t = map_of (filter (\<lambda>e. fst e \<noteq> 0) (mo_slots t))"

lemma mo_wfD:
  assumes "mo_wf t"
  shows "length (mo_slots t) = OWNED_MUTEXES" "run_ok (mo_slots t)" "uniq (mo_slots t)"
    "mo_len t = card {i. i < OWNED_MUTEXES \<and> occ (mo_slots t) i}" "mo_len t < OWNED_MUTEXES"
  using assms by (auto simp: mo_wf_def)

lemma run_okD: "run_ok s \<Longrightarrow> i < OWNED_MUTEXES \<Longrightarrow> k < OWNED_MUTEXES \<Longrightarrow> occ s i \<Longrightarrow> on_run s i k \<Longrightarrow> occ s k"
  unfolding run_ok_def by blast

lemma uniqD: "uniq s \<Longrightarrow> i < OWNED_MUTEXES \<Longrightarrow> j < OWNED_MUTEXES \<Longrightarrow> occ s i \<Longrightarrow> fst (s ! i) = fst (s ! j) \<Longrightarrow> i = j"
  unfolding uniq_def by blast

lemma free_slot:
  assumes "mo_wf t"
  obtains z where "z < OWNED_MUTEXES" "\<not> occ (mo_slots t) z"
proof -
  have "card {i. i < OWNED_MUTEXES \<and> occ (mo_slots t) i} < card {..<OWNED_MUTEXES}"
    using mo_wfD [OF assms] by simp
  then have "{i. i < OWNED_MUTEXES \<and> occ (mo_slots t) i} \<noteq> {..<OWNED_MUTEXES}"
    by (metis less_irrefl)
  then show thesis using that by auto
qed

lemma mo_map_zero [simp]: "mo_map t 0 = None"
  by (auto simp: mo_map_def map_of_eq_None_iff)

lemma mo_map_Some_iff:
  assumes "length (mo_slots t) = OWNED_MUTEXES" "uniq (mo_slots t)" "a \<noteq> 0"
  shows "mo_map t a = Some w \<longleftrightarrow> (\<exists>i<OWNED_MUTEXES. mo_slots t ! i = (a, w))"
proof
  assume "mo_map t a = Some w"
  then have "(a, w) \<in> set (mo_slots t)"
    by (auto simp: mo_map_def dest: map_of_SomeD)
  then show "\<exists>i<OWNED_MUTEXES. mo_slots t ! i = (a, w)"
    using assms(1) by (auto simp: in_set_conv_nth)
next
  assume "\<exists>i<OWNED_MUTEXES. mo_slots t ! i = (a, w)"
  then obtain i where i: "i < OWNED_MUTEXES" "mo_slots t ! i = (a, w)" by auto
  then have "(a, w) \<in> set (filter (\<lambda>e. fst e \<noteq> 0) (mo_slots t))"
    using assms by (auto simp: in_set_conv_nth)
  then obtain v where v: "mo_map t a = Some v"
    unfolding mo_map_def by (meson weak_map_of_SomeI)
  then have "(a, v) \<in> set (mo_slots t)"
    by (auto simp: mo_map_def dest: map_of_SomeD)
  then obtain j where j: "j < OWNED_MUTEXES" "mo_slots t ! j = (a, v)"
    using assms(1) by (auto simp: in_set_conv_nth)
  have "i = j" using uniqD [OF assms(2) i(1) j(1)] i j assms(3) by (simp add: occ_def)
  with i j v show "mo_map t a = Some w" by simp
qed

lemma mo_map_None_iff:
  assumes "length (mo_slots t) = OWNED_MUTEXES" "a \<noteq> 0"
  shows "mo_map t a = None \<longleftrightarrow> (\<forall>i<OWNED_MUTEXES. fst (mo_slots t ! i) \<noteq> a)"
proof -
  have "mo_map t a = None \<longleftrightarrow> (\<forall>e \<in> set (mo_slots t). fst e \<noteq> a)"
    using assms(2) by (auto simp: mo_map_def map_of_eq_None_iff)
  also have "\<dots> \<longleftrightarrow> (\<forall>i<OWNED_MUTEXES. fst (mo_slots t ! i) \<noteq> a)"
    using assms(1) by (simp add: all_set_conv_all_nth)
  finally show ?thesis .
qed

section \<open>Probing\<close>

lemma find_loop_Some:
  assumes "find_loop n s a i = Some k" "i < OWNED_MUTEXES"
  shows "k < OWNED_MUTEXES \<and> (fst (s ! k) = a \<or> \<not> occ s k) \<and>
    (\<forall>m<OWNED_MUTEXES. cdist i m < cdist i k \<longrightarrow> occ s m \<and> fst (s ! m) \<noteq> a)"
  using assms
proof (induction n arbitrary: i)
  case 0
  then show ?case by simp
next
  case (Suc n)
  show ?case
  proof (cases "fst (s ! i) = a \<or> fst (s ! i) = 0")
    case True
    with Suc.prems have "k = i" by (simp add: Let_def)
    with True Suc.prems show ?thesis by (auto simp: occ_def)
  next
    case False
    with Suc.prems have rec: "find_loop n s a (nxt i) = Some k" by (simp add: Let_def)
    note IH = Suc.IH [OF rec nxt_less]
    from IH False have ki: "k \<noteq> i" by (auto simp: occ_def)
    show ?thesis
    proof (intro conjI allI impI)
      fix m assume m: "m < OWNED_MUTEXES" "cdist i m < cdist i k"
      show "occ s m"
        using IH False m ki cdist_nxt_left [of i m] cdist_nxt_left [of i k] Suc.prems
        by (cases "m = i") (auto simp: occ_def)
      show "fst (s ! m) \<noteq> a"
        using IH False m ki cdist_nxt_left [of i m] cdist_nxt_left [of i k] Suc.prems
        by (cases "m = i") auto
    qed (use IH in auto)
  qed
qed

lemma find_loop_None:
  assumes "find_loop n s a i = None" "i < OWNED_MUTEXES" "m < OWNED_MUTEXES" "cdist i m < n"
  shows "occ s m"
  using assms
proof (induction n arbitrary: i)
  case 0
  then show ?case by simp
next
  case (Suc n)
  then have i: "occ s i" and rec: "find_loop n s a (nxt i) = None"
    by (auto simp: Let_def occ_def split: if_splits)
  show ?case
    using i Suc.IH [OF rec nxt_less Suc.prems(3)] Suc.prems cdist_nxt_left [of i m]
    by (cases "m = i") auto
qed

lemma mo_find_total:
  assumes "mo_wf t"
  obtains k where "mo_find t a = Some k"
proof -
  obtain z where z: "z < OWNED_MUTEXES" "\<not> occ (mo_slots t) z"
    using free_slot [OF assms] .
  then have "mo_find t a \<noteq> None"
    using find_loop_None [of OWNED_MUTEXES "mo_slots t" a "home a" z] cdist_less
    by (auto simp: mo_find_def)
  then show thesis using that by auto
qed

lemma mo_find_present:
  assumes wf: "mo_wf t" and p: "p < OWNED_MUTEXES" "fst (mo_slots t ! p) = a" and a: "a \<noteq> 0"
  shows "mo_find t a = Some p"
proof -
  obtain k where k: "mo_find t a = Some k" using mo_find_total [OF wf] .
  note f = find_loop_Some [OF k [unfolded mo_find_def] home_less]
  have kN: "k < OWNED_MUTEXES" using f by blast
  have op: "occ (mo_slots t) p" using p a by (simp add: occ_def)
  have "\<not> cdist (home a) p < cdist (home a) k"
    using f p by blast
  then have "on_run (mo_slots t) p k" using p by (simp add: on_run_def)
  then have "occ (mo_slots t) k" by (rule run_okD [OF mo_wfD(2) [OF wf] p(1) kN op])
  with f have "fst (mo_slots t ! k) = a" by blast
  then have "p = k"
    using uniqD [OF mo_wfD(3) [OF wf] p(1) kN op] p by simp
  with k show ?thesis by simp
qed

lemma mo_find_absent:
  assumes wf: "mo_wf t" and "\<forall>i<OWNED_MUTEXES. fst (mo_slots t ! i) \<noteq> a"
  obtains k where "mo_find t a = Some k" "k < OWNED_MUTEXES" "\<not> occ (mo_slots t) k"
    "\<forall>m<OWNED_MUTEXES. cdist (home a) m < cdist (home a) k \<longrightarrow> occ (mo_slots t) m"
proof -
  obtain k where k: "mo_find t a = Some k" using mo_find_total [OF wf] .
  note f = find_loop_Some [OF k [unfolded mo_find_def] home_less]
  show thesis using that [OF k] f assms(2) by auto
qed

lemma mo_owner_eq_map:
  assumes wf: "mo_wf t" and a: "a \<noteq> 0"
  shows "mo_owner t a = mo_map t a"
proof (cases "mo_map t a")
  case None
  then have no: "\<forall>i<OWNED_MUTEXES. fst (mo_slots t ! i) \<noteq> a"
    using mo_map_None_iff mo_wfD(1) [OF wf] a by blast
  obtain k where "mo_find t a = Some k" "k < OWNED_MUTEXES" using mo_find_absent [OF wf no] .
  with None no show ?thesis by (simp add: mo_owner_def)
next
  case (Some w)
  then obtain p where "p < OWNED_MUTEXES" "mo_slots t ! p = (a, w)"
    using mo_map_Some_iff mo_wfD [OF wf] a by blast
  with Some mo_find_present [OF wf, of p a] a show ?thesis by (simp add: mo_owner_def)
qed

lemma mo_contains_iff:
  assumes "mo_wf t" "a \<noteq> 0"
  shows "mo_contains t a \<longleftrightarrow> a \<in> dom (mo_map t)"
proof -
  have "mo_contains t a \<longleftrightarrow> mo_owner t a \<noteq> None"
    by (simp add: mo_contains_def mo_owner_def split: option.splits)
  then show ?thesis using mo_owner_eq_map [OF assms] by (simp add: dom_def)
qed


section \<open>Insertion\<close>

lemma occ_update:
  "i < length s \<Longrightarrow> occ (s[i := e]) k \<longleftrightarrow> (if k = i then fst e \<noteq> 0 else occ s k)"
  by (simp add: occ_def)

lemma on_run_update_other:
  "i \<noteq> j \<Longrightarrow> on_run (s[i := e]) j k \<longleftrightarrow> on_run s j k"
  by (simp add: on_run_def)

text \<open>Overwriting the entry of a mutex that is present, or filling the free slot its probe ends at.\<close>

lemma run_ok_overwrite:
  assumes "run_ok s" "i < OWNED_MUTEXES" "length s = OWNED_MUTEXES" "fst (s ! i) = a" "a \<noteq> 0"
  shows "run_ok (s[i := (a, w)])"
proof -
  have "occ (s[i := (a, w)]) k = occ s k" for k
    using assms by (simp add: occ_update) (auto simp: occ_def)
  moreover have "on_run (s[i := (a, w)]) j k = on_run s j k" for j k
    using assms by (cases "j = i") (auto simp: on_run_def)
  ultimately show ?thesis using assms(1) by (simp only: run_ok_def)
qed

lemma run_ok_fill:
  assumes "run_ok s" "i < OWNED_MUTEXES" "length s = OWNED_MUTEXES" "\<not> occ s i" "a \<noteq> 0"
    and before: "\<forall>m<OWNED_MUTEXES. cdist (home a) m < cdist (home a) i \<longrightarrow> occ s m"
  shows "run_ok (s[i := (a, w)])"
  unfolding run_ok_def
proof (intro allI impI)
  fix j k assume j: "j < OWNED_MUTEXES" and k: "k < OWNED_MUTEXES"
    and oj: "occ (s[i := (a, w)]) j" and r: "on_run (s[i := (a, w)]) j k"
  show "occ (s[i := (a, w)]) k"
  proof (cases "k = i")
    case True
    then show ?thesis using assms by (simp add: occ_update)
  next
    case ki: False
    have "occ s k"
    proof (cases "j = i")
      case True
      with r assms have le: "cdist (home a) k \<le> cdist (home a) i" by (simp add: on_run_def)
      have "cdist (home a) k \<noteq> cdist (home a) i"
        using ki cdist_inj [OF home_less k assms(2)] by blast
      with le before k show ?thesis by simp
    next
      case False
      then have "occ s j" "on_run s j k"
        using oj r assms by (simp_all add: occ_update on_run_update_other)
      then show ?thesis using run_okD [OF assms(1) j k] by simp
    qed
    then show ?thesis using ki assms by (simp add: occ_update)
  qed
qed

lemma uniq_store:
  assumes "uniq s" "i < OWNED_MUTEXES" "length s = OWNED_MUTEXES"
    and "\<forall>j<OWNED_MUTEXES. j \<noteq> i \<longrightarrow> fst (s ! j) \<noteq> a"
  shows "uniq (s[i := (a, w)])"
  unfolding uniq_def
proof (intro allI impI)
  fix j k assume jk: "j < OWNED_MUTEXES" "k < OWNED_MUTEXES" and oj: "occ (s[i := (a, w)]) j"
    and eq: "fst (s[i := (a, w)] ! j) = fst (s[i := (a, w)] ! k)"
  show "j = k"
  proof (cases "j = i \<or> k = i")
    case True
    then show ?thesis using eq jk assms(2-4) by (metis fst_conv nth_list_update)
  next
    case False
    then show ?thesis using uniqD [OF assms(1) jk] oj eq assms(3) by (simp add: occ_def)
  qed
qed

lemma mo_map_store:
  assumes len: "length (mo_slots t) = OWNED_MUTEXES" and u: "uniq (mo_slots t)"
    and i: "i < OWNED_MUTEXES" and a: "a \<noteq> 0"
    and at: "fst (mo_slots t ! i) = a \<or> \<not> occ (mo_slots t) i"
    and others: "\<forall>j<OWNED_MUTEXES. j \<noteq> i \<longrightarrow> fst (mo_slots t ! j) \<noteq> a"
    and t': "mo_slots t' = (mo_slots t)[i := (a, w)]"
  shows "mo_map t' = (mo_map t)(a \<mapsto> w)"
proof (rule ext)
  fix b
  have len': "length (mo_slots t') = OWNED_MUTEXES" using len t' by simp
  have u': "uniq (mo_slots t')" unfolding t' by (rule uniq_store [OF u i len others])
  show "mo_map t' b = ((mo_map t)(a \<mapsto> w)) b"
  proof (cases "b = 0 \<or> b = a")
    case True
    moreover have "mo_map t' a = Some w"
      using mo_map_Some_iff [OF len' u' a] i len t' by force
    ultimately show ?thesis using a by auto
  next
    case False
    then have "(\<exists>k<OWNED_MUTEXES. mo_slots t' ! k = (b, v)) \<longleftrightarrow>
        (\<exists>k<OWNED_MUTEXES. mo_slots t ! k = (b, v))" for v
      using at i len unfolding t' by (metis fst_conv nth_list_update occ_def)
    then have "mo_map t' b = Some v \<longleftrightarrow> mo_map t b = Some v" for v
      using mo_map_Some_iff [OF len' u', of b] mo_map_Some_iff [OF len u, of b] False by simp
    then show ?thesis using False by (metis fun_upd_other option.exhaust)
  qed
qed

lemma card_occ_fill:
  assumes "i < OWNED_MUTEXES" "length s = OWNED_MUTEXES" "\<not> occ s i" "fst e \<noteq> 0"
  shows "card {k. k < OWNED_MUTEXES \<and> occ (s[i := e]) k} = Suc (card {k. k < OWNED_MUTEXES \<and> occ s k})"
proof -
  have "{k. k < OWNED_MUTEXES \<and> occ (s[i := e]) k} = insert i {k. k < OWNED_MUTEXES \<and> occ s k}"
    using assms by (auto simp: occ_update)
  then show ?thesis using assms by simp
qed

lemma mo_insert_present:
  assumes wf: "mo_wf t" and a: "a \<noteq> 0" and p: "p < OWNED_MUTEXES" "fst (mo_slots t ! p) = a"
  shows "mo_wf (mo_insert t a w) \<and> mo_map (mo_insert t a w) = (mo_map t)(a \<mapsto> w)"
proof -
  note d = mo_wfD [OF wf]
  have ins: "mo_insert t a w = t\<lparr>mo_slots := (mo_slots t)[p := (a, w)]\<rparr>"
    using mo_find_present [OF wf p a] p a by (simp add: mo_insert_def)
  have others: "\<forall>j<OWNED_MUTEXES. j \<noteq> p \<longrightarrow> fst (mo_slots t ! j) \<noteq> a"
    using uniqD [OF d(3) p(1)] p a by (metis occ_def)
  have "occ ((mo_slots t)[p := (a, w)]) k = occ (mo_slots t) k" for k
    using p a d(1) by (simp add: occ_update) (auto simp: occ_def)
  then have "mo_wf (mo_insert t a w)"
    using run_ok_overwrite [OF d(2) p(1) d(1) p(2) a] uniq_store [OF d(3) p(1) d(1) others] d
    by (simp add: ins mo_wf_def)
  moreover have "mo_map (mo_insert t a w) = (mo_map t)(a \<mapsto> w)"
    by (rule mo_map_store [OF d(1) d(3) p(1) a]) (use p others in \<open>simp_all add: ins\<close>)
  ultimately show ?thesis by simp
qed

lemma mo_insert_absent:
  assumes wf: "mo_wf t" and a: "a \<noteq> 0" and no: "\<forall>i<OWNED_MUTEXES. fst (mo_slots t ! i) \<noteq> a"
    and room: "mo_len t + 1 < OWNED_MUTEXES"
  shows "mo_wf (mo_insert t a w) \<and> mo_map (mo_insert t a w) = (mo_map t)(a \<mapsto> w)"
proof -
  note d = mo_wfD [OF wf]
  obtain k where k: "mo_find t a = Some k" "k < OWNED_MUTEXES" "\<not> occ (mo_slots t) k"
    and before: "\<forall>m<OWNED_MUTEXES. cdist (home a) m < cdist (home a) k \<longrightarrow> occ (mo_slots t) m"
    using mo_find_absent [OF wf no] .
  have ins: "mo_insert t a w =
      t\<lparr>mo_len := mo_len t + 1, mo_slots := (mo_slots t)[k := (a, w)]\<rparr>"
    using k room by (simp add: mo_insert_def occ_def)
  have others: "\<forall>j<OWNED_MUTEXES. j \<noteq> k \<longrightarrow> fst (mo_slots t ! j) \<noteq> a" using no by simp
  have "mo_wf (mo_insert t a w)"
    using run_ok_fill [OF d(2) k(2) d(1) k(3) a before] uniq_store [OF d(3) k(2) d(1) others]
      card_occ_fill [OF k(2) d(1) k(3), of "(a, w)"] d a room
    by (simp add: ins mo_wf_def)
  moreover have "mo_map (mo_insert t a w) = (mo_map t)(a \<mapsto> w)"
    by (rule mo_map_store [OF d(1) d(3) k(2) a]) (use k others in \<open>simp_all add: ins\<close>)
  ultimately show ?thesis by simp
qed

lemma mo_insert_full:
  assumes wf: "mo_wf t" and a: "a \<noteq> 0" and no: "\<forall>i<OWNED_MUTEXES. fst (mo_slots t ! i) \<noteq> a"
    and full: "mo_len t + 1 \<ge> OWNED_MUTEXES"
  shows "mo_insert t a w = t"
proof -
  obtain k where "mo_find t a = Some k" "k < OWNED_MUTEXES" "\<not> occ (mo_slots t) k"
    using mo_find_absent [OF wf no] .
  then show ?thesis using full by (simp add: mo_insert_def occ_def)
qed

lemma mo_insert_correct:
  assumes "mo_wf t" "a \<noteq> 0"
  shows "mo_wf (mo_insert t a w)"
    and "mo_map (mo_insert t a w) =
      (if a \<in> dom (mo_map t) \<or> mo_len t + 1 < OWNED_MUTEXES then (mo_map t)(a \<mapsto> w) else mo_map t)"
proof -
  have dom: "a \<in> dom (mo_map t) \<longleftrightarrow> (\<exists>i<OWNED_MUTEXES. fst (mo_slots t ! i) = a)"
    using mo_map_None_iff [OF mo_wfD(1) [OF assms(1)] assms(2)] by (auto simp: domIff)
  consider (present) p where "p < OWNED_MUTEXES" "fst (mo_slots t ! p) = a"
    | (absent) "\<forall>i<OWNED_MUTEXES. fst (mo_slots t ! i) \<noteq> a" by blast
  then have "mo_wf (mo_insert t a w) \<and> mo_map (mo_insert t a w) =
      (if a \<in> dom (mo_map t) \<or> mo_len t + 1 < OWNED_MUTEXES then (mo_map t)(a \<mapsto> w) else mo_map t)"
  proof cases
    case present
    then show ?thesis using mo_insert_present [OF assms] dom by auto
  next
    case absent
    then show ?thesis
      using mo_insert_absent [OF assms] mo_insert_full [OF assms] dom assms(1)
      by (cases "mo_len t + 1 < OWNED_MUTEXES") auto
  qed
  then show "mo_wf (mo_insert t a w)"
    "mo_map (mo_insert t a w) =
      (if a \<in> dom (mo_map t) \<or> mo_len t + 1 < OWNED_MUTEXES then (mo_map t)(a \<mapsto> w) else mo_map t)"
    by auto
qed


section \<open>Removal\<close>

text \<open>
  The invariant of the removal loop, after it scanned the slots from \<open>hole\<close> to \<open>j\<close>: the slot
  \<open>hole\<close> holds a stale entry, every other entry is the original table's, no scanned entry needs the
  hole for its probe run, and the runs are unbroken as long as the hole counts as occupied.
\<close>

definition runs_but :: "(nat \<times> nat) list \<Rightarrow> nat \<Rightarrow> bool" where
  "runs_but s hole \<longleftrightarrow>
     (\<forall>i<OWNED_MUTEXES. \<forall>k<OWNED_MUTEXES. i \<noteq> hole \<longrightarrow> occ s i \<longrightarrow> on_run s i k \<longrightarrow> occ s k)"

definition uniq_but :: "(nat \<times> nat) list \<Rightarrow> nat \<Rightarrow> bool" where
  "uniq_but s hole \<longleftrightarrow>
     (\<forall>i<OWNED_MUTEXES. \<forall>k<OWNED_MUTEXES.
        i \<noteq> hole \<longrightarrow> k \<noteq> hole \<longrightarrow> occ s i \<longrightarrow> fst (s ! i) = fst (s ! k) \<longrightarrow> i = k)"

definition entries_but :: "(nat \<times> nat) list \<Rightarrow> nat \<Rightarrow> (nat \<times> nat) set" where
  "entries_but s hole = {s ! i | i. i < OWNED_MUTEXES \<and> i \<noteq> hole}"

definition rem_inv ::
  "(nat \<times> nat) list \<Rightarrow> nat \<Rightarrow> (nat \<times> nat) list \<Rightarrow> nat \<Rightarrow> nat \<Rightarrow> bool" where
  "rem_inv s0 h0 s hole j \<longleftrightarrow>
     length s = OWNED_MUTEXES \<and> hole < OWNED_MUTEXES \<and> j < OWNED_MUTEXES \<and>
     (\<forall>k<OWNED_MUTEXES. occ s k = occ s0 k) \<and> runs_but s hole \<and> uniq_but s hole \<and>
     entries_but s hole = entries_but s0 h0 \<and>
     (\<forall>k<OWNED_MUTEXES. cdist hole k \<le> cdist hole j \<longrightarrow> occ s k) \<and>
     (\<forall>i<OWNED_MUTEXES. i \<noteq> hole \<longrightarrow> cdist hole i \<le> cdist hole j \<longrightarrow> \<not> on_run s i hole)"

lemma rem_invD:
  assumes "rem_inv s0 h0 s hole j"
  shows "length s = OWNED_MUTEXES" "hole < OWNED_MUTEXES" "j < OWNED_MUTEXES"
    "\<And>k. k < OWNED_MUTEXES \<Longrightarrow> occ s k = occ s0 k" "runs_but s hole" "uniq_but s hole"
    "entries_but s hole = entries_but s0 h0"
    "\<And>k. k < OWNED_MUTEXES \<Longrightarrow> cdist hole k \<le> cdist hole j \<Longrightarrow> occ s k"
    "\<And>i. i < OWNED_MUTEXES \<Longrightarrow> i \<noteq> hole \<Longrightarrow> cdist hole i \<le> cdist hole j \<Longrightarrow> \<not> on_run s i hole"
  using assms unfolding rem_inv_def by blast+

lemma runs_butD:
  "runs_but s hole \<Longrightarrow> i < OWNED_MUTEXES \<Longrightarrow> k < OWNED_MUTEXES \<Longrightarrow> i \<noteq> hole \<Longrightarrow> occ s i \<Longrightarrow>
    on_run s i k \<Longrightarrow> occ s k"
  unfolding runs_but_def by blast

lemma uniq_butD:
  "uniq_but s hole \<Longrightarrow> i < OWNED_MUTEXES \<Longrightarrow> k < OWNED_MUTEXES \<Longrightarrow> i \<noteq> hole \<Longrightarrow> k \<noteq> hole \<Longrightarrow>
    occ s i \<Longrightarrow> fst (s ! i) = fst (s ! k) \<Longrightarrow> i = k"
  unfolding uniq_but_def by blast

lemma rem_inv_next_not_hole:
  assumes inv: "rem_inv s0 h0 s hole j" and z: "z < OWNED_MUTEXES" "\<not> occ s z"
  shows "nxt j \<noteq> hole"
proof
  note d = rem_invD [OF inv]
  assume "nxt j = hole"
  then have "cdist hole z \<le> cdist hole j"
    using d(2,3) z(1) by (auto simp: cdist_def nxt_eq split: if_splits)
  then show False using d(8) z by blast
qed

lemma rem_inv_stay:
  assumes inv: "rem_inv s0 h0 s hole j" and nh: "nxt j \<noteq> hole"
    and o: "occ s (nxt j)" and far: "\<not> on_run s (nxt j) hole"
  shows "rem_inv s0 h0 s hole (nxt j)"
proof -
  note d = rem_invD [OF inv]
  have step: "cdist hole k \<le> cdist hole (nxt j) \<Longrightarrow> cdist hole k \<le> cdist hole j \<or> k = nxt j"
    if "k < OWNED_MUTEXES" for k
    using cdist_nxt_right [OF d(2,3) nh] cdist_inj [OF d(2) that nxt_less, of j] by linarith
  have 1: "\<forall>k<OWNED_MUTEXES. cdist hole k \<le> cdist hole (nxt j) \<longrightarrow> occ s k"
    using step d(8) o by blast
  have 2: "\<forall>i<OWNED_MUTEXES. i \<noteq> hole \<longrightarrow> cdist hole i \<le> cdist hole (nxt j) \<longrightarrow> \<not> on_run s i hole"
    using step d(9) far by blast
  show ?thesis
    using inv 1 2 nxt_less [of j] unfolding rem_inv_def by (elim conjE, intro conjI) assumption+
qed

text \<open>The entry of slot \<open>j\<close> is copied into the hole; slot \<open>j\<close> becomes the hole.\<close>

lemma nth_move:
  "hole < length s \<Longrightarrow> s[hole := s ! j] ! x = s ! (if x = hole then j else x)"
  by simp

lemma occ_move: "hole < length s \<Longrightarrow> occ s j \<Longrightarrow> occ s hole \<Longrightarrow> occ (s[hole := s ! j]) k = occ s k"
  by (cases "k = hole") (simp_all add: occ_def)

lemma runs_but_move:
  assumes len: "length s = OWNED_MUTEXES" and h: "hole < OWNED_MUTEXES" and j: "j < OWNED_MUTEXES"
    and oj: "occ s j" and oh: "occ s hole" and nh: "j \<noteq> hole"
    and needs: "on_run s j hole" and runs: "runs_but s hole"
  shows "runs_but (s[hole := s ! j]) j"
  unfolding runs_but_def
proof (intro allI impI)
  have hl: "hole < length s" using len h by simp
  fix i k assume ik: "i < OWNED_MUTEXES" "k < OWNED_MUTEXES" "i \<noteq> j" "occ (s[hole := s ! j]) i"
    and run: "on_run (s[hole := s ! j]) i k"
  have "occ s k"
  proof (cases "i = hole")
    case True
    have "cdist (home (fst (s ! j))) k \<le> cdist (home (fst (s ! j))) hole"
      using run True hl by (simp add: on_run_def)
    then have "on_run s j k" using needs unfolding on_run_def by linarith
    then show ?thesis by (rule runs_butD [OF runs j ik(2) nh oj])
  next
    case False
    then have "on_run s i k" using run by (simp add: on_run_def)
    moreover have "occ s i" using ik(4) occ_move [OF hl oj oh] by simp
    ultimately show ?thesis by (intro runs_butD [OF runs ik(1,2) False])
  qed
  then show "occ (s[hole := s ! j]) k" using occ_move [OF hl oj oh] by simp
qed

lemma uniq_but_move:
  assumes len: "length s = OWNED_MUTEXES" and h: "hole < OWNED_MUTEXES" and j: "j < OWNED_MUTEXES"
    and nh: "j \<noteq> hole" and u: "uniq_but s hole"
  shows "uniq_but (s[hole := s ! j]) j"
  unfolding uniq_but_def
proof (intro allI impI)
  have hl: "hole < length s" using len h by simp
  let ?f = "\<lambda>x. if x = hole then j else x"
  fix i k assume ik: "i < OWNED_MUTEXES" "k < OWNED_MUTEXES" "i \<noteq> j" "k \<noteq> j"
    and oi: "occ (s[hole := s ! j]) i"
    and eq: "fst (s[hole := s ! j] ! i) = fst (s[hole := s ! j] ! k)"
  have "?f i = ?f k"
  proof (rule uniq_butD [OF u])
    show "occ s (?f i)" using oi unfolding occ_def nth_move [OF hl] .
    show "fst (s ! ?f i) = fst (s ! ?f k)" using eq unfolding nth_move [OF hl] .
  qed (use ik j nh in simp_all)
  then show "i = k" using ik(3,4) by (auto split: if_splits)
qed

lemma entries_but_move:
  assumes len: "length s = OWNED_MUTEXES" and h: "hole < OWNED_MUTEXES" and j: "j < OWNED_MUTEXES"
    and nh: "j \<noteq> hole"
  shows "entries_but (s[hole := s ! j]) j = entries_but s hole"
proof
  have hl: "hole < length s" using len h by simp
  show "entries_but (s[hole := s ! j]) j \<subseteq> entries_but s hole"
  proof
    fix e assume "e \<in> entries_but (s[hole := s ! j]) j"
    then obtain i where "i < OWNED_MUTEXES" "i \<noteq> j" "e = s ! (if i = hole then j else i)"
      unfolding entries_but_def nth_move [OF hl] by blast
    then show "e \<in> entries_but s hole"
      unfolding entries_but_def using nh j by (cases "i = hole") auto
  qed
  show "entries_but s hole \<subseteq> entries_but (s[hole := s ! j]) j"
  proof
    fix e assume "e \<in> entries_but s hole"
    then obtain i where i: "i < OWNED_MUTEXES" "i \<noteq> hole" "e = s ! i"
      unfolding entries_but_def by blast
    let ?i = "if i = j then hole else i"
    have "?i < OWNED_MUTEXES" "?i \<noteq> j" "e = s[hole := s ! j] ! ?i"
      using i nh h unfolding nth_move [OF hl] by auto
    then show "e \<in> entries_but (s[hole := s ! j]) j" unfolding entries_but_def by blast
  qed
qed

lemma rem_inv_move:
  assumes inv: "rem_inv s0 h0 s hole j" and nh: "nxt j \<noteq> hole"
    and o: "occ s (nxt j)" and needs: "on_run s (nxt j) hole"
  shows "rem_inv s0 h0 (s[hole := s ! nxt j]) (nxt j) (nxt j)"
proof -
  note d = rem_invD [OF inv]
  have hl: "hole < length s" using d(1,2) by simp
  have oh: "occ s hole" using d(8) [OF d(2)] by simp
  have near: "cdist (nxt j) k \<le> cdist (nxt j) (nxt j) \<Longrightarrow> k = nxt j" if "k < OWNED_MUTEXES" for k
    using cdist_eq_0 [OF nxt_less that, of j] by simp
  have 1: "\<forall>k<OWNED_MUTEXES. occ (s[hole := s ! nxt j]) k = occ s0 k"
    using occ_move [OF hl o oh] d(4) by simp
  have 2: "\<forall>k<OWNED_MUTEXES. cdist (nxt j) k \<le> cdist (nxt j) (nxt j) \<longrightarrow> occ (s[hole := s ! nxt j]) k"
    using near occ_move [OF hl o oh] o by blast
  have 3: "\<forall>i<OWNED_MUTEXES. i \<noteq> nxt j \<longrightarrow> cdist (nxt j) i \<le> cdist (nxt j) (nxt j) \<longrightarrow>
      \<not> on_run (s[hole := s ! nxt j]) i (nxt j)"
    using near by blast
  show ?thesis
    using 1 2 3 d(1,7) nxt_less [of j] runs_but_move [OF d(1,2) nxt_less o oh nh needs d(5)]
      uniq_but_move [OF d(1,2) nxt_less nh d(6)] entries_but_move [OF d(1,2) nxt_less nh]
    unfolding rem_inv_def length_list_update by (intro conjI) (assumption | erule trans)+
qed

lemma remove_loop_ends:
  assumes "rem_inv s0 h0 s hole j" and "z < OWNED_MUTEXES" "\<not> occ s0 z"
  shows "\<exists>s' hole' j'. remove_loop s hole j = Some (s', hole') \<and>
    rem_inv s0 h0 s' hole' j' \<and> \<not> occ s' (nxt j')"
  using assms(1)
proof (induction "cdist j z" arbitrary: s hole j rule: less_induct)
  case less
  note d = rem_invD [OF less.prems]
  have z: "\<not> occ s z" using d(4) assms by blast
  have "j \<noteq> z" using d(8) [OF d(3)] z by blast
  then have closer: "cdist (nxt j) z < cdist j z"
    using cdist_nxt_left [OF d(3) assms(2)] by linarith
  have nh: "nxt j \<noteq> hole" using rem_inv_next_not_hole [OF less.prems assms(2) z] .
  let ?e = "s ! nxt j"
  have cond: "(wrapping_sub (nxt j) (home (fst ?e)) AND MASK) \<ge> (wrapping_sub (nxt j) hole AND MASK)
      \<longleftrightarrow> on_run s (nxt j) hole"
  proof -
    show ?thesis
      using cdist_between [OF home_less d(2) nxt_less] by (simp add: wrapping_sub_MASK d(2) on_run_def)
  qed
  show ?case
  proof (cases "occ s (nxt j)")
    case False
    then have "remove_loop s hole j = Some (s, hole)"
      by (subst remove_loop.simps) (simp add: Let_def occ_def)
    then show ?thesis using less.prems False by blast
  next
    case o: True
    then have o': "fst ?e \<noteq> 0" by (simp add: occ_def)
    show ?thesis
    proof (cases "on_run s (nxt j) hole")
      case True
      then have "remove_loop s hole j = remove_loop (s[hole := ?e]) (nxt j) (nxt j)"
        using cond o' by (subst remove_loop.simps) (simp add: Let_def)
      then show ?thesis
        using less.hyps [OF closer rem_inv_move [OF less.prems nh o True]] by simp
    next
      case False
      then have "remove_loop s hole j = remove_loop s hole (nxt j)"
        using cond o' by (subst remove_loop.simps) (simp add: Let_def)
      then show ?thesis
        using less.hyps [OF closer rem_inv_stay [OF less.prems nh o False]] by simp
    qed
  qed
qed


lemma rem_inv_start:
  assumes wf: "mo_wf t" and p: "p < OWNED_MUTEXES" "occ (mo_slots t) p"
  shows "rem_inv (mo_slots t) p (mo_slots t) p p"
proof -
  note d = mo_wfD [OF wf]
  have near: "cdist p k \<le> cdist p p \<Longrightarrow> k = p" if "k < OWNED_MUTEXES" for k
    using cdist_eq_0 [OF p(1) that] by simp
  have "runs_but (mo_slots t) p" unfolding runs_but_def using run_okD [OF d(2)] by blast
  moreover have "uniq_but (mo_slots t) p" unfolding uniq_but_def using uniqD [OF d(3)] by blast
  ultimately show ?thesis
    unfolding rem_inv_def using d(1) p near by blast
qed

lemma run_ok_clear:
  assumes inv: "rem_inv s0 h0 s hole j" and stop: "\<not> occ s (nxt j)"
  shows "run_ok (s[hole := (0, 0)])"
  unfolding run_ok_def
proof (intro allI impI)
  note d = rem_invD [OF inv]
  let ?s = "s[hole := (0, 0)]"
  have o: "occ ?s x \<longleftrightarrow> x \<noteq> hole \<and> occ s x" for x
    using d(1,2) by (simp add: occ_update)
  fix i k assume ik: "i < OWNED_MUTEXES" "k < OWNED_MUTEXES" and oi: "occ ?s i" and r: "on_run ?s i k"
  have i: "i \<noteq> hole" "occ s i" using oi o by auto
  have rk: "on_run s i k" using r i by (simp add: on_run_def)
  have "k \<noteq> hole"
  proof
    assume "k = hole"
    then have rh: "on_run s i hole" using rk by simp
    let ?h = "home (fst (s ! i))"
    have via: "cdist ?h i = cdist ?h hole + cdist hole i"
      using cdist_via [OF home_less d(2) ik(1)] rh by (simp add: on_run_def)
    have far: "cdist hole j < cdist hole i"
      using d(9) [OF ik(1) i(1)] rh by (meson not_le_imp_less)
    have nh: "nxt j \<noteq> hole"
      using d(8) [OF d(2)] stop by auto
    have "cdist hole (nxt j) \<le> cdist hole i"
      using cdist_nxt_right [OF d(2,3) nh] far by simp
    then have "on_run s i (nxt j)"
      using via cdist_tri [OF home_less d(2) nxt_less, of "fst (s ! i)" j]
        cdist_less [OF home_less ik(1), of "fst (s ! i)"]
      by (simp add: on_run_def)
    then show False using runs_butD [OF d(5) ik(1) nxt_less i] stop by blast
  qed
  then show "occ ?s k" using runs_butD [OF d(5) ik i rk] o by blast
qed

lemma uniq_clear:
  assumes inv: "rem_inv s0 h0 s hole j"
  shows "uniq (s[hole := (0, 0)])"
  unfolding uniq_def
proof (intro allI impI)
  note d = rem_invD [OF inv]
  let ?s = "s[hole := (0, 0)]"
  fix i k assume ik: "i < OWNED_MUTEXES" "k < OWNED_MUTEXES" and oi: "occ ?s i"
    and eq: "fst (?s ! i) = fst (?s ! k)"
  have "i \<noteq> hole" using oi d(1,2) by (auto simp: occ_def)
  moreover have "k \<noteq> hole" using oi eq d(1,2) by (auto simp: occ_def)
  ultimately show "i = k"
    using uniq_butD [OF d(6) ik] oi eq by (simp add: occ_def)
qed

lemma entries_clear:
  assumes inv: "rem_inv s0 h0 s hole j" and a: "a \<noteq> 0"
  shows "(\<exists>i<OWNED_MUTEXES. s[hole := (0, 0)] ! i = (a, w)) \<longleftrightarrow> (a, w) \<in> entries_but s0 h0"
proof -
  note d = rem_invD [OF inv]
  have "(\<exists>i<OWNED_MUTEXES. s[hole := (0, 0)] ! i = (a, w)) \<longleftrightarrow> (a, w) \<in> entries_but s hole"
    unfolding entries_but_def using d(1,2) a
    by (auto simp: nth_list_update split: if_splits) (metis nth_list_update_neq)+
  then show ?thesis using d(7) by simp
qed

lemma card_occ_clear:
  assumes inv: "rem_inv s0 h0 s hole j"
  shows "Suc (card {k. k < OWNED_MUTEXES \<and> occ (s[hole := (0, 0)]) k}) =
    card {k. k < OWNED_MUTEXES \<and> occ s0 k}"
proof -
  note d = rem_invD [OF inv]
  have "{k. k < OWNED_MUTEXES \<and> occ s0 k} =
      insert hole {k. k < OWNED_MUTEXES \<and> occ (s[hole := (0, 0)]) k}"
    using d(1,2,4) d(8) [OF d(2)] by (auto simp: occ_update)
  moreover have "hole \<notin> {k. k < OWNED_MUTEXES \<and> occ (s[hole := (0, 0)]) k}"
    using d(1,2) by (simp add: occ_update)
  ultimately show ?thesis by simp
qed

lemma mo_entries_but:
  assumes wf: "mo_wf t" and p: "p < OWNED_MUTEXES" "fst (mo_slots t ! p) = a"
    and a: "a \<noteq> 0" and b: "b \<noteq> 0"
  shows "(b, w) \<in> entries_but (mo_slots t) p \<longleftrightarrow> b \<noteq> a \<and> mo_map t b = Some w"
proof -
  note d = mo_wfD [OF wf]
  have op: "occ (mo_slots t) p" using p a by (simp add: occ_def)
  have "i \<noteq> p \<longleftrightarrow> b \<noteq> a" if i: "i < OWNED_MUTEXES" "mo_slots t ! i = (b, w)" for i
    using uniqD [OF d(3) p(1) i(1) op] p(2) i(2) by (cases "b = a") auto
  then show ?thesis
    using mo_map_Some_iff [OF d(1,3) b, of w] unfolding entries_but_def mem_Collect_eq by metis
qed

lemma mo_remove_present:
  assumes wf: "mo_wf t" and a: "a \<noteq> 0" and p: "p < OWNED_MUTEXES" "fst (mo_slots t ! p) = a"
  obtains t' where "mo_remove t a = Some t'" "mo_wf t'" "mo_map t' = (mo_map t)(a := None)"
proof -
  note d = mo_wfD [OF wf]
  have op: "occ (mo_slots t) p" using p a by (simp add: occ_def)
  obtain z where z: "z < OWNED_MUTEXES" "\<not> occ (mo_slots t) z" using free_slot [OF wf] .
  obtain s hole j where loop: "remove_loop (mo_slots t) p p = Some (s, hole)"
    and inv: "rem_inv (mo_slots t) p s hole j" and stop: "\<not> occ s (nxt j)"
    using remove_loop_ends [OF rem_inv_start [OF wf p(1) op] z] by blast
  have size: "mo_len t = Suc (card {k. k < OWNED_MUTEXES \<and> occ (s[hole := (0, 0)]) k})"
    using d(4) card_occ_clear [OF inv] by (rule trans [OF _ sym])
  define t' where "t' = t\<lparr>mo_slots := s[hole := (0, 0)], mo_len := mo_len t - 1\<rparr>"
  have rem: "mo_remove t a = Some t'"
    using mo_find_present [OF wf p a] p loop size by (simp add: mo_remove_def t'_def)
  have len: "length (mo_slots t') = OWNED_MUTEXES" using rem_invD(1) [OF inv] by (simp add: t'_def)
  have u: "uniq (mo_slots t')" using uniq_clear [OF inv] by (simp add: t'_def)
  have wf': "mo_wf t'"
    using run_ok_clear [OF inv stop] u len size d(5)
    unfolding mo_wf_def by (simp add: t'_def)
  have "mo_map t' b = ((mo_map t)(a := None)) b" for b
  proof (cases "b = 0")
    case False
    have "mo_map t' b = Some w \<longleftrightarrow> (b, w) \<in> entries_but (mo_slots t) p" for w
      using mo_map_Some_iff [OF len u False, of w] entries_clear [OF inv False, of w]
      by (simp add: t'_def)
    then have "mo_map t' b = Some w \<longleftrightarrow> ((mo_map t)(a := None)) b = Some w" for w
      using mo_entries_but [OF wf p a False, of w] by simp
    then show ?thesis by (metis option.exhaust)
  qed (simp add: a)
  then show thesis using that [OF rem wf'] by blast
qed

lemma mo_remove_correct:
  assumes "mo_wf t" "a \<noteq> 0"
  shows "\<exists>t'. mo_remove t a = Some t' \<and> mo_wf t' \<and> mo_map t' = (mo_map t)(a := None)"
proof (cases "\<exists>p<OWNED_MUTEXES. fst (mo_slots t ! p) = a")
  case True
  then show ?thesis using mo_remove_present [OF assms] by metis
next
  case False
  then have no: "\<forall>i<OWNED_MUTEXES. fst (mo_slots t ! i) \<noteq> a" by blast
  obtain k where "mo_find t a = Some k" "k < OWNED_MUTEXES" using mo_find_absent [OF assms(1) no] .
  then have "mo_remove t a = Some t" using no by (simp add: mo_remove_def)
  moreover have "mo_map t a = None"
    using no mo_map_None_iff [OF mo_wfD(1) [OF assms(1)] assms(2)] by simp
  ultimately show ?thesis using assms(1) by (simp add: fun_upd_idem)
qed

lemma mo_default_wf [simp, wf_intros]: "mo_wf mo_default"
proof -
  have "\<not> occ (mo_slots mo_default) i" if "i < OWNED_MUTEXES" for i
    using that by (simp add: mo_default_def occ_def)
  then show ?thesis
    unfolding mo_wf_def run_ok_def uniq_def by (auto simp: mo_default_def)
qed

lemma mo_default_map [simp]: "mo_map mo_default = Map.empty"
  by (simp add: mo_map_def mo_default_def)

lemma mo_len_card:
  assumes wf: "mo_wf t"
  shows "mo_len t = card (dom (mo_map t))"
proof -
  note d = mo_wfD [OF wf]
  let ?I = "{i. i < OWNED_MUTEXES \<and> occ (mo_slots t) i}"
  have "inj_on (\<lambda>i. fst (mo_slots t ! i)) ?I"
    by (rule inj_onI) (use uniqD [OF d(3)] in blast)
  moreover have "(\<lambda>i. fst (mo_slots t ! i)) ` ?I = dom (mo_map t)"
  proof (rule set_eqI)
    fix a
    show "a \<in> (\<lambda>i. fst (mo_slots t ! i)) ` ?I \<longleftrightarrow> a \<in> dom (mo_map t)"
      using mo_map_None_iff [OF d(1), of a] by (cases "a = 0") (auto simp: domIff occ_def)
  qed
  ultimately show ?thesis using d(4) card_image by metis
qed


section \<open>The table is a bounded map\<close>

interpretation owners: bounded_map mo_wf mo_map mo_insert mo_remove "\<lambda>a. a \<noteq> 0" "OWNED_MUTEXES - 1"
proof unfold_locales
  fix t :: mutex_owners and k v :: nat
  assume wf: "mo_wf t"
  show "finite (dom (mo_map t))" by (simp add: mo_map_def finite_dom_map_of)
  assume k: "k \<noteq> 0"
  show "mo_wf (mo_insert t k v)" using mo_insert_correct(1) [OF wf k] .
  show "mo_map (mo_insert t k v) = (mo_map t)(k \<mapsto> v)"
    if "k \<in> dom (mo_map t) \<or> card (dom (mo_map t)) < OWNED_MUTEXES - 1"
    using that mo_insert_correct(2) [OF wf k, of v] mo_len_card [OF wf] by auto
  show "mo_map (mo_insert t k v) = mo_map t"
    if "k \<notin> dom (mo_map t)" "OWNED_MUTEXES - 1 \<le> card (dom (mo_map t))"
    using that mo_insert_correct(2) [OF wf k, of v] mo_len_card [OF wf] by (auto split: if_splits)
  show "\<exists>t'. mo_remove t k = Some t' \<and> mo_wf t' \<and> mo_map t' = (mo_map t)(k := None)"
    using mo_remove_correct [OF wf k] .
qed

text \<open>A queued record as a change of the map.\<close>

definition record_change :: "mutex_record \<Rightarrow> (nat, nat) change" where
  "record_change r = (mr_mutex r, if mr_taken r then Some (mr_lineage r) else None)"

text \<open>
  \<^verbatim>\<open>take_owner_records\<close>: whoever takes the state's lock applies the queued records, in the order
  the queue hands them out.
\<close>

primrec take_owner_records :: "mutex_owners \<Rightarrow> mutex_record list \<Rightarrow> mutex_owners option" where
  "take_owner_records t [] = Some t"
| "take_owner_records t (r # rs) =
     (case mo_apply t r of None \<Rightarrow> None | Some t' \<Rightarrow> take_owner_records t' rs)"

lemma mo_apply_play: "mo_apply t r = owners.play t (record_change r)"
  by (simp add: mo_apply_def record_change_def)

lemma take_owner_records_play: "take_owner_records t rs = owners.play_all t (map record_change rs)"
  by (induction rs arbitrary: t) (simp_all add: mo_apply_play split: option.split)

lemma mo_held_by_map:
  assumes "mo_wf t"
  shows "(\<exists>a. mo_held_by t w = Some a) \<longleftrightarrow> w \<in> ran (mo_map t)"
    and "mo_held_by t w = Some a \<Longrightarrow> mo_map t a = Some w"
proof -
  note d = mo_wfD [OF assms]
  have S: "mo_map t a = Some w" if held: "mo_held_by t w = Some a" for a
  proof -
    obtain e where e: "List.find (\<lambda>(addr, o'). addr \<noteq> 0 \<and> o' = w) (mo_slots t) = Some e" "fst e = a"
      using held unfolding mo_held_by_def by blast
    then obtain i where "i < length (mo_slots t)" "a \<noteq> 0" "mo_slots t ! i = (a, w)"
      by (cases e) (auto simp: find_Some_iff)
    then show ?thesis using mo_map_Some_iff [OF d(1,3), of a w] d(1) by auto
  qed
  have N: "w \<notin> ran (mo_map t)" if "mo_held_by t w = None"
  proof
    assume "w \<in> ran (mo_map t)"
    then obtain a where a: "mo_map t a = Some w" by (auto simp: ran_def)
    then have "a \<noteq> 0" using mo_map_zero [of t] by (metis option.distinct(1))
    then obtain i where "i < OWNED_MUTEXES" "mo_slots t ! i = (a, w)"
      using a mo_map_Some_iff [OF d(1,3)] by blast
    then have "(a, w) \<in> set (mo_slots t)" using d(1) by (metis nth_mem)
    then show False using that \<open>a \<noteq> 0\<close> by (auto simp: mo_held_by_def find_None_iff)
  qed
  show "mo_held_by t w = Some a \<Longrightarrow> mo_map t a = Some w" by (rule S)
  show "(\<exists>a. mo_held_by t w = Some a) \<longleftrightarrow> w \<in> ran (mo_map t)"
    using S N by (cases "mo_held_by t w") (auto simp: ran_def)
qed

section \<open>Properties\<close>

text \<open>
  C9: Removing a mutex from a well-formed owner table always ends (the backward-shift loop meets a
  free slot, the length never drops below 0), keeps the probe-run invariant, and afterwards every
  lookup answers as before except for the removed mutex, which is no longer held.
\<close>

theorem remove_exact:
  assumes "mo_wf t" "a \<noteq> 0"
  shows "\<exists>t'. mo_remove t a = Some t' \<and> mo_wf t' \<and>
    (\<forall>b. b \<noteq> 0 \<longrightarrow> mo_owner t' b = (if b = a then None else mo_owner t b))"
  using mo_remove_correct [OF assms] mo_owner_eq_map assms(1) by fastforce

text \<open>
  Addresses 64 and 7960 have the same home slot, so removing the first moves the second back.
\<close>

theorem remove_exact_witness:
  "home 64 = home 7960 \<and>
   (\<exists>t'. mo_remove (mo_insert (mo_insert mo_default 64 7) 7960 9) 64 = Some t' \<and>
     mo_owner t' 64 = None \<and> mo_owner t' 7960 = Some 9)"
proof -
  let ?t = "mo_insert (mo_insert mo_default 64 7) 7960 9"
  have one: "mo_wf (mo_insert mo_default 64 7)" "mo_map (mo_insert mo_default 64 7) = [64 \<mapsto> 7]"
    using mo_insert_correct [OF mo_default_wf, of 64 7]
      mo_len_card [OF mo_default_wf]
    by (simp_all add: OWNED_MUTEXES_def)
  have two: "mo_wf ?t" "mo_map ?t = [64 \<mapsto> 7, 7960 \<mapsto> 9]"
    using mo_insert_correct [OF one(1), of 7960 9] one(2) mo_len_card [OF one(1)]
    by (simp_all add: OWNED_MUTEXES_def)
  have "home 64 = home 7960" by (simp add: home_def wrapping_mul_def drop_bit_eq_div)
  moreover have "mo_owner ?t 7960 = Some 9" using mo_owner_eq_map [OF two(1), of 7960] two(2) by simp
  ultimately show ?thesis using remove_exact [OF two(1), of 64] by fastforce
qed

text \<open>
  C10: Applying a log of lock and unlock records to the empty owner table never fails; when at most
  1023 different mutexes are named, a mutex is held by a thread afterwards exactly when the last
  record of that mutex says so.
\<close>

theorem take_owner_records_exact:
  assumes "\<forall>r \<in> set rs. mr_mutex r \<noteq> 0" "card (mr_mutex ` set rs) < OWNED_MUTEXES"
  shows "\<exists>t. take_owner_records mo_default rs = Some t \<and> mo_wf t \<and>
    (\<forall>a. a \<noteq> 0 \<longrightarrow> mo_owner t a =
      (case filter (\<lambda>r. mr_mutex r = a) (rev rs) of
         [] \<Rightarrow> None
       | r # _ \<Rightarrow> if mr_taken r then Some (mr_lineage r) else None))"
proof -
  let ?cs = "map record_change rs"
  have keys: "fst ` set ?cs = mr_mutex ` set rs" by (force simp: record_change_def)
  have last: "fold change_map ?cs Map.empty a =
      (case filter (\<lambda>r. mr_mutex r = a) (rev rs) of
         [] \<Rightarrow> None | r # _ \<Rightarrow> if mr_taken r then Some (mr_lineage r) else None)" for a
    unfolding fold_change_last rev_map filter_map
    by (auto simp: record_change_def comp_def split: list.split)
  have room: "card (mr_mutex ` set rs) \<le> OWNED_MUTEXES - 1" using assms(2) by linarith
  obtain t where "take_owner_records mo_default rs = Some t" "mo_wf t"
    "mo_map t = fold change_map ?cs Map.empty"
    using owners.play_all_exact [OF mo_default_wf, of ?cs] assms(1) room keys
    by (auto simp: take_owner_records_play record_change_def)
  then show ?thesis using last mo_owner_eq_map by force
qed

theorem take_owner_records_exact_witness:
  "\<exists>t. take_owner_records mo_default
      [\<lparr>mr_mutex = 64, mr_lineage = 7, mr_taken = True\<rparr>, \<lparr>mr_mutex = 7960, mr_lineage = 9, mr_taken = True\<rparr>,
       \<lparr>mr_mutex = 64, mr_lineage = 0, mr_taken = False\<rparr>] = Some t \<and>
    mo_owner t 64 = None \<and> mo_owner t 7960 = Some 9"
proof -
  let ?rs = "[\<lparr>mr_mutex = 64, mr_lineage = 7, mr_taken = True\<rparr>, \<lparr>mr_mutex = 7960, mr_lineage = 9, mr_taken = True\<rparr>,
       \<lparr>mr_mutex = 64, mr_lineage = 0, mr_taken = False\<rparr>]"
  have "card (mr_mutex ` set ?rs) \<le> 3"
    using card_image_le [of "set ?rs" mr_mutex] card_length [of ?rs] by simp
  then have "card (mr_mutex ` set ?rs) < OWNED_MUTEXES" by (simp add: OWNED_MUTEXES_def)
  moreover have "\<forall>r \<in> set ?rs. mr_mutex r \<noteq> 0" by simp
  ultimately obtain t where "take_owner_records mo_default ?rs = Some t"
    "\<forall>a. a \<noteq> 0 \<longrightarrow> mo_owner t a =
      (case filter (\<lambda>r. mr_mutex r = a) (rev ?rs) of
         [] \<Rightarrow> None
       | r # _ \<Rightarrow> if mr_taken r then Some (mr_lineage r) else None)"
    using take_owner_records_exact [of ?rs] by blast
  then show ?thesis by (intro exI [of _ t]) (simp del: take_owner_records.simps)
qed

end
