(* ===== verification/Errno.thy ===== *)
theory Errno
  imports Prelude
begin

text \<open>The error numbers the simulated calls answer, as one datatype shared by the components.\<close>

datatype errno =
    ENOBUFS | ECONNRESET | EACCES | EPERM | EAGAIN | EINVAL | EOVERFLOW | EBADF | ENOLCK | ENOENT | EINTR | EDEADLK
  | EMFILE | ENOMEM | EPIPE | ENETUNREACH | EHOSTUNREACH | EFAULT | ETIMEDOUT
  | EEXIST | EOPNOTSUPP | ENOTSUPP | ENODEV

end
