(* ===== verification/Fs_Perm.thy ===== *)
theory Fs_Perm
  imports Errno
begin

text \<open>
  \<^verbatim>\<open>crates/snare/src/fs_perm.rs\<close>: who the caller of a file call is and what mode bits, ownership,
  the sticky bit and set-group-ID directories let it do, on Linux and macOS. The file's calls that change
  a node's owner record are the steps of a transition system whose invariant says that unprivileged
  callers can neither take over a file nor make it run with a group they do not belong to.
\<close>

section \<open>Owners, kinds and callers\<close>

text \<open>The octal constants of the source, in hexadecimal.\<close>

definition SET_UID :: "32 word" where "SET_UID = 0x800"
definition SET_GID :: "32 word" where "SET_GID = 0x400"
definition STICKY :: "32 word" where "STICKY = 0x200"
definition GROUP_EXEC :: "32 word" where "GROUP_EXEC = 0x8"
definition ANY_EXEC :: "32 word" where "ANY_EXEC = 0x49"
definition READ :: "32 word" where "READ = 4"
definition WRITE :: "32 word" where "WRITE = 2"
definition EXEC :: "32 word" where "EXEC = 1"

record perm_owner =
  mode :: "32 word"
  uid :: "32 word"
  gid :: "32 word"

datatype node_kind = File | Directory | Symlink

record credentials =
  c_uid :: "32 word"
  c_gid :: "32 word"
  c_groups :: "32 word list"
  privileged :: bool
  c_umask :: "32 word"

text \<open>
  \<^verbatim>\<open>Credentials::current\<close> and \<^verbatim>\<open>of\<close>: the calling thread's sim gives the privilege, the umask and
  perhaps an identity; \<open>host\<close> is the real process's identity, read from the host.
\<close>

record sim_identity =
  si_root :: bool
  si_umask :: "32 word"
  si_identity :: "(32 word \<times> 32 word) option"

definition credentials_of :: "credentials \<Rightarrow> sim_identity \<Rightarrow> credentials" where
  "credentials_of host shared =
     (case si_identity shared of
        Some (u, g) \<Rightarrow>
          \<lparr>c_uid = u, c_gid = g, c_groups = [g], privileged = si_root shared, c_umask = si_umask shared\<rparr>
      | None \<Rightarrow> host\<lparr>privileged := si_root shared, c_umask := si_umask shared\<rparr>)"

definition credentials_current :: "credentials \<Rightarrow> sim_identity option \<Rightarrow> credentials" where
  "credentials_current host here =
     (case here of
        Some shared \<Rightarrow> credentials_of host shared
      | None \<Rightarrow> host\<lparr>privileged := (c_uid host = 0), c_umask := 0x12\<rparr>)"

definition in_group :: "credentials \<Rightarrow> 32 word \<Rightarrow> bool" where
  "in_group c g = (g \<in> set (c_groups c))"

text \<open>Every caller is a member of its own group, as the host promises for the real process.\<close>

lemma credentials_in_own_group [wf_intros]:
  "in_group host (c_gid host) \<Longrightarrow>
    in_group (credentials_current host here) (c_gid (credentials_current host here))"
  by (auto simp: credentials_current_def credentials_of_def in_group_def split: option.splits)

section \<open>The checks\<close>

definition permits :: "credentials \<Rightarrow> perm_owner \<Rightarrow> node_kind \<Rightarrow> 32 word \<Rightarrow> bool" where
  "permits c ow kind want =
     (if privileged c then want AND EXEC = 0 \<or> kind = Directory \<or> mode ow AND ANY_EXEC \<noteq> 0
      else let bits = (if uid ow = c_uid c then drop_bit 6 (mode ow)
                       else if in_group c (gid ow) then drop_bit 3 (mode ow)
                       else mode ow)
           in (bits AND 7) AND want = want)"

definition perm_check :: "credentials \<Rightarrow> perm_owner \<Rightarrow> node_kind \<Rightarrow> 32 word \<Rightarrow> errno + unit" where
  "perm_check c ow kind want = (if permits c ow kind want then Inr () else Inl EACCES)"

definition perm_search :: "credentials \<Rightarrow> perm_owner \<Rightarrow> errno + unit" where
  "perm_search c ow = perm_check c ow Directory EXEC"

definition owns :: "credentials \<Rightarrow> perm_owner \<Rightarrow> bool" where
  "owns c ow = (privileged c \<or> uid ow = c_uid c)"

definition may_remove :: "credentials \<Rightarrow> perm_owner \<Rightarrow> perm_owner \<Rightarrow> errno + unit" where
  "may_remove c dir victim =
     (case perm_check c dir Directory (WRITE OR EXEC) of
        Inl e \<Rightarrow> Inl e
      | Inr _ \<Rightarrow>
          if mode dir AND STICKY \<noteq> 0 \<and> \<not> privileged c \<and> uid victim \<noteq> c_uid c \<and> uid dir \<noteq> c_uid c
          then Inl EPERM else Inr ())"

section \<open>The calls that make or change an owner record\<close>

definition perm_create :: "target_os \<Rightarrow> credentials \<Rightarrow> perm_owner \<Rightarrow> 32 word \<Rightarrow> node_kind \<Rightarrow> perm_owner" where
  "perm_create os c parent m kind =
     (if os = MacOS then
        \<lparr>mode = (case kind of Symlink \<Rightarrow> 0x1FF AND NOT (c_umask c) | _ \<Rightarrow> m AND 0x1FF),
         uid = c_uid c, gid = gid parent\<rparr>
      else
        let inherits = (mode parent AND SET_GID \<noteq> 0);
            g = (if inherits then gid parent else c_gid c);
            m' = (case kind of
                    Symlink \<Rightarrow> 0x1FF
                  | Directory \<Rightarrow>
                      if inherits then (m AND (0x1FF OR STICKY)) OR SET_GID
                      else m AND (0x1FF OR STICKY)
                  | File \<Rightarrow>
                      if inherits \<and> m AND (SET_GID OR GROUP_EXEC) = SET_GID OR GROUP_EXEC
                          \<and> \<not> privileged c \<and> \<not> in_group c g
                      then m AND 0xFFF AND NOT SET_GID
                      else m AND 0xFFF)
        in \<lparr>mode = m', uid = c_uid c, gid = g\<rparr>)"

definition perm_chmod :: "credentials \<Rightarrow> perm_owner \<Rightarrow> 32 word \<Rightarrow> errno + perm_owner" where
  "perm_chmod c ow m =
     (if \<not> owns c ow then Inl EPERM
      else let m1 = m AND 0xFFF;
               m2 = (if \<not> privileged c \<and> \<not> in_group c (gid ow) then m1 AND NOT SET_GID else m1)
           in Inr (ow\<lparr>mode := m2\<rparr>))"

text \<open>\<open>named x\<close> is the id a call names: \<^verbatim>\<open>u32::MAX\<close> names none.\<close>

definition named :: "32 word \<Rightarrow> 32 word option" where
  "named x = (if x \<noteq> - 1 then Some x else None)"

definition is_none_or :: "'a option \<Rightarrow> ('a \<Rightarrow> bool) \<Rightarrow> bool" where
  "is_none_or ov P = (case ov of None \<Rightarrow> True | Some v \<Rightarrow> P v)"

definition chown_allowed ::
  "target_os \<Rightarrow> credentials \<Rightarrow> perm_owner \<Rightarrow> 32 word option \<Rightarrow> 32 word option \<Rightarrow> bool" where
  "chown_allowed os c ow u g =
     (let mine = (uid ow = c_uid c)
      in if os = MacOS
         then is_none_or u (\<lambda>u. u = uid ow)
              \<and> is_none_or g (\<lambda>g. g = gid ow \<or> mine \<and> in_group c g)
         else is_none_or u (\<lambda>u. mine \<and> u = uid ow)
              \<and> is_none_or g (\<lambda>g. mine \<and> (g = gid ow \<or> in_group c g)))"

text \<open>Set-user-ID goes, and set-group-ID with group execute: Linux's rule for a write or a chown.\<close>

definition kill_priv_bits :: "32 word \<Rightarrow> 32 word" where
  "kill_priv_bits m =
     (let m1 = m AND NOT SET_UID in if m1 AND GROUP_EXEC \<noteq> 0 then m1 AND NOT SET_GID else m1)"

definition perm_chown ::
  "target_os \<Rightarrow> credentials \<Rightarrow> perm_owner \<Rightarrow> node_kind \<Rightarrow> 32 word \<Rightarrow> 32 word \<Rightarrow> errno + perm_owner \<times> bool" where
  "perm_chown os c ow kind u g =
     (if \<not> privileged c \<and> \<not> chown_allowed os c ow (named u) (named g) then Inl EPERM
      else let o1 = (case named u of Some u \<Rightarrow> ow\<lparr>uid := u\<rparr> | None \<Rightarrow> ow);
               o2 = (case named g of Some g \<Rightarrow> o1\<lparr>gid := g\<rparr> | None \<Rightarrow> o1)
           in if os = MacOS
              then let n = (named u \<noteq> None \<or> named g \<noteq> None)
                   in Inr (if n \<and> \<not> privileged c then o2\<lparr>mode := mode o2 AND NOT (SET_UID OR SET_GID)\<rparr> else o2, n)
              else Inr (if kind \<noteq> Directory then o2\<lparr>mode := kill_priv_bits (mode o2)\<rparr> else o2, True))"

definition perm_wrote :: "target_os \<Rightarrow> credentials \<Rightarrow> perm_owner \<Rightarrow> bool \<Rightarrow> perm_owner" where
  "perm_wrote os c ow trunc =
     (if privileged c then ow
      else if os = MacOS
      then (if \<not> trunc then ow\<lparr>mode := mode ow AND NOT (SET_UID OR SET_GID)\<rparr> else ow)
      else ow\<lparr>mode := kill_priv_bits (mode ow)\<rparr>)"

definition perm_set_times ::
  "credentials \<Rightarrow> perm_owner \<Rightarrow> node_kind \<Rightarrow> bool \<Rightarrow> bool \<Rightarrow> errno + unit" where
  "perm_set_times c ow kind explicit now =
     (if owns c ow then Inr ()
      else if explicit then Inl EPERM
      else if now then perm_check c ow kind WRITE
      else Inr ())"

section \<open>Mode bits\<close>

lemmas mode_consts = SET_UID_def SET_GID_def STICKY_def GROUP_EXEC_def ANY_EXEC_def READ_def WRITE_def EXEC_def

lemma SET_GID_pow: "SET_GID = 2 ^ 10" by (simp add: SET_GID_def)
lemma SET_UID_pow: "SET_UID = 2 ^ 11" by (simp add: SET_UID_def)
lemma STICKY_pow: "STICKY = 2 ^ 9" by (simp add: STICKY_def)
lemma GROUP_EXEC_pow: "GROUP_EXEC = 2 ^ 3" by (simp add: GROUP_EXEC_def)

lemma has_SET_GID: "m AND SET_GID = 0 \<longleftrightarrow> \<not> bit m 10"
  unfolding SET_GID_pow by (rule and_exp_eq_0_iff_not_bit)

lemma has_GROUP_EXEC: "m AND GROUP_EXEC = 0 \<longleftrightarrow> \<not> bit m 3"
  unfolding GROUP_EXEC_pow by (rule and_exp_eq_0_iff_not_bit)

lemma has_SET_UID: "m AND SET_UID = 0 \<longleftrightarrow> \<not> bit m 11"
  unfolding SET_UID_pow by (rule and_exp_eq_0_iff_not_bit)

lemma has_STICKY: "m AND STICKY = 0 \<longleftrightarrow> \<not> bit m 9"
  unfolding STICKY_pow by (rule and_exp_eq_0_iff_not_bit)

lemma bit_mode_consts:
  "bit SET_GID n \<longleftrightarrow> n = 10" "bit SET_UID n \<longleftrightarrow> n = 11" "bit GROUP_EXEC n \<longleftrightarrow> n = 3" "bit STICKY n \<longleftrightarrow> n = 9"
  unfolding SET_GID_pow SET_UID_pow GROUP_EXEC_pow STICKY_pow bit_exp_iff by auto

lemma bit_rights: "bit READ n \<longleftrightarrow> n = 2" "bit WRITE n \<longleftrightarrow> n = 1" "bit EXEC n \<longleftrightarrow> n = 0"
  using bit_exp_iff [where 'a = "32 word", of 2 n] bit_exp_iff [where 'a = "32 word", of 1 n]
    bit_exp_iff [where 'a = "32 word", of 0 n]
  by (auto simp: READ_def WRITE_def EXEC_def)

lemma bit_not_word: "bit (NOT (m :: 32 word)) n \<longleftrightarrow> n < 32 \<and> \<not> bit m n"
  by (simp add: bit_not_iff)

lemma bit_mask9: "bit (0x1FF :: 32 word) n \<longleftrightarrow> n < 9"
proof -
  have *: "(0x1FF :: 32 word) = mask 9" by (simp add: mask_eq_exp_minus_1)
  show ?thesis unfolding * bit_mask_iff by auto
qed

lemma bit_mask12: "bit (0xFFF :: 32 word) n \<longleftrightarrow> n < 12"
proof -
  have *: "(0xFFF :: 32 word) = mask 12" by (simp add: mask_eq_exp_minus_1)
  show ?thesis unfolding * bit_mask_iff by auto
qed

lemma bit_7: "bit (7 :: 32 word) n \<longleftrightarrow> n < 3"
proof -
  have *: "(7 :: 32 word) = mask 3" by (simp add: mask_eq_exp_minus_1)
  show ?thesis unfolding * bit_mask_iff by auto
qed

lemmas mode_bits = bit_and_iff bit_or_iff bit_not_word bit_mode_consts bit_mask9 bit_mask12

lemma and_absorb_iff: "a AND b = (b :: 32 word) \<longleftrightarrow> (\<forall>n. bit b n \<longrightarrow> bit a n)"
proof
  assume *: "a AND b = b"
  show "\<forall>n. bit b n \<longrightarrow> bit a n"
  proof (intro allI impI)
    fix n assume "bit b n"
    then have "bit (a AND b) n" using * by simp
    then show "bit a n" by (simp add: bit_and_iff)
  qed
next
  assume "\<forall>n. bit b n \<longrightarrow> bit a n"
  then show "a AND b = b" by (intro bit_eqI) (auto simp: bit_and_iff)
qed

lemma both_bits:
  "m AND (SET_GID OR GROUP_EXEC) = SET_GID OR GROUP_EXEC \<longleftrightarrow> bit m 10 \<and> bit m 3"
  by (auto simp: and_absorb_iff mode_bits)

lemma bit_kill_priv_bits:
  "bit (kill_priv_bits m) n \<longleftrightarrow> bit m n \<and> n \<noteq> 11 \<and> \<not> (n = 10 \<and> bit m 3)"
  using bit_imp_le_length [of m n]
  by (auto simp: kill_priv_bits_def Let_def has_GROUP_EXEC mode_bits)

section \<open>Permission bits\<close>

text \<open>Where the three bits of the caller's class start in the mode.\<close>

definition class_shift :: "credentials \<Rightarrow> perm_owner \<Rightarrow> nat" where
  "class_shift c ow = (if uid ow = c_uid c then 6 else if in_group c (gid ow) then 3 else 0)"

lemma permits_class:
  assumes "\<not> privileged c"
  shows "permits c ow kind want \<longleftrightarrow>
    (\<forall>n. bit want n \<longrightarrow> n < 3 \<and> bit (mode ow) (class_shift c ow + n))"
proof -
  have "permits c ow kind want \<longleftrightarrow> (drop_bit (class_shift c ow) (mode ow) AND 7) AND want = want"
    using assms by (simp add: permits_def class_shift_def)
  then show ?thesis unfolding and_absorb_iff bit_and_iff bit_7 by (auto simp: bit_drop_bit_eq)
qed

text \<open>
  C16: An unprivileged caller is granted a set of rights exactly when each of them is one of the three
  permission bits and that bit is set in the one class the caller belongs to: the owner's bits if it
  owns the node, else the group's if it is in the node's group, else the others'.
\<close>

theorem permits_by_class:
  assumes "\<not> privileged c"
  shows "permits c ow kind want \<longleftrightarrow>
    (\<forall>n. bit want n \<longrightarrow> n < 3 \<and> bit (mode ow) (class_shift c ow + n))"
  using assms by (rule permits_class)

theorem permits_by_class_witness:
  "permits \<lparr>c_uid = 1000, c_gid = 1000, c_groups = [1000], privileged = False, c_umask = 0\<rparr>
     \<lparr>mode = 0x1A4, uid = 0, gid = 1000\<rparr> File READ"
proof -
  have "bit (0x1A4 :: 32 word) 5" by simp
  then show ?thesis by (subst permits_by_class) (simp_all add: class_shift_def in_group_def bit_rights)
qed

section \<open>What unprivileged callers can do to a file\<close>

text \<open>One call that may change a node's owner record, made by the caller \<open>c\<close>.\<close>

inductive perm_step :: "target_os \<Rightarrow> credentials \<Rightarrow> node_kind \<Rightarrow> perm_owner \<Rightarrow> perm_owner \<Rightarrow> bool"
  for os c kind ow where
  chmod: "perm_chmod c ow m = Inr ow' \<Longrightarrow> perm_step os c kind ow ow'"
| chown: "perm_chown os c ow kind u g = Inr (ow', marks) \<Longrightarrow> perm_step os c kind ow ow'"
| wrote: "perm_step os c kind ow (perm_wrote os c ow trunc)"

text \<open>
  The files an unprivileged caller can end up with: created by \<open>c\<close>, then changed by any calls of
  unprivileged callers. Callers with the same user id have the same groups.
\<close>

inductive file_reachable :: "target_os \<Rightarrow> credentials \<Rightarrow> perm_owner \<Rightarrow> bool"
  for os c where
  create: "file_reachable os c (perm_create os c parent m File)"
| step: "file_reachable os c ow \<Longrightarrow> \<not> privileged d \<Longrightarrow>
    (c_uid d = c_uid c \<longrightarrow> c_groups d = c_groups c) \<Longrightarrow> perm_step os d File ow ow' \<Longrightarrow>
    file_reachable os c ow'"

definition no_escalation :: "credentials \<Rightarrow> perm_owner \<Rightarrow> bool" where
  "no_escalation c ow \<longleftrightarrow> uid ow = c_uid c \<and>
     (mode ow AND SET_GID \<noteq> 0 \<and> mode ow AND GROUP_EXEC \<noteq> 0 \<longrightarrow> in_group c (gid ow))"

lemma no_escalation_bits:
  "no_escalation c ow \<longleftrightarrow> uid ow = c_uid c \<and> (bit (mode ow) 10 \<and> bit (mode ow) 3 \<longrightarrow> in_group c (gid ow))"
  by (simp add: no_escalation_def has_SET_GID has_GROUP_EXEC)

lemma create_no_escalation:
  assumes "\<not> privileged c" "in_group c (c_gid c)"
  shows "no_escalation c (perm_create os c parent m File)"
  using assms
  by (auto simp: no_escalation_bits perm_create_def Let_def both_bits mode_bits split: if_splits)

lemma chmod_no_escalation:
  assumes "no_escalation c ow" "\<not> privileged d" "c_uid d = c_uid c \<longrightarrow> c_groups d = c_groups c"
    and "perm_chmod d ow m = Inr ow'"
  shows "no_escalation c ow'"
  using assms
  by (auto simp: no_escalation_bits perm_chmod_def Let_def owns_def in_group_def mode_bits split: if_splits)

text \<open>An unprivileged chown keeps the owner, and the group or moves it to one of the caller's.\<close>

lemma chown_ids:
  assumes "\<not> privileged d" "perm_chown os d ow kind u g = Inr (ow', marks)"
  shows "uid ow' = uid ow" "gid ow' = gid ow \<or> (uid ow = c_uid d \<and> in_group d (gid ow'))"
  using assms
  by (auto simp: perm_chown_def chown_allowed_def is_none_or_def Let_def split: if_splits option.splits)

lemma chown_mode:
  assumes "\<not> privileged d" "perm_chown os d ow kind u g = Inr (ow', marks)"
  shows "bit (mode ow') n \<Longrightarrow> bit (mode ow) n"
  using assms
  by (auto simp: perm_chown_def Let_def mode_bits bit_kill_priv_bits split: if_splits option.splits)

lemma wrote_keeps:
  "uid (perm_wrote os d ow trunc) = uid ow" "gid (perm_wrote os d ow trunc) = gid ow"
  "bit (mode (perm_wrote os d ow trunc)) n \<Longrightarrow> bit (mode ow) n"
  by (auto simp: perm_wrote_def mode_bits bit_kill_priv_bits split: if_splits)

lemma step_no_escalation:
  assumes "no_escalation c ow" "\<not> privileged d" "c_uid d = c_uid c \<longrightarrow> c_groups d = c_groups c"
    and "perm_step os d File ow ow'"
  shows "no_escalation c ow'"
  using assms(4)
proof cases
  case (chmod m)
  then show ?thesis using chmod_no_escalation [OF assms(1-3)] by blast
next
  case (chown u g marks)
  show ?thesis
    using chown_ids [OF assms(2) chown] chown_mode [OF assms(2) chown] assms(1,3)
    unfolding no_escalation_bits in_group_def by metis
next
  case (wrote trunc)
  then show ?thesis
    using assms(1) wrote_keeps [of os d ow trunc] unfolding no_escalation_bits by metis
qed

text \<open>
  C15: No set-group-ID escalation. Whatever mode an unprivileged caller creates a file with, in
  whatever directory, and whatever chmod, chown, write and truncate calls it and other unprivileged
  callers make on it afterwards, on Linux and on macOS the file stays the creator's and never carries
  both set-group-ID and group execute for a group the creator is not a member of.
\<close>

theorem file_no_escalation:
  assumes "file_reachable os c ow" "\<not> privileged c" "in_group c (c_gid c)"
  shows "uid ow = c_uid c \<and>
    (mode ow AND SET_GID \<noteq> 0 \<and> mode ow AND GROUP_EXEC \<noteq> 0 \<longrightarrow> in_group c (gid ow))"
proof -
  have "no_escalation c ow"
    using assms(1) create_no_escalation [OF assms(2,3)] step_no_escalation by induction blast+
  then show ?thesis by (simp add: no_escalation_def)
qed

text \<open>
  User 1000 creates a file in a set-group-ID directory of group 50, which it is not in, then asks for
  mode 2775: the set-group-ID bit is dropped.
\<close>

theorem file_no_escalation_witness:
  "let c = \<lparr>c_uid = 1000, c_gid = 1000, c_groups = [1000], privileged = False, c_umask = 0\<rparr>;
       f = perm_create Linux c \<lparr>mode = 0x5FF, uid = 0, gid = 50\<rparr> 0x1A4 File
   in gid f = 50 \<and> (\<exists>f'. perm_chmod c f 0x5FD = Inr f' \<and> uid f' = 1000 \<and>
        \<not> (mode f' AND SET_GID \<noteq> 0 \<and> mode f' AND GROUP_EXEC \<noteq> 0))"
proof -
  let ?c = "\<lparr>c_uid = 1000, c_gid = 1000, c_groups = [1000], privileged = False, c_umask = 0\<rparr>"
  let ?f = "perm_create Linux ?c \<lparr>mode = 0x5FF, uid = 0, gid = 50\<rparr> 0x1A4 File"
  have g: "gid ?f = 50" "uid ?f = 1000" by (simp_all add: perm_create_def Let_def SET_GID_def)
  then obtain f' where f': "perm_chmod ?c ?f 0x5FD = Inr f'" "gid f' = 50"
    by (simp add: perm_chmod_def owns_def Let_def)
  have "file_reachable Linux ?c f'"
    by (rule file_reachable.step [OF file_reachable.create _ _ perm_step.chmod [OF f'(1)]]) simp_all
  then have "uid f' = 1000 \<and> (mode f' AND SET_GID \<noteq> 0 \<and> mode f' AND GROUP_EXEC \<noteq> 0 \<longrightarrow> in_group ?c (gid f'))"
    using file_no_escalation [of Linux ?c f'] by (simp add: in_group_def)
  then show ?thesis using f' g(1) by (auto simp: Let_def in_group_def)
qed

section \<open>Deletion from a sticky directory\<close>



end
