(* ===== verification/Fs_Locks.thy ===== *)
theory Fs_Locks
  imports Errno
begin

text \<open>
  \<^verbatim>\<open>crates/snare/src/fs_locks.rs\<close>: advisory record locks and \<^verbatim>\<open>flock\<close> locks of one inode. The
  table of ranges is shown to refine a map from owner and byte to the lock held there; requests keep
  locks of different owners compatible; a request that takes any right away wakes the waiters.
\<close>

section \<open>The lock table\<close>

definition TO_END :: nat where
  "TO_END = U64_MAX"

text \<open>Whether \<^verbatim>\<open>flock\<close> locks live among the record locks.\<close>

definition FLOCKS_ARE_RECORDS :: "target_os \<Rightarrow> bool" where
  "FLOCKS_ARE_RECORDS os = (os = MacOS)"

datatype lock_owner = Process | Description nat | Flock nat

record lock_range =
  lr_start :: nat
  lr_end :: nat
  lr_write :: bool
  lr_owner :: lock_owner

definition overlaps :: "lock_range \<Rightarrow> nat \<Rightarrow> nat \<Rightarrow> bool" where
  "overlaps r start fin = (lr_start r < fin \<and> start < lr_end r)"

record lock_table =
  records :: "lock_range list"
  flocks :: "(nat \<times> bool) list"

definition table_default :: lock_table where
  "table_default = \<lparr>records = [], flocks = []\<rparr>"

definition conflict :: "lock_table \<Rightarrow> lock_owner \<Rightarrow> nat \<Rightarrow> nat \<Rightarrow> bool \<Rightarrow> lock_range option" where
  "conflict t ow start fin wr =
     List.find (\<lambda>r. lr_owner r \<noteq> ow \<and> (wr \<or> lr_write r) \<and> overlaps r start fin) (records t)"

text \<open>What is left of a range of the owner once \<open>[start, fin)\<close> is taken out of it.\<close>

definition trim :: "nat \<Rightarrow> nat \<Rightarrow> lock_range \<Rightarrow> lock_range list" where
  "trim start fin r =
     (if \<not> overlaps r start fin then [r]
      else (if lr_start r < start then [r\<lparr>lr_end := start\<rparr>] else [])
         @ (if lr_end r > fin then [r\<lparr>lr_start := fin\<rparr>] else []))"

definition joins :: "nat \<Rightarrow> nat \<Rightarrow> bool \<Rightarrow> lock_range \<Rightarrow> bool" where
  "joins start fin wr r = (lr_write r = wr \<and> lr_start r \<le> fin \<and> start \<le> lr_end r)"

text \<open>The ranges that join the new one give it their start and end.\<close>

definition merged :: "lock_owner \<Rightarrow> nat \<Rightarrow> nat \<Rightarrow> bool \<Rightarrow> lock_range list \<Rightarrow> lock_range" where
  "merged ow start fin wr kept =
     (let js = filter (joins start fin wr) kept
      in \<lparr>lr_start = fold (min \<circ> lr_start) js start, lr_end = fold (max \<circ> lr_end) js fin,
          lr_write = wr, lr_owner = ow\<rparr>)"

definition kept_ranges ::
  "lock_owner \<Rightarrow> nat \<Rightarrow> nat \<Rightarrow> bool option \<Rightarrow> lock_range list \<Rightarrow> lock_range list" where
  "kept_ranges ow start fin wr mine =
     (let kept = concat (map (trim start fin) mine)
      in sort_key lr_start
        (case wr of
           None \<Rightarrow> kept
         | Some w \<Rightarrow> filter (\<lambda>r. \<not> joins start fin w r) kept @ [merged ow start fin w kept]))"

definition table_set ::
  "lock_table \<Rightarrow> lock_owner \<Rightarrow> nat \<Rightarrow> nat \<Rightarrow> bool option \<Rightarrow> bool \<times> lock_table" where
  "table_set t ow start fin wr =
     (let pos = position (\<lambda>r. lr_owner r = ow) (records t);
          mine = filter (\<lambda>r. lr_owner r = ow) (records t);
          rest = filter (\<lambda>r. lr_owner r \<noteq> ow) (records t);
          released = (\<exists>r \<in> set mine. overlaps r start fin \<and> (wr \<noteq> Some True \<or> lr_write r));
          kept = kept_ranges ow start fin wr mine;
          i = (case pos of Some i \<Rightarrow> i | None \<Rightarrow> length rest)
      in (released, t\<lparr>records := take i rest @ kept @ drop i rest\<rparr>))"

definition flock_conflict :: "lock_table \<Rightarrow> nat \<Rightarrow> bool \<Rightarrow> bool" where
  "flock_conflict t desc exclusive =
     (\<exists>(holder, held) \<in> set (flocks t). holder \<noteq> desc \<and> (exclusive \<or> held))"

section \<open>Reading a request\<close>

datatype fcntl_cmd =
    F_GETLK | F_SETLK | F_SETLKW | F_OFD_GETLK | F_OFD_SETLK | F_OFD_SETLKW
  | F_SETLKWTIMEOUT | F_OFD_SETLKWTIMEOUT | F_OTHER

datatype request = Get | Set | Wait (timed: bool)

definition classify :: "target_os \<Rightarrow> fcntl_cmd \<Rightarrow> (request \<times> bool) option" where
  "classify os cmd =
     (case cmd of
        F_GETLK \<Rightarrow> Some (Get, False)
      | F_SETLK \<Rightarrow> Some (Set, False)
      | F_SETLKW \<Rightarrow> Some (Wait False, False)
      | F_OFD_GETLK \<Rightarrow> Some (Get, True)
      | F_OFD_SETLK \<Rightarrow> Some (Set, True)
      | F_OFD_SETLKW \<Rightarrow> Some (Wait False, True)
      | F_SETLKWTIMEOUT \<Rightarrow> if os = MacOS then Some (Wait True, False) else None
      | F_OFD_SETLKWTIMEOUT \<Rightarrow> if os = MacOS then Some (Wait True, True) else None
      | F_OTHER \<Rightarrow> None)"

definition is_record_lock :: "target_os \<Rightarrow> fcntl_cmd \<Rightarrow> bool" where
  "is_record_lock os cmd = (classify os cmd \<noteq> None)"

text \<open>A timed wait's span in nanoseconds; none for a span that is not positive.\<close>

definition lock_timeout :: "int \<Rightarrow> int \<Rightarrow> nat option" where
  "lock_timeout tv_sec tv_nsec =
     (let nanos = tv_sec * 1000000000 + tv_nsec
      in if nanos > 0 then Some (nat (min nanos (int U64_MAX))) else None)"

datatype whence = SEEK_SET | SEEK_CUR | SEEK_END | SEEK_OTHER
datatype lock_type = F_RDLCK | F_WRLCK | F_UNLCK | F_TYPE_OTHER

record flock_arg =
  l_type :: lock_type
  l_whence :: whence
  l_start :: int
  l_len :: int
  l_pid :: int

record lock_target =
  readable :: bool
  writable :: bool
  cursor :: nat
  file_len :: nat
  description :: nat

text \<open>\<^verbatim>\<open>as i64\<close> and \<^verbatim>\<open>checked_add\<close> on 64-bit signed integers.\<close>

definition as_i64 :: "nat \<Rightarrow> int" where
  "as_i64 n = (if n < 2 ^ 63 then int n else int n - 2 ^ 64)"

definition checked_add_i64 :: "int \<Rightarrow> int \<Rightarrow> int option" where
  "checked_add_i64 a b = (if - (2 ^ 63) \<le> a + b \<and> a + b < 2 ^ 63 then Some (a + b) else None)"

definition ok_or :: "'a option \<Rightarrow> 'e \<Rightarrow> 'e + 'a" where
  "ok_or ov e = (case ov of Some v \<Rightarrow> Inr v | None \<Rightarrow> Inl e)"

definition span_base :: "whence \<Rightarrow> lock_target \<Rightarrow> errno + int" where
  "span_base w target =
     (case w of
        SEEK_SET \<Rightarrow> Inr 0
      | SEEK_CUR \<Rightarrow> Inr (as_i64 (cursor target))
      | SEEK_END \<Rightarrow> Inr (as_i64 (file_len target))
      | SEEK_OTHER \<Rightarrow> Inl EINVAL)"

definition span_ends :: "int \<Rightarrow> int \<Rightarrow> errno + int \<times> int option" where
  "span_ends start len =
     (if len = 0 then Inr (start, None)
      else if len > 0 then (case ok_or (checked_add_i64 start len) EOVERFLOW of
          Inl e \<Rightarrow> Inl e | Inr fin \<Rightarrow> Inr (start, Some fin))
      else (case ok_or (checked_add_i64 start len) EINVAL of
          Inl e \<Rightarrow> Inl e | Inr low \<Rightarrow> Inr (low, Some start)))"

definition span :: "flock_arg \<Rightarrow> lock_target \<Rightarrow> errno + nat \<times> nat" where
  "span fl target =
     (case span_base (l_whence fl) target of
        Inl e \<Rightarrow> Inl e
      | Inr base \<Rightarrow>
          (case ok_or (checked_add_i64 base (l_start fl)) EOVERFLOW of
             Inl e \<Rightarrow> Inl e
           | Inr start \<Rightarrow>
               (case span_ends start (l_len fl) of
                  Inl e \<Rightarrow> Inl e
                | Inr (low, fin) \<Rightarrow>
                    if low < 0 then Inl EINVAL
                    else Inr (nat low, case fin of None \<Rightarrow> TO_END | Some f \<Rightarrow> nat f))))"

section \<open>Serving a request\<close>

text \<open>
  A blocking request retries its attempt each time the waiters are woken. \<open>seen\<close> is the table at each
  retry, as the other threads left it; the wait ends with a success or, when the environment ends it,
  with whether a signal did.
\<close>

primrec lock_wait ::
  "bool \<Rightarrow> (lock_table \<Rightarrow> ('r \<times> lock_table) option) \<Rightarrow> lock_table list \<Rightarrow> bool + 'r \<times> lock_table" where
  "lock_wait interrupted attempt [] = Inl interrupted"
| "lock_wait interrupted attempt (t # seen) =
     (case attempt t of Some r \<Rightarrow> Inr r | None \<Rightarrow> lock_wait interrupted attempt seen)"

text \<open>
  The critical section of a set request: nothing if another owner's lock conflicts, else the new
  table and whether it released anything.
\<close>

definition fcntl_attempt ::
  "lock_owner \<Rightarrow> nat \<Rightarrow> nat \<Rightarrow> bool option \<Rightarrow> lock_table \<Rightarrow> (bool \<times> lock_table) option" where
  "fcntl_attempt ow start fin kind t =
     (if (case kind of Some wr \<Rightarrow> conflict t ow start fin wr \<noteq> None | None \<Rightarrow> False) then None
      else Some (table_set t ow start fin kind))"

definition lock_kind :: "lock_type \<Rightarrow> (bool option) option" where
  "lock_kind ty =
     (case ty of F_RDLCK \<Rightarrow> Some (Some False) | F_WRLCK \<Rightarrow> Some (Some True)
      | F_UNLCK \<Rightarrow> Some None | F_TYPE_OTHER \<Rightarrow> None)"

definition describe :: "int \<Rightarrow> flock_arg \<Rightarrow> lock_range option \<Rightarrow> flock_arg" where
  "describe pid fl found =
     (case found of
        Some held \<Rightarrow>
          fl\<lparr>l_type := (if lr_write held then F_WRLCK else F_RDLCK), l_whence := SEEK_SET,
             l_start := as_i64 (lr_start held),
             l_len := (if lr_end held = TO_END then 0 else as_i64 (lr_end held - lr_start held)),
             l_pid := (case lr_owner held of Process \<Rightarrow> pid | _ \<Rightarrow> - 1)\<rparr>
      | None \<Rightarrow> fl\<lparr>l_type := F_UNLCK\<rparr>)"

text \<open>
  What a lock call did: its result, the table as the call last left it if it changed it, and whether
  it woke the waiters.
\<close>

type_synonym 'r lock_out = "(errno + 'r) \<times> lock_table option \<times> bool"

definition lock_err :: "errno \<Rightarrow> 'r lock_out" where
  "lock_err e = (Inl e, None, False)"

text \<open>The set half of \<^verbatim>\<open>fcntl\<close>, once the range, the owner and the kind are known.\<close>

definition fcntl_set ::
  "request \<Rightarrow> (int \<times> int) \<Rightarrow> lock_table \<Rightarrow> bool \<Rightarrow> lock_table list \<Rightarrow>
   lock_owner \<Rightarrow> nat \<Rightarrow> nat \<Rightarrow> bool option \<Rightarrow> lock_target \<Rightarrow> flock_arg \<Rightarrow> flock_arg lock_out" where
  "fcntl_set req span_arg t interrupted seen ow start fin kind target fl =
     (if kind = Some False \<and> \<not> readable target \<or> kind = Some True \<and> \<not> writable target then lock_err EBADF
      else case req of
        Wait tm \<Rightarrow>
          (case lock_wait interrupted (fcntl_attempt ow start fin kind) (t # seen) of
             Inr (released, t') \<Rightarrow> (Inr fl, Some t', released)
           | Inl i \<Rightarrow>
               if \<not> i \<and> tm \<and> lock_timeout (fst span_arg) (snd span_arg) \<noteq> None then lock_err ETIMEDOUT
               else lock_err EINTR)
      | _ \<Rightarrow>
          (case fcntl_attempt ow start fin kind t of
             Some (released, t') \<Rightarrow> (Inr fl, Some t', released)
           | None \<Rightarrow> lock_err EAGAIN))"

definition locks_fcntl ::
  "target_os \<Rightarrow> int \<Rightarrow> fcntl_cmd \<Rightarrow> flock_arg option \<Rightarrow> (int \<times> int) \<Rightarrow> lock_target \<Rightarrow>
   lock_table \<Rightarrow> bool \<Rightarrow> lock_table list \<Rightarrow> flock_arg lock_out option" where
  "locks_fcntl os pid cmd arg span_arg target t interrupted seen =
     (case classify os cmd of
        None \<Rightarrow> None
      | Some (req, ofd) \<Rightarrow>
          Some (case arg of
             None \<Rightarrow> lock_err EFAULT
           | Some fl \<Rightarrow>
               if os = Linux \<and> ofd \<and> l_pid fl \<noteq> 0 then lock_err EINVAL
               else case span fl target of
                 Inl e \<Rightarrow> lock_err e
               | Inr (start, fin) \<Rightarrow>
                   let ow = (if ofd then Description (description target) else Process)
                   in case lock_kind (l_type fl) of
                     None \<Rightarrow> lock_err EINVAL
                   | Some kind \<Rightarrow>
                       if req = Get then
                         (case (case kind of Some w \<Rightarrow> Some w | None \<Rightarrow> if os = MacOS then Some True else None) of
                            None \<Rightarrow> lock_err EINVAL
                          | Some wr \<Rightarrow> (Inr (describe pid fl (conflict t ow start fin wr)), None, False))
                       else fcntl_set req span_arg t interrupted seen ow start fin kind target fl))"

text \<open>The \<^verbatim>\<open>flock\<close> operation bits, the same on Linux and macOS.\<close>

definition LOCK_SH :: "32 word" where "LOCK_SH = 1"
definition LOCK_EX :: "32 word" where "LOCK_EX = 2"
definition LOCK_NB :: "32 word" where "LOCK_NB = 4"
definition LOCK_UN :: "32 word" where "LOCK_UN = 8"

definition operation_kind :: "target_os \<Rightarrow> 32 word \<Rightarrow> (errno + bool) option" where
  "operation_kind os operation =
     (if os = MacOS then
        (if operation AND LOCK_UN \<noteq> 0 then None
         else if operation AND LOCK_EX \<noteq> 0 then Some (Inr True)
         else if operation AND LOCK_SH \<noteq> 0 then Some (Inr False)
         else Some (Inl EBADF))
      else let base = operation AND NOT LOCK_NB
           in if base = LOCK_SH then Some (Inr False)
              else if base = LOCK_EX then Some (Inr True)
              else if base = LOCK_UN then None
              else Some (Inl EINVAL))"

definition drop_flock :: "lock_table \<Rightarrow> nat \<Rightarrow> bool \<times> lock_table" where
  "drop_flock t desc =
     (let before = length (flocks t) + length (records t);
          t' = t\<lparr>flocks := filter (\<lambda>(holder, _). holder \<noteq> desc) (flocks t),
                 records := filter (\<lambda>r. lr_owner r \<noteq> Flock desc) (records t)\<rparr>
      in (length (flocks t') + length (records t') \<noteq> before, t'))"

text \<open>\<^verbatim>\<open>flock_record\<close>: macOS's \<^verbatim>\<open>flock\<close> as a whole-file record lock.\<close>

definition flock_record ::
  "nat \<Rightarrow> bool \<Rightarrow> bool \<Rightarrow> lock_table \<Rightarrow> bool \<Rightarrow> lock_table list \<Rightarrow> unit lock_out" where
  "flock_record desc exclusive nonblocking t interrupted seen =
     (let attempt = fcntl_attempt (Flock desc) 0 TO_END (Some exclusive)
      in case attempt t of
        Some (released, t') \<Rightarrow> (Inr (), Some t', released)
      | None \<Rightarrow>
          if nonblocking then lock_err EAGAIN
          else let (woke, dropped) = (if exclusive
                 then (let (released, t1) = drop_flock t desc in (released, Some t1))
                 else (False, None))
               in case lock_wait interrupted attempt seen of
                 Inr (released, t') \<Rightarrow> (Inr (), Some t', woke \<or> released)
               | Inl _ \<Rightarrow> (Inl EINTR, dropped, woke))"

text \<open>The two critical sections of Linux's \<^verbatim>\<open>flock\<close>: dropping a lock to convert, and taking one.\<close>

definition flock_convert :: "lock_table \<Rightarrow> nat \<Rightarrow> bool \<Rightarrow> unit + bool \<times> lock_table" where
  "flock_convert t desc exclusive =
     (case position (\<lambda>(holder, _). holder = desc) (flocks t) of
        Some i \<Rightarrow>
          if snd (flocks t ! i) = exclusive then Inl ()
          else Inr (True, t\<lparr>flocks := take i (flocks t) @ drop (Suc i) (flocks t)\<rparr>)
      | None \<Rightarrow> Inr (False, t))"

definition flock_attempt :: "nat \<Rightarrow> bool \<Rightarrow> lock_table \<Rightarrow> (unit \<times> lock_table) option" where
  "flock_attempt desc exclusive t =
     (if flock_conflict t desc exclusive then None
      else Some ((), t\<lparr>flocks := flocks t @ [(desc, exclusive)]\<rparr>))"

text \<open>
  \<open>between\<close> is what other threads do to the table between the two critical sections of a conversion
  and its first attempt.
\<close>

definition locks_flock ::
  "target_os \<Rightarrow> nat \<Rightarrow> 32 word \<Rightarrow> lock_table \<Rightarrow> (lock_table \<Rightarrow> lock_table) \<Rightarrow> bool \<Rightarrow> lock_table list \<Rightarrow> unit lock_out" where
  "locks_flock os desc operation t between interrupted seen =
     (let nonblocking = (operation AND LOCK_NB \<noteq> 0)
      in case operation_kind os operation of
        None \<Rightarrow> (let (released, t') = drop_flock t desc in (Inr (), Some t', released))
      | Some (Inl e) \<Rightarrow> lock_err e
      | Some (Inr exclusive) \<Rightarrow>
          if FLOCKS_ARE_RECORDS os then flock_record desc exclusive nonblocking t interrupted seen
          else case flock_convert t desc exclusive of
            Inl _ \<Rightarrow> (Inr (), None, False)
          | Inr (converted, t1) \<Rightarrow>
              let left = (if converted then Some t1 else None)
              in if nonblocking then
                   (case flock_attempt desc exclusive (between t1) of
                      Some (_, t') \<Rightarrow> (Inr (), Some t', converted)
                    | None \<Rightarrow> (Inl EAGAIN, left, converted))
                 else
                   (case lock_wait interrupted (flock_attempt desc exclusive) (between t1 # seen) of
                      Inr (_, t') \<Rightarrow> (Inr (), Some t', converted)
                    | Inl _ \<Rightarrow> (Inl EINTR, left, converted)))"

definition release_process :: "lock_table \<Rightarrow> bool \<times> lock_table" where
  "release_process t =
     (let t' = t\<lparr>records := filter (\<lambda>r. lr_owner r \<noteq> Process) (records t)\<rparr>
      in (length (records t') \<noteq> length (records t), t'))"

definition release_description :: "lock_table \<Rightarrow> nat \<Rightarrow> bool \<times> lock_table" where
  "release_description t desc =
     (let t1 = t\<lparr>records := filter (\<lambda>r. lr_owner r \<noteq> Description desc) (records t)\<rparr>;
          gone = (length (records t1) \<noteq> length (records t));
          (dropped, t2) = drop_flock t1 desc
      in (dropped \<or> gone, t2))"

section \<open>Ranges of one owner\<close>

definition covers :: "lock_range \<Rightarrow> nat \<Rightarrow> bool" where
  "covers r b \<longleftrightarrow> lr_start r \<le> b \<and> b < lr_end r"

text \<open>\<open>a\<close> ends before \<open>b\<close> starts, with a gap between them if both have the same type.\<close>

definition before :: "lock_range \<Rightarrow> lock_range \<Rightarrow> bool" where
  "before a b \<longleftrightarrow> lr_end a \<le> lr_start b \<and> (lr_write a = lr_write b \<longrightarrow> lr_end a < lr_start b)"

definition apart :: "lock_range \<Rightarrow> lock_range \<Rightarrow> bool" where
  "apart a b \<longleftrightarrow> before a b \<or> before b a"

definition range_ok :: "lock_range \<Rightarrow> bool" where
  "range_ok r \<longleftrightarrow> lr_start r < lr_end r \<and> lr_end r \<le> TO_END"

lemma symp_apart: "symp apart"
  by (auto simp: symp_def apart_def)

lemma before_mono:
  "before a b \<Longrightarrow> lr_end a' \<le> lr_end a \<Longrightarrow> lr_start b \<le> lr_start b' \<Longrightarrow>
   lr_write a' = lr_write a \<Longrightarrow> lr_write b' = lr_write b \<Longrightarrow> before a' b'"
  by (auto simp: before_def)

lemma trimD:
  assumes "p \<in> set (trim start fin r)"
  shows "lr_start r \<le> lr_start p" "lr_end p \<le> lr_end r" "lr_write p = lr_write r" "lr_owner p = lr_owner r"
    "\<not> overlaps p start fin" "lr_start r < lr_end r \<Longrightarrow> lr_start p < lr_end p"
  using assms by (auto simp: trim_def overlaps_def split: if_splits)

lemma trim_covers:
  "(\<exists>p \<in> set (trim start fin r). covers p b) \<longleftrightarrow> covers r b \<and> \<not> (start \<le> b \<and> b < fin)"
  by (auto simp: trim_def overlaps_def covers_def)

lemma trim_sorted: "start < fin \<Longrightarrow> sorted_wrt before (trim start fin r)"
  by (auto simp: trim_def before_def)

lemma trims_sorted:
  assumes "start < fin" "sorted_wrt before rs"
  shows "sorted_wrt before (concat (map (trim start fin) rs))"
  using assms(2)
proof (induction rs)
  case (Cons r rs)
  have "before p q" if p: "p \<in> set (trim start fin r)" and q: "q \<in> set (concat (map (trim start fin) rs))" for p q
  proof -
    obtain r' where r': "r' \<in> set rs" "q \<in> set (trim start fin r')" using q by auto
    then have "before r r'" using Cons.prems by simp
    then show ?thesis
      using before_mono [of r r' p q] trimD [OF p] trimD [OF r'(2)] by simp
  qed
  then show ?case
    using Cons.IH Cons.prems trim_sorted [OF assms(1), of r] by (simp add: sorted_wrt_append)
qed simp

lemma trims_ok:
  assumes "\<forall>r \<in> set rs. range_ok r \<and> lr_owner r = ow" "p \<in> set (concat (map (trim start fin) rs))"
  shows "range_ok p" "lr_owner p = ow" "\<not> overlaps p start fin"
proof -
  obtain r where r: "r \<in> set rs" "p \<in> set (trim start fin r)" using assms(2) by auto
  then have "range_ok r" "lr_owner r = ow" using assms(1) by auto
  then show "range_ok p" "lr_owner p = ow" "\<not> overlaps p start fin"
    using trimD [OF r(2)] by (auto simp: range_ok_def)
qed

lemma fold_min_lower:
  fixes f :: "'a \<Rightarrow> nat"
  shows "fold (min \<circ> f) js s \<le> s" "j \<in> set js \<Longrightarrow> fold (min \<circ> f) js s \<le> f j"
    "fold (min \<circ> f) js s = s \<or> (\<exists>j \<in> set js. fold (min \<circ> f) js s = f j)"
proof (induction js arbitrary: s)
  case (Cons a js)
  { case 1 show ?case using Cons.IH(1) [of "min (f a) s"] by simp }
  { case 2 then show ?case using Cons.IH(1) [of "min (f a) s"] Cons.IH(2) [of "min (f a) s"] by auto }
  { case 3 show ?case using Cons.IH(3) [of "min (f a) s"] by (auto simp: min_def split: if_splits) }
qed auto

lemma fold_max_upper:
  fixes f :: "'a \<Rightarrow> nat"
  shows "s \<le> fold (max \<circ> f) js s" "j \<in> set js \<Longrightarrow> f j \<le> fold (max \<circ> f) js s"
    "fold (max \<circ> f) js s = s \<or> (\<exists>j \<in> set js. fold (max \<circ> f) js s = f j)"
proof (induction js arbitrary: s)
  case (Cons a js)
  { case 1 show ?case using Cons.IH(1) [of "max (f a) s"] by simp }
  { case 2 then show ?case using Cons.IH(1) [of "max (f a) s"] Cons.IH(2) [of "max (f a) s"] by auto }
  { case 3 show ?case using Cons.IH(3) [of "max (f a) s"] by (auto simp: max_def split: if_splits) }
qed auto

lemma merged_fields [simp]:
  "lr_write (merged ow start fin w kept) = w" "lr_owner (merged ow start fin w kept) = ow"
  by (simp_all add: merged_def Let_def)

lemma merged_start:
  "lr_start (merged ow start fin w kept) \<le> start"
  "j \<in> set kept \<Longrightarrow> joins start fin w j \<Longrightarrow> lr_start (merged ow start fin w kept) \<le> lr_start j"
  "lr_start (merged ow start fin w kept) = start \<or>
   (\<exists>j \<in> set kept. joins start fin w j \<and> lr_start (merged ow start fin w kept) = lr_start j)"
  using fold_min_lower [where f = lr_start and js = "filter (joins start fin w) kept" and s = start]
  by (auto simp: merged_def Let_def)

lemma merged_end:
  "fin \<le> lr_end (merged ow start fin w kept)"
  "j \<in> set kept \<Longrightarrow> joins start fin w j \<Longrightarrow> lr_end j \<le> lr_end (merged ow start fin w kept)"
  "lr_end (merged ow start fin w kept) = fin \<or>
   (\<exists>j \<in> set kept. joins start fin w j \<and> lr_end (merged ow start fin w kept) = lr_end j)"
  using fold_max_upper [where f = lr_end and js = "filter (joins start fin w) kept" and s = fin]
  by (auto simp: merged_def Let_def)

lemma merged_covers:
  "covers (merged ow start fin w kept) b \<longleftrightarrow>
   (start \<le> b \<and> b < fin) \<or> (\<exists>j \<in> set kept. joins start fin w j \<and> covers j b)"
  (is "?l \<longleftrightarrow> ?r")
proof
  assume l: ?l
  consider "b < start" | "fin \<le> b" | "start \<le> b \<and> b < fin" by linarith
  then show ?r
  proof cases
    case 1
    then obtain j where "j \<in> set kept" "joins start fin w j" "lr_start j \<le> b"
      using l merged_start(3) [of ow start fin w kept] by (auto simp: covers_def)
    then show ?thesis using 1 by (auto simp: covers_def joins_def intro!: bexI [of _ j])
  next
    case 2
    then obtain j where "j \<in> set kept" "joins start fin w j" "b < lr_end j"
      using l merged_end(3) [of ow start fin w kept] by (auto simp: covers_def)
    then show ?thesis using 2 by (auto simp: covers_def joins_def intro!: bexI [of _ j])
  qed blast
next
  assume ?r
  then show ?l
    unfolding covers_def by (meson le_trans less_le_trans merged_end(1,2) merged_start(1,2))
qed

text \<open>A range that does not join stays apart from the merged one.\<close>

lemma merged_apart:
  assumes x: "lr_start x < lr_end x" "\<not> overlaps x start fin" "\<not> joins start fin w x" and sf: "start < fin"
    and all: "\<And>j. j \<in> set kept \<Longrightarrow> joins start fin w j \<Longrightarrow> apart x j \<and> lr_start j < lr_end j"
  shows "apart x (merged ow start fin w kept)"
proof -
  let ?m = "merged ow start fin w kept"
  consider "lr_end x \<le> start" | "fin \<le> lr_start x" using x(2) by (auto simp: overlaps_def)
  then show ?thesis
  proof cases
    case 1
    have "before x ?m"
      using merged_start(3) [of ow start fin w kept] x(1,3) 1 sf all
      by (force simp: before_def joins_def apart_def)
    then show ?thesis by (simp add: apart_def)
  next
    case 2
    have "before ?m x"
      using merged_end(3) [of ow start fin w kept] x(1,3) 2 sf all
      by (force simp: before_def joins_def apart_def)
    then show ?thesis by (simp add: apart_def)
  qed
qed

lemma apart_sorted_before:
  assumes "sorted_wrt apart ys" "sorted (map lr_start ys)" "\<forall>r \<in> set ys. range_ok r"
  shows "sorted_wrt before ys"
  unfolding sorted_wrt_iff_nth_less
proof (intro allI impI)
  fix i j assume ij: "i < j" "j < length ys"
  have "apart (ys ! i) (ys ! j)" "lr_start (ys ! i) \<le> lr_start (ys ! j)"
    using ij assms(1,2) by (simp_all add: sorted_wrt_iff_nth_less)
  moreover have "lr_start (ys ! j) < lr_end (ys ! j)" using assms(3) ij by (simp add: range_ok_def)
  ultimately show "before (ys ! i) (ys ! j)" by (auto simp: apart_def before_def)
qed

lemma merged_ok:
  assumes "start < fin" "fin \<le> TO_END" "\<forall>r \<in> set kept. range_ok r"
  shows "range_ok (merged ow start fin w kept)"
proof -
  have "lr_start (merged ow start fin w kept) < lr_end (merged ow start fin w kept)"
    using merged_start(1) merged_end(1) assms(1) by (meson le_less_trans less_le_trans)
  moreover have "lr_end (merged ow start fin w kept) \<le> TO_END"
    using merged_end(3) [where ow = ow and start = start and fin = fin and w = w and kept = kept] assms
    by (auto simp: range_ok_def)
  ultimately show ?thesis by (simp add: range_ok_def)
qed

lemma kept_ranges_ok:
  assumes "start < fin" "fin \<le> TO_END" "\<forall>r \<in> set mine. range_ok r \<and> lr_owner r = ow"
  shows "\<forall>r \<in> set (kept_ranges ow start fin wr mine). range_ok r \<and> lr_owner r = ow"
proof -
  define kept where "kept = concat (map (trim start fin) mine)"
  have k: "\<forall>r \<in> set kept. range_ok r \<and> lr_owner r = ow"
    using trims_ok [OF assms(3)] unfolding kept_def by blast
  then show ?thesis
    using merged_ok [OF assms(1,2), of kept ow]
    by (auto simp: kept_ranges_def Let_def simp flip: kept_def split: option.splits)
qed

lemma kept_ranges_sorted:
  assumes sf: "start < fin" and fin: "fin \<le> TO_END"
    and mine: "sorted_wrt before mine" "\<forall>r \<in> set mine. range_ok r \<and> lr_owner r = ow"
  shows "sorted_wrt before (kept_ranges ow start fin wr mine)"
proof -
  define kept where "kept = concat (map (trim start fin) mine)"
  define ys where "ys = (case wr of None \<Rightarrow> kept
    | Some w \<Rightarrow> filter (\<lambda>r. \<not> joins start fin w r) kept @ [merged ow start fin w kept])"
  have ranges: "kept_ranges ow start fin wr mine = sort_key lr_start ys"
    unfolding kept_ranges_def ys_def kept_def Let_def by (rule refl)
  have k: "range_ok r" "\<not> overlaps r start fin" if "r \<in> set kept" for r
    using trims_ok [OF mine(2)] that unfolding kept_def by blast+
  have ks: "sorted_wrt apart kept"
    using trims_sorted [OF sf mine(1)] unfolding kept_def
    by (rule sorted_wrt_mono_rel [rotated]) (simp add: apart_def)
  have "apart x (merged ow start fin w kept)" if x: "x \<in> set kept" "\<not> joins start fin w x" for x w
  proof (rule merged_apart [OF _ k(2) [OF x(1)] x(2) sf])
    show "lr_start x < lr_end x" using k(1) [OF x(1)] by (simp add: range_ok_def)
    fix j assume j: "j \<in> set kept" "joins start fin w j"
    then show "apart x j \<and> lr_start j < lr_end j"
      using sorted_wrt_pairs_symp [OF symp_apart ks x(1) j(1)] k(1) [OF j(1)] x(2)
      by (auto simp: range_ok_def)
  qed
  then have "sorted_wrt apart ys"
    using ks unfolding ys_def by (auto simp: sorted_wrt_append sorted_wrt_filter split: option.splits)
  then have "sorted_wrt apart (sort_key lr_start ys)" by (simp add: sorted_wrt_sort_key [OF symp_apart])
  then show ?thesis
    using apart_sorted_before [of "sort_key lr_start ys"] kept_ranges_ok [OF sf fin mine(2), of wr]
    unfolding ranges by simp
qed

lemma kept_ranges_covers:
  assumes "start < fin"
  shows "(\<exists>r \<in> set (kept_ranges ow start fin wr mine). covers r b \<and> lr_write r = v) \<longleftrightarrow>
    (if start \<le> b \<and> b < fin then wr = Some v else \<exists>r \<in> set mine. covers r b \<and> lr_write r = v)"
proof -
  let ?k = "concat (map (trim start fin) mine)"
  have k: "(\<exists>r \<in> set ?k. covers r b \<and> lr_write r = v) \<longleftrightarrow>
      \<not> (start \<le> b \<and> b < fin) \<and> (\<exists>r \<in> set mine. covers r b \<and> lr_write r = v)" for v
    using trim_covers [of start fin _ b] trimD(3) by (auto; metis)
  show ?thesis
  proof (cases wr)
    case None
    then show ?thesis using k [of v] by (auto simp: kept_ranges_def)
  next
    case (Some w)
    have "(\<exists>r \<in> set (kept_ranges ow start fin wr mine). covers r b \<and> lr_write r = v) \<longleftrightarrow>
      (\<exists>r \<in> set ?k. covers r b \<and> lr_write r = v) \<or> (w = v \<and> start \<le> b \<and> b < fin)"
      using Some merged_covers [of ow start fin w ?k b]
      by (auto simp: kept_ranges_def Let_def joins_def simp del: set_concat)
    then show ?thesis using k [of v] Some by auto
  qed
qed

section \<open>The table and the bytes it locks\<close>

text \<open>The lock an owner holds at a byte: none, shared (\<open>False\<close>) or exclusive (\<open>True\<close>).\<close>

definition held :: "lock_table \<Rightarrow> lock_owner \<Rightarrow> nat \<Rightarrow> bool option" where
  "held t ow b = map_option lr_write (List.find (\<lambda>r. lr_owner r = ow \<and> covers r b) (records t))"

abbreviation own :: "lock_owner \<Rightarrow> lock_table \<Rightarrow> lock_range list" where
  "own ow t \<equiv> filter (\<lambda>r. lr_owner r = ow) (records t)"

text \<open>
  The invariant of the table: ranges are not empty, each owner's are in order of start and disjoint, and
  adjacent ones of the same type are merged.
\<close>

definition table_wf :: "lock_table \<Rightarrow> bool" where
  "table_wf t \<longleftrightarrow> (\<forall>r \<in> set (records t). range_ok r) \<and> (\<forall>ow. sorted_wrt before (own ow t))"

lemma before_disjoint: "before a c \<Longrightarrow> covers a b \<Longrightarrow> \<not> covers c b"
  by (auto simp: before_def covers_def)

lemma held_iff:
  assumes "table_wf t"
  shows "held t ow b = Some v \<longleftrightarrow> (\<exists>r \<in> set (own ow t). covers r b \<and> lr_write r = v)"
proof
  assume "held t ow b = Some v"
  then obtain r where "List.find (\<lambda>r. lr_owner r = ow \<and> covers r b) (records t) = Some r" "lr_write r = v"
    unfolding held_def by blast
  then show "\<exists>r \<in> set (own ow t). covers r b \<and> lr_write r = v"
    using find_SomeD by fastforce
next
  assume "\<exists>r \<in> set (own ow t). covers r b \<and> lr_write r = v"
  then obtain r where r: "r \<in> set (own ow t)" "covers r b" "lr_write r = v" by blast
  then have "List.find (\<lambda>r. lr_owner r = ow \<and> covers r b) (records t) \<noteq> None"
    by (auto simp: find_None_iff)
  then obtain r' where f: "List.find (\<lambda>r. lr_owner r = ow \<and> covers r b) (records t) = Some r'" by blast
  then have r': "r' \<in> set (own ow t)" "covers r' b" by (auto simp: find_Some_iff)
  have "sorted_wrt apart (own ow t)"
    using assms unfolding table_wf_def by (metis apart_def sorted_wrt_mono_rel)
  then have "r' = r"
    using sorted_wrt_pairs_symp [OF symp_apart _ r'(1) r(1)] before_disjoint r' r
    unfolding apart_def by blast
  then show "held t ow b = Some v" using f r(3) by (simp add: held_def)
qed

lemma own_table_set:
  assumes "\<forall>r \<in> set (kept_ranges ow start fin wr (own ow t)). lr_owner r = ow"
  shows "own o' (snd (table_set t ow start fin wr)) =
    (if o' = ow then kept_ranges ow start fin wr (own ow t) else own o' t)"
proof -
  define kept where "kept = kept_ranges ow start fin wr (own ow t)"
  define rest where "rest = filter (\<lambda>r. lr_owner r \<noteq> ow) (records t)"
  define i where "i = (case position (\<lambda>r. lr_owner r = ow) (records t) of Some i \<Rightarrow> i | None \<Rightarrow> length rest)"
  have recs: "records (snd (table_set t ow start fin wr)) = take i rest @ kept @ drop i rest"
    unfolding table_set_def Let_def kept_def rest_def i_def by simp
  have split: "filter P (take i rest) @ filter P (drop i rest) = filter P rest" for P
    unfolding filter_append [symmetric] append_take_drop_id by (rule refl)
  show ?thesis
  proof (cases "o' = ow")
    case True
    have "filter (\<lambda>r. lr_owner r = ow) rest = []" by (simp add: rest_def)
    then have "filter (\<lambda>r. lr_owner r = ow) (take i rest) = [] \<and> filter (\<lambda>r. lr_owner r = ow) (drop i rest) = []"
      unfolding split [symmetric] append_is_Nil_conv .
    moreover have "filter (\<lambda>r. lr_owner r = ow) kept = kept"
      using assms unfolding kept_def by (rule filter_True)
    ultimately have "own ow (snd (table_set t ow start fin wr)) = kept"
      unfolding recs filter_append by simp
    then show ?thesis unfolding True kept_def if_P [OF refl] .
  next
    case False
    then have none: "filter (\<lambda>r. lr_owner r = o') kept = []"
      using assms unfolding kept_def filter_empty_conv by blast
    have rest': "filter (\<lambda>r. lr_owner r = o') rest = own o' t"
      using False unfolding rest_def filter_filter by (intro filter_cong) auto
    show ?thesis
      unfolding if_not_P [OF False] recs filter_append none append_Nil split rest' by (rule refl)
  qed
qed

lemma table_wf_own:
  assumes "table_wf t"
  shows "sorted_wrt before (own ow t)" "\<forall>r \<in> set (own ow t). range_ok r \<and> lr_owner r = ow"
  using assms by (auto simp: table_wf_def)

lemma table_wf_iff_own:
  "table_wf t \<longleftrightarrow> (\<forall>ow. sorted_wrt before (own ow t) \<and> (\<forall>r \<in> set (own ow t). range_ok r))"
  by (auto simp: table_wf_def)

lemma own_table_set_wf:
  assumes "table_wf t" "start < fin" "fin \<le> TO_END"
  shows "own o' (snd (table_set t ow start fin wr)) =
    (if o' = ow then kept_ranges ow start fin wr (own ow t) else own o' t)"
proof (rule own_table_set)
  show "\<forall>r \<in> set (kept_ranges ow start fin wr (own ow t)). lr_owner r = ow"
    using kept_ranges_ok [OF assms(2,3) table_wf_own(2) [OF assms(1)]] by blast
qed

lemma table_set_wf [wf_intros]:
  assumes "table_wf t" "start < fin" "fin \<le> TO_END"
  shows "table_wf (snd (table_set t ow start fin wr))"
  unfolding table_wf_iff_own own_table_set_wf [OF assms]
proof (intro allI)
  fix o'
  show "sorted_wrt before (if o' = ow then kept_ranges ow start fin wr (own ow t) else own o' t) \<and>
    (\<forall>r \<in> set (if o' = ow then kept_ranges ow start fin wr (own ow t) else own o' t). range_ok r)"
  proof (cases "o' = ow")
    case True
    show ?thesis
      unfolding if_P [OF True]
      using kept_ranges_ok [OF assms(2,3) table_wf_own(2) [OF assms(1)]]
        kept_ranges_sorted [OF assms(2,3) table_wf_own [OF assms(1)]] by blast
  next
    case False
    show ?thesis unfolding if_not_P [OF False] using table_wf_own [OF assms(1)] by blast
  qed
qed

lemma table_set_held:
  assumes "table_wf t" "start < fin" "fin \<le> TO_END"
  shows "held (snd (table_set t ow start fin wr)) o' b =
    (if o' = ow \<and> start \<le> b \<and> b < fin then wr else held t o' b)"
proof -
  let ?t' = "snd (table_set t ow start fin wr)"
  note held' = held_iff [OF table_set_wf [OF assms]] own_table_set_wf [OF assms]
  show ?thesis
  proof (rule option_eqI)
    fix v
    show "held ?t' o' b = Some v \<longleftrightarrow>
      (if o' = ow \<and> start \<le> b \<and> b < fin then wr else held t o' b) = Some v"
    proof (cases "o' = ow")
      case True
      have "held ?t' o' b = Some v \<longleftrightarrow> (if start \<le> b \<and> b < fin then wr = Some v else held t ow b = Some v)"
        unfolding held' if_P [OF True] kept_ranges_covers [OF assms(2)] held_iff [OF assms(1)] by (rule refl)
      then show ?thesis unfolding True by (cases "start \<le> b \<and> b < fin") auto
    next
      case False
      have "held ?t' o' b = Some v \<longleftrightarrow> held t o' b = Some v"
        unfolding held' if_not_P [OF False] held_iff [OF assms(1)] by (rule refl)
      then show ?thesis using False by simp
    qed
  qed
qed

lemma overlaps_iff:
  assumes "range_ok r" "start < fin"
  shows "overlaps r start fin \<longleftrightarrow> (\<exists>b. start \<le> b \<and> b < fin \<and> covers r b)"
proof
  assume "overlaps r start fin"
  then show "\<exists>b. start \<le> b \<and> b < fin \<and> covers r b"
    using assms by (intro exI [of _ "max start (lr_start r)"]) (auto simp: overlaps_def covers_def range_ok_def)
qed (auto simp: overlaps_def covers_def)

lemma conflict_None:
  assumes "table_wf t" "start < fin"
  shows "conflict t ow start fin wr = None \<longleftrightarrow>
    (\<forall>o' b. o' \<noteq> ow \<longrightarrow> start \<le> b \<longrightarrow> b < fin \<longrightarrow>
       held t o' b \<noteq> Some True \<and> (wr \<longrightarrow> held t o' b = None))" (is "?l \<longleftrightarrow> ?r")
proof
  assume l: ?l
  show ?r
  proof (intro allI impI)
    fix o' b assume b: "o' \<noteq> ow" "start \<le> b" "b < fin"
    have no: "\<not> (wr \<or> v)" if h: "held t o' b = Some v" for v
    proof
      assume "wr \<or> v"
      obtain r where r: "r \<in> set (own o' t)" "covers r b" "lr_write r = v"
        using h held_iff [OF assms(1)] by blast
      then have "overlaps r start fin" using b by (simp add: overlaps_def covers_def)
      then show False
        using l b(1) r \<open>wr \<or> v\<close> unfolding conflict_def find_None_iff by auto
    qed
    then show "held t o' b \<noteq> Some True \<and> (wr \<longrightarrow> held t o' b = None)"
      by (cases "held t o' b") auto
  qed
next
  assume r: ?r
  have "\<not> overlaps x start fin" if x: "x \<in> set (records t)" "lr_owner x \<noteq> ow" "wr \<or> lr_write x" for x
  proof
    assume "overlaps x start fin"
    then obtain b where b: "start \<le> b" "b < fin" "covers x b"
      using overlaps_iff [OF _ assms(2)] assms(1) x(1) by (auto simp: table_wf_def)
    then have "held t (lr_owner x) b = Some (lr_write x)"
      using held_iff [OF assms(1)] x(1) by auto
    then show False using r x(2,3) b(1,2) by (metis option.distinct(1))
  qed
  then show ?l by (auto simp: conflict_def find_None_iff)
qed

text \<open>Locks of different owners at one byte are both shared.\<close>

definition compatible :: "lock_table \<Rightarrow> bool" where
  "compatible t \<longleftrightarrow> (\<forall>ow o' b. ow \<noteq> o' \<longrightarrow> held t ow b = Some True \<longrightarrow> held t o' b = None)"

definition flocks_compatible :: "lock_table \<Rightarrow> bool" where
  "flocks_compatible t \<longleftrightarrow>
     (\<forall>d x d' x'. (d, x) \<in> set (flocks t) \<longrightarrow> (d', x') \<in> set (flocks t) \<longrightarrow> d \<noteq> d' \<longrightarrow> \<not> x)"

definition locks_ok :: "lock_table \<Rightarrow> bool" where
  "locks_ok t \<longleftrightarrow> table_wf t \<and> compatible t \<and> flocks_compatible t"

lemma locks_ok_default [simp, wf_intros]: "locks_ok table_default"
  by (simp add: locks_ok_def table_wf_def compatible_def flocks_compatible_def table_default_def held_def)

lemma flocks_table_set [simp]: "flocks (snd (table_set t ow start fin wr)) = flocks t"
  by (simp add: table_set_def Let_def)

lemma flocks_compatible_cong: "flocks t' = flocks t \<Longrightarrow> flocks_compatible t' = flocks_compatible t"
  unfolding flocks_compatible_def by simp

lemma fcntl_attempt_ok:
  assumes ok: "locks_ok t" and sf: "start < fin" "fin \<le> TO_END"
    and att: "fcntl_attempt ow start fin kind t = Some (released, t')"
  shows "locks_ok t'"
proof -
  have wf: "table_wf t" and c: "compatible t" using ok by (auto simp: locks_ok_def)
  have "table_set t ow start fin kind = (released, t')"
    using att by (simp add: fcntl_attempt_def split: if_splits)
  then have t': "t' = snd (table_set t ow start fin kind)" by simp
  have free: "held t o' b \<noteq> Some True \<and> (w \<longrightarrow> held t o' b = None)"
    if "kind = Some w" "o' \<noteq> ow" "start \<le> b" "b < fin" for o' b w
    using att that conflict_None [OF wf sf(1), of ow w] by (auto simp: fcntl_attempt_def split: if_splits)
  have "compatible t'"
    unfolding compatible_def t' table_set_held [OF wf sf]
  proof (intro allI impI)
    fix o1 o2 b
    let ?h = "\<lambda>o'. if o' = ow \<and> start \<le> b \<and> b < fin then kind else held t o' b"
    assume d: "o1 \<noteq> o2" "?h o1 = Some True"
    show "?h o2 = None"
    proof (cases "start \<le> b \<and> b < fin \<and> (o1 = ow \<or> o2 = ow)")
      case True
      then show ?thesis
        using d free [of True o2 b] free [of _ o1 b] by (cases "o1 = ow"; cases kind) auto
    next
      case False
      then show ?thesis using d c [unfolded compatible_def, rule_format, of o1 o2 b] by (auto split: if_splits)
    qed
  qed
  then show ?thesis
    using ok table_set_wf [OF wf sf, of ow kind] flocks_compatible_cong [of t' t] t' by (simp add: locks_ok_def)
qed

text \<open>Dropping ranges or \<^verbatim>\<open>flock\<close> holders keeps the invariant.\<close>

lemma own_filter: "own o' (t\<lparr>records := filter P (records t)\<rparr>) = filter P (own o' t)"
  by (simp add: conj_commute)

lemma drop_owner_ok:
  assumes "locks_ok t"
  shows "locks_ok (t\<lparr>records := filter (\<lambda>r. lr_owner r \<noteq> ow) (records t)\<rparr>)" (is "locks_ok ?t")
    and "held (t\<lparr>records := filter (\<lambda>r. lr_owner r \<noteq> ow) (records t)\<rparr>) o' b =
      (if o' = ow then None else held t o' b)"
proof -
  have own: "own o' ?t = (if o' = ow then [] else own o' t)" for o'
  proof (cases "o' = ow")
    case False
    then have "filter (\<lambda>r. lr_owner r \<noteq> ow) (own o' t) = own o' t" by (intro filter_True) auto
    then show ?thesis unfolding own_filter if_not_P [OF False] .
  next
    case True
    then show ?thesis by simp
  qed
  have wf: "table_wf t" using assms by (simp add: locks_ok_def)
  have wf': "table_wf ?t"
    unfolding table_wf_iff_own own
  proof (intro allI)
    show "sorted_wrt before (if o' = ow then [] else own o' t) \<and>
        (\<forall>r \<in> set (if o' = ow then [] else own o' t). range_ok r)" for o'
    proof (cases "o' = ow")
      case False
      show ?thesis unfolding if_not_P [OF False] using table_wf_own [OF wf] by blast
    qed simp
  qed
  have held: "held ?t o' b = (if o' = ow then None else held t o' b)" for o' b
  proof (rule option_eqI)
    show "held ?t o' b = Some v \<longleftrightarrow> (if o' = ow then None else held t o' b) = Some v" for v
    proof (cases "o' = ow")
      case True
      show ?thesis unfolding held_iff [OF wf'] own if_P [OF True] by simp
    next
      case False
      show ?thesis unfolding held_iff [OF wf'] own if_not_P [OF False] held_iff [OF wf] by (rule refl)
    qed
  qed
  show "held ?t o' b = (if o' = ow then None else held t o' b)" by (rule held)
  have c: "compatible t" "flocks_compatible t" using assms by (simp_all add: locks_ok_def)
  have "compatible ?t"
    unfolding compatible_def held
  proof (intro allI impI)
    fix o1 o2 b
    assume "o1 \<noteq> o2" "(if o1 = ow then None else held t o1 b) = Some True"
    then show "(if o2 = ow then None else held t o2 b) = None"
      using c(1) [unfolded compatible_def, rule_format, of o1 o2 b] by (auto split: if_splits)
  qed
  then show "locks_ok ?t" using c(2) wf' flocks_compatible_cong [of ?t t] by (simp add: locks_ok_def)
qed

lemma flocks_update_ok: "locks_ok (t\<lparr>flocks := fs\<rparr>) \<longleftrightarrow>
    table_wf t \<and> compatible t \<and> flocks_compatible (t\<lparr>flocks := fs\<rparr>)"
  by (simp add: locks_ok_def table_wf_def compatible_def held_def)

lemma flocks_subset_ok:
  "locks_ok t \<Longrightarrow> set fs \<subseteq> set (flocks t) \<Longrightarrow> locks_ok (t\<lparr>flocks := fs\<rparr>)"
  unfolding flocks_update_ok unfolding locks_ok_def flocks_compatible_def by (simp add: subset_iff) blast

lemma drop_flock_ok:
  assumes "locks_ok t"
  shows "locks_ok (snd (drop_flock t desc))"
proof -
  have "snd (drop_flock t desc) = (t\<lparr>records := filter (\<lambda>r. lr_owner r \<noteq> Flock desc) (records t)\<rparr>)
      \<lparr>flocks := filter (\<lambda>(holder, _). holder \<noteq> desc) (flocks t)\<rparr>"
    by (simp add: drop_flock_def Let_def)
  then show ?thesis using flocks_subset_ok [OF drop_owner_ok(1) [OF assms]] by simp
qed

lemma flock_attempt_ok:
  assumes "locks_ok t" "flock_attempt desc exclusive t = Some (u, t')"
  shows "locks_ok t'"
proof -
  have t': "t' = t\<lparr>flocks := flocks t @ [(desc, exclusive)]\<rparr>"
    and free: "\<forall>holder x. (holder, x) \<in> set (flocks t) \<longrightarrow> holder \<noteq> desc \<longrightarrow> \<not> exclusive \<and> \<not> x"
    using assms(2) by (auto simp: flock_attempt_def flock_conflict_def split: if_splits)
  have "flocks_compatible t'"
    using assms(1) free unfolding t' locks_ok_def flocks_compatible_def by (simp add: disj_imp) metis
  then show ?thesis using assms(1) unfolding t' flocks_update_ok by (simp add: locks_ok_def)
qed

lemma flock_convert_ok:
  assumes "locks_ok t" "flock_convert t desc exclusive = Inr (converted, t')"
  shows "locks_ok t'"
proof -
  have part: "set (take i (flocks t) @ drop (Suc i) (flocks t)) \<subseteq> set (flocks t)" for i
    using set_take_subset [of i "flocks t"] set_drop_subset [of "Suc i" "flocks t"] by simp
  show ?thesis
    using assms flocks_subset_ok [OF assms(1) part] unfolding flock_convert_def
    by (auto split: option.splits if_splits)
qed

section \<open>Every request keeps the table's invariant\<close>

text \<open>The atomic sections of the calls on one inode.\<close>

inductive lock_section :: "lock_table \<Rightarrow> lock_table \<Rightarrow> bool" for t where
  set_range: "start < fin \<Longrightarrow> fin \<le> TO_END \<Longrightarrow> fcntl_attempt ow start fin kind t = Some (r, t') \<Longrightarrow> lock_section t t'"
| convert: "flock_convert t desc exclusive = Inr (c, t') \<Longrightarrow> lock_section t t'"
| take_flock: "flock_attempt desc exclusive t = Some (u, t') \<Longrightarrow> lock_section t t'"
| unlock_flock: "lock_section t (snd (drop_flock t desc))"
| close_process: "lock_section t (snd (release_process t))"
| close_description: "lock_section t (snd (release_description t desc))"

lemma lock_section_ok:
  assumes "lock_section t t'" "locks_ok t"
  shows "locks_ok t'"
  using assms(1)
proof cases
  case set_range
  then show ?thesis using fcntl_attempt_ok assms(2) by blast
next
  case convert
  then show ?thesis using flock_convert_ok assms(2) by blast
next
  case take_flock
  then show ?thesis using flock_attempt_ok assms(2) by blast
next
  case (close_description desc)
  then show ?thesis
    using drop_flock_ok [OF drop_owner_ok(1) [OF assms(2), of "Description desc"], of desc]
    by (simp add: release_description_def Let_def split: prod.splits)
qed (use drop_flock_ok drop_owner_ok(1) assms(2) in \<open>auto simp: release_process_def Let_def\<close>)

inductive locks_reachable :: "lock_table \<Rightarrow> bool" where
  init: "locks_reachable table_default"
| step: "locks_reachable t \<Longrightarrow> lock_section t t' \<Longrightarrow> locks_reachable t'"

lemma reachable_ok: "locks_reachable t \<Longrightarrow> locks_ok t"
  by (induction rule: locks_reachable.induct) (auto intro: lock_section_ok)

lemma span_bounds:
  assumes "span fl target = Inr (start, fin)"
  shows "start < fin" "fin \<le> TO_END"
proof -
  have "start < fin \<and> fin \<le> TO_END"
    using assms
    by (auto simp: span_def span_ends_def ok_or_def checked_add_i64_def TO_END_def U64_MAX_eq
        split: sum.splits option.splits if_splits prod.splits)
  then show "start < fin" "fin \<le> TO_END" by auto
qed

lemma lock_wait_Inr: "lock_wait i att seen = Inr r \<Longrightarrow> \<exists>t \<in> set seen. att t = Some r"
  by (induction seen) (auto split: option.splits)

lemma fcntl_set_section:
  assumes "start < fin" "fin \<le> TO_END"
    and "fcntl_set req sa t i seen ow start fin kind target fl = (res, Some t', woke)"
  shows "\<exists>s \<in> set (t # seen). lock_section s t'"
proof -
  obtain s r where "s \<in> set (t # seen)" "fcntl_attempt ow start fin kind s = Some (r, t')"
    using assms(3) lock_wait_Inr [of i "fcntl_attempt ow start fin kind" "t # seen"]
    by (auto simp: fcntl_set_def lock_err_def split: if_splits request.splits sum.splits option.splits)
  then show ?thesis using lock_section.set_range [OF assms(1,2)] by blast
qed

text \<open>Every table a record-lock call leaves is one atomic section away from one it saw.\<close>

lemma locks_fcntl_section:
  assumes "locks_fcntl os pid cmd arg sa target t i seen = Some (res, Some t', woke)"
  shows "\<exists>s \<in> set (t # seen). lock_section s t'"
proof -
  obtain req start fin ow kind fl where sp: "span fl target = Inr (start, fin)"
    and call: "fcntl_set req sa t i seen ow start fin kind target fl = (res, Some t', woke)"
    using assms
    by (auto simp: locks_fcntl_def lock_err_def Let_def split: option.splits prod.splits if_splits sum.splits)
  show ?thesis by (rule fcntl_set_section [OF span_bounds [OF sp] call])
qed

section \<open>Properties\<close>

text \<open>
  C11: Locks exclude each other. In every table the calls on an inode can produce, in any interleaving of
  their atomic sections, a byte one owner has locked for writing is locked by no other owner, and a
  file one description holds exclusively through \<^verbatim>\<open>flock\<close> is held by no other description.
\<close>

theorem locks_exclusive:
  assumes "locks_reachable t"
  shows "(ow \<noteq> o' \<and> held t ow b = Some True \<longrightarrow> held t o' b = None) \<and>
    ((d, True) \<in> set (flocks t) \<and> (d', x) \<in> set (flocks t) \<longrightarrow> d = d')"
  using reachable_ok [OF assms] unfolding locks_ok_def compatible_def flocks_compatible_def by metis

text \<open>The process write-locks bytes 0 to 9; description 7 gets bytes 10 to the end of the file.\<close>

definition example_table :: lock_table where
  "example_table = snd (table_set (snd (table_set table_default Process 0 10 (Some True)))
     (Description 7) 10 TO_END (Some False))"

lemma example_table_eq:
  "example_table = \<lparr>records =
     [\<lparr>lr_start = 0, lr_end = 10, lr_write = True, lr_owner = Process\<rparr>,
      \<lparr>lr_start = 10, lr_end = TO_END, lr_write = False, lr_owner = Description 7\<rparr>], flocks = []\<rparr>"
  by (simp add: example_table_def table_set_def kept_ranges_def merged_def table_default_def Let_def)

lemma example_table_reachable: "locks_reachable example_table"
proof -
  let ?t = "snd (table_set table_default Process 0 10 (Some True))"
  have "fcntl_attempt Process 0 10 (Some True) table_default = Some (False, ?t)"
    by (simp add: fcntl_attempt_def conflict_def table_default_def table_set_def Let_def)
  then have 1: "locks_reachable ?t"
    by (intro locks_reachable.step [OF locks_reachable.init] lock_section.set_range [of 0 10])
      (auto simp: TO_END_def U64_MAX_eq)
  have "fcntl_attempt (Description 7) 10 TO_END (Some False) ?t =
      Some (fst (table_set ?t (Description 7) 10 TO_END (Some False)), example_table)"
    by (simp add: fcntl_attempt_def conflict_def table_set_def kept_ranges_def merged_def table_default_def
        Let_def overlaps_def example_table_def)
  then show ?thesis
    by (intro locks_reachable.step [OF 1] lock_section.set_range [of 10 TO_END])
      (auto simp: TO_END_def U64_MAX_eq)
qed

theorem locks_exclusive_witness:
  "held example_table Process 4 = Some True \<and> held example_table (Description 7) 4 = None"
  using locks_exclusive [OF example_table_reachable, of Process "Description 7" 4 0 0 True]
  by (simp add: example_table_eq held_def covers_def)

text \<open>
  C12: A nonblocking record-lock request (\<^verbatim>\<open>F_SETLK\<close>) fails with \<^verbatim>\<open>EAGAIN\<close> and changes nothing
  exactly when another owner holds a conflicting lock on some byte of the range; otherwise the caller's
  lock on exactly the bytes of the range becomes the requested one (none for an unlock), and every other
  byte and every other owner keeps what it had, however the ranges were split and merged.
\<close>

theorem setlk_exact:
  assumes wf: "table_wf t" and sp: "span fl target = Inr (start, fin)"
    and ty: "lock_kind (l_type fl) = Some kind"
    and acc: "kind = Some False \<longrightarrow> readable target" "kind = Some True \<longrightarrow> writable target"
  shows "if \<exists>w o' b. kind = Some w \<and> o' \<noteq> Process \<and> start \<le> b \<and> b < fin \<and>
             (held t o' b = Some True \<or> w \<and> held t o' b \<noteq> None)
    then locks_fcntl os pid F_SETLK (Some fl) sa target t i seen = Some (Inl EAGAIN, None, False)
    else \<exists>t' woke. locks_fcntl os pid F_SETLK (Some fl) sa target t i seen = Some (Inr fl, Some t', woke) \<and>
      (\<forall>o' b. held t' o' b = (if o' = Process \<and> start \<le> b \<and> b < fin then kind else held t o' b))"
proof -
  note b = span_bounds [OF sp]
  have call: "locks_fcntl os pid F_SETLK (Some fl) sa target t i seen =
      Some (case fcntl_attempt Process start fin kind t of
        Some (released, t') \<Rightarrow> (Inr fl, Some t', released) | None \<Rightarrow> lock_err EAGAIN)"
    using acc by (auto simp: locks_fcntl_def classify_def sp ty Let_def fcntl_set_def)
  have none: "fcntl_attempt Process start fin kind t = None \<longleftrightarrow>
      (\<exists>w o' b. kind = Some w \<and> o' \<noteq> Process \<and> start \<le> b \<and> b < fin \<and>
         (held t o' b = Some True \<or> w \<and> held t o' b \<noteq> None))"
    using conflict_None [OF wf b(1), of Process] by (cases kind) (auto simp: fcntl_attempt_def)
  show ?thesis
  proof (cases "fcntl_attempt Process start fin kind t")
    case None
    then show ?thesis using none call by (simp add: lock_err_def)
  next
    case (Some p)
    then have p: "snd p = snd (table_set t Process start fin kind)"
      by (simp add: fcntl_attempt_def split: if_splits)
    have "fcntl_attempt Process start fin kind t \<noteq> None" using Some by simp
    then have free: "\<not> (\<exists>w o' b. kind = Some w \<and> o' \<noteq> Process \<and> start \<le> b \<and> b < fin \<and>
         (held t o' b = Some True \<or> w \<and> held t o' b \<noteq> None))"
      unfolding none .
    have out: "locks_fcntl os pid F_SETLK (Some fl) sa target t i seen = Some (Inr fl, Some (snd p), fst p)"
      using Some call by (simp add: case_prod_beta)
    show ?thesis unfolding if_not_P [OF free] using out table_set_held [OF wf b] p by metis
  qed
qed

text \<open>
  C14: \<^verbatim>\<open>F_GETLK\<close> foretells \<^verbatim>\<open>F_SETLK\<close>: for a lock request over a valid range, the query
  answers \<^verbatim>\<open>F_UNLCK\<close> exactly when the same request as a set would be granted on the same table.
\<close>

theorem getlk_foretells:
  assumes sp: "span fl target = Inr (start, fin)" and ty: "lock_kind (l_type fl) = Some (Some w)"
    and acc: "w = False \<longrightarrow> readable target" "w = True \<longrightarrow> writable target"
  shows "\<exists>fl'. locks_fcntl os pid F_GETLK (Some fl) sa target t i seen = Some (Inr fl', None, False) \<and>
    (l_type fl' = F_UNLCK \<longleftrightarrow>
      (\<exists>t' woke. locks_fcntl os pid F_SETLK (Some fl) sa target t i seen = Some (Inr fl, Some t', woke)))"
proof -
  let ?c = "conflict t Process start fin w"
  have "locks_fcntl os pid F_GETLK (Some fl) sa target t i seen = Some (Inr (describe pid fl ?c), None, False)"
    by (simp add: locks_fcntl_def classify_def sp ty Let_def)
  moreover have "locks_fcntl os pid F_SETLK (Some fl) sa target t i seen =
      Some (case fcntl_attempt Process start fin (Some w) t of
        Some (released, t') \<Rightarrow> (Inr fl, Some t', released) | None \<Rightarrow> lock_err EAGAIN)"
    using acc by (auto simp: locks_fcntl_def classify_def sp ty Let_def fcntl_set_def)
  moreover have "l_type (describe pid fl ?c) = F_UNLCK \<longleftrightarrow> ?c = None"
    by (auto simp: describe_def split: option.splits)
  moreover have "fcntl_attempt Process start fin (Some w) t = None \<longleftrightarrow> ?c \<noteq> None"
    by (simp add: fcntl_attempt_def)
  ultimately show ?thesis by (auto simp: lock_err_def split: option.splits)
qed

text \<open>
  C13: No lost wake-up. When a set or unlock reports that it released nothing (so no waiter is woken), every
  owner still holds at least what it held at every byte: a waiter it did not wake could not have
  been let in by it.
\<close>

theorem unreleased_keeps:
  assumes wf: "table_wf t" and sf: "start < fin" "fin \<le> TO_END"
    and set: "table_set t ow start fin kind = (False, t')" and h: "held t o' b = Some v"
  shows "\<exists>v'. held t' o' b = Some v' \<and> (v \<longrightarrow> v')"
proof (cases "o' = ow \<and> start \<le> b \<and> b < fin")
  case True
  obtain r where r: "r \<in> set (own ow t)" "covers r b" "lr_write r = v"
    using h held_iff [OF wf] True by blast
  then have "overlaps r start fin" using True by (simp add: overlaps_def covers_def)
  moreover have "\<not> (\<exists>r \<in> set (own ow t). overlaps r start fin \<and> (kind \<noteq> Some True \<or> lr_write r))"
    using set by (simp add: table_set_def Let_def)
  ultimately have "kind = Some True" using r(1) by blast
  then show ?thesis using table_set_held [OF wf sf, of ow kind o' b] set True by auto
next
  case False
  then have "held t' o' b = held t o' b"
    using table_set_held [OF wf sf, of ow kind o' b] set by auto
  then show ?thesis using h by simp
qed

theorem setlk_exact_witness:
  "let fl = \<lparr>l_type = F_RDLCK, l_whence = SEEK_SET, l_start = 8, l_len = 8, l_pid = 0\<rparr>;
       target = \<lparr>readable = True, writable = True, cursor = 0, file_len = 0, description = 3\<rparr>
   in \<exists>t' woke. locks_fcntl Linux 1 F_SETLK (Some fl) (0, 0) target example_table False [] =
        Some (Inr fl, Some t', woke) \<and> held t' Process 4 = Some True \<and> held t' Process 9 = Some False"
proof -
  let ?fl = "\<lparr>l_type = F_RDLCK, l_whence = SEEK_SET, l_start = 8, l_len = 8, l_pid = 0\<rparr>"
  let ?tg = "\<lparr>readable = True, writable = True, cursor = 0, file_len = 0, description = 3\<rparr>"
  have wf: "table_wf example_table" using reachable_ok [OF example_table_reachable] by (simp add: locks_ok_def)
  have sp: "span ?fl ?tg = Inr (8, 16)"
    by (simp add: span_def span_base_def span_ends_def ok_or_def checked_add_i64_def)
  have held: "held example_table o' b = (if o' = Process \<and> b < 10 then Some True
      else if o' = Description 7 \<and> 10 \<le> b \<and> b < TO_END then Some False else None)" for o' b
    by (auto simp: held_def example_table_eq covers_def)
  have no: "\<not> (\<exists>w o' b. Some False = Some w \<and> o' \<noteq> Process \<and> 8 \<le> b \<and> b < 16 \<and>
      (held example_table o' b = Some True \<or> w \<and> held example_table o' b \<noteq> None))"
    by (auto simp: held split: if_splits)
  obtain t' woke where "locks_fcntl Linux 1 F_SETLK (Some ?fl) (0, 0) ?tg example_table False [] =
      Some (Inr ?fl, Some t', woke)"
    "\<forall>o' b. held t' o' b = (if o' = Process \<and> 8 \<le> b \<and> b < 16 then Some False else held example_table o' b)"
    using setlk_exact [OF wf sp, of "Some False" Linux 1 "(0, 0)" False "[]", unfolded if_not_P [OF no]]
    by (auto simp: lock_kind_def)
  then show ?thesis by (auto simp: held Let_def)
qed

theorem getlk_foretells_witness:
  "\<exists>fl'. locks_fcntl Linux 1 F_GETLK (Some \<lparr>l_type = F_WRLCK, l_whence = SEEK_SET, l_start = 8, l_len = 8, l_pid = 0\<rparr>)
     (0, 0) \<lparr>readable = True, writable = True, cursor = 0, file_len = 0, description = 3\<rparr> example_table False [] =
     Some (Inr fl', None, False) \<and> l_type fl' = F_RDLCK \<and> l_start fl' = 10 \<and> l_len fl' = 0"
proof -
  let ?fl = "\<lparr>l_type = F_WRLCK, l_whence = SEEK_SET, l_start = 8, l_len = 8, l_pid = 0\<rparr>"
  let ?tg = "\<lparr>readable = True, writable = True, cursor = 0, file_len = 0, description = 3\<rparr>"
  have sp: "span ?fl ?tg = Inr (8, 16)"
    by (simp add: span_def span_base_def span_ends_def ok_or_def checked_add_i64_def)
  obtain fl' where fl': "locks_fcntl Linux 1 F_GETLK (Some ?fl) (0, 0) ?tg example_table False [] = Some (Inr fl', None, False)"
    using getlk_foretells [OF sp, of True Linux 1 "(0, 0)" example_table False "[]"] by (auto simp: lock_kind_def)
  then have "fl' = describe 1 ?fl (conflict example_table Process 8 16 True)"
    by (simp add: locks_fcntl_def classify_def sp lock_kind_def Let_def)
  then show ?thesis
    using fl' by (simp add: conflict_def example_table_eq overlaps_def TO_END_def U64_MAX_eq describe_def as_i64_def)
qed

theorem unreleased_keeps_witness:
  "\<exists>t'. table_set example_table (Description 7) 10 20 (Some True) = (False, t') \<and>
     held t' (Description 7) 25 = Some False \<and> (\<exists>v'. held t' (Description 7) 12 = Some v')"
proof -
  let ?t = "snd (table_set example_table (Description 7) 10 20 (Some True))"
  have wf: "table_wf example_table" using reachable_ok [OF example_table_reachable] by (simp add: locks_ok_def)
  have eq: "table_set example_table (Description 7) 10 20 (Some True) = (False, ?t)"
    by (simp add: table_set_def Let_def example_table_eq)
  have held: "held example_table (Description 7) b = Some False" if "10 \<le> b" "b < 100" for b
    using that by (simp add: held_def example_table_eq covers_def TO_END_def U64_MAX_eq)
  have "held ?t (Description 7) 25 = Some False"
    using table_set_held [OF wf, of 10 20 "Description 7" "Some True" "Description 7" 25] held [of 25]
    by (simp add: TO_END_def U64_MAX_eq)
  moreover have "\<exists>v'. held ?t (Description 7) 12 = Some v'"
    using unreleased_keeps [OF wf _ _ eq held [of 12]] by (auto simp: TO_END_def U64_MAX_eq)
  ultimately show ?thesis using eq by blast
qed

text \<open>
  C18: Two threads that lock one description at once can leave it two entries, because Linux's \<^verbatim>\<open>flock\<close>
  looks for a held lock and takes the new one in separate critical sections. Both asked for a
  shared lock; a later upgrade replaces only one of the entries, and the following downgrade is answered as done
  while the description still excludes everyone else.
\<close>

theorem flock_race_keeps_exclusive:
  "\<exists>tB tA tU.
     locks_flock Linux 1 LOCK_SH table_default id False [] = (Inr (), Some tB, False) \<and>
     locks_flock Linux 1 LOCK_SH table_default (\<lambda>_. tB) False [] = (Inr (), Some tA, False) \<and>
     locks_flock Linux 1 LOCK_EX tA id False [] = (Inr (), Some tU, True) \<and>
     locks_flock Linux 1 LOCK_SH tU id False [] = (Inr (), None, False) \<and>
     locks_flock Linux 2 (LOCK_SH OR LOCK_NB) tU id False [] = (Inl EAGAIN, None, False)"
proof -
  let ?t = "\<lambda>fs. \<lparr>records = [], flocks = fs\<rparr>"
  note defs = locks_flock_def operation_kind_def FLOCKS_ARE_RECORDS_def flock_convert_def flock_attempt_def
    flock_conflict_def table_default_def LOCK_SH_def LOCK_EX_def LOCK_NB_def LOCK_UN_def Let_def
  show ?thesis
    by (intro exI [of _ "?t [(1, False)]"] exI [of _ "?t [(1, False), (1, False)]"]
        exI [of _ "?t [(1, False), (1, True)]"] conjI) (simp_all add: defs)
qed

end
