(* ===== verification/Clock_Line.thy ===== *)
theory Clock_Line
  imports Prelude
begin

text \<open>
  \<^verbatim>\<open>Line\<close> of \<^verbatim>\<open>crates/snare/src/clock.rs\<close>: virtual time as a line through real time, the rate in
  32.32 fixed point, clamped to a horizon. The line is monotone and never passes its horizon, and the
  real time at which it reaches a value is computed exactly unless it saturates. A rate is a
  rational number or infinity: every finite \<^verbatim>\<open>f64\<close> is a rational, and scaling one by \<open>2 ^ 32\<close> is exact.
\<close>

record line =
  anchor_v :: nat
  anchor_real :: nat
  rate_q32 :: nat
  horizon :: nat

definition value_at :: "line \<Rightarrow> nat \<Rightarrow> nat" where
  "value_at l rl =
     (let dr = saturating_sub rl (anchor_real l);
          dv = drop_bit 32 (dr * rate_q32 l);
          v = min (anchor_v l + dv) U64_MAX
      in min v (horizon l))"

definition real_at :: "line \<Rightarrow> nat \<Rightarrow> nat option" where
  "real_at l v =
     (if v > horizon l then None
      else if v \<le> anchor_v l then Some (anchor_real l)
      else if rate_q32 l = 0 then None
      else let dr = div_ceil (push_bit 32 (v - anchor_v l)) (rate_q32 l)
           in Some (min (anchor_real l + dr) U64_MAX))"

datatype clock_rate = Finite rat | Infinite

definition MAX_RATE :: rat where
  "MAX_RATE = 1000000"

text \<open>Clamped to \<open>[0, MAX_RATE]\<close>, scaled, and rounded half away from zero.\<close>

definition rate_to_q32 :: "clock_rate \<Rightarrow> nat" where
  "rate_to_q32 r =
     (let x = (case r of Infinite \<Rightarrow> MAX_RATE | Finite q \<Rightarrow> max 0 (min q MAX_RATE))
      in nat \<lfloor>x * 2 ^ 32 + 1 / 2\<rfloor>)"

text \<open>\<^verbatim>\<open>validate_rate\<close>: whether the assertions hold.\<close>

definition validate_rate :: "clock_rate \<Rightarrow> bool \<Rightarrow> bool" where
  "validate_rate r deterministic =
     (case r of Infinite \<Rightarrow> True | Finite q \<Rightarrow> q \<ge> 0 \<and> \<not> (deterministic \<and> q > 0))"

definition line_wf :: "line \<Rightarrow> bool" where
  "line_wf l \<longleftrightarrow> anchor_v l \<le> U64_MAX \<and> horizon l \<le> U64_MAX"

lemma value_at_eq:
  "value_at l rl = min (min (anchor_v l + (rl - anchor_real l) * rate_q32 l div 2 ^ 32) U64_MAX) (horizon l)"
  by (simp add: value_at_def saturating_sub_def drop_bit_eq_div Let_def)

lemma value_at_mono: "rl \<le> rl' \<Longrightarrow> value_at l rl \<le> value_at l rl'"
proof -
  assume "rl \<le> rl'"
  then have "(rl - anchor_real l) * rate_q32 l div 2 ^ 32 \<le> (rl' - anchor_real l) * rate_q32 l div 2 ^ 32"
    by (intro div_le_mono mult_le_mono1) simp
  then show ?thesis unfolding value_at_eq by linarith
qed

lemma value_at_horizon: "value_at l rl \<le> horizon l"
  by (simp add: value_at_eq)

lemma value_at_u64 [simp]: "value_at l rl \<le> U64_MAX"
  by (simp add: value_at_eq)

lemma value_at_anchor: "anchor_v l \<le> U64_MAX \<Longrightarrow> min (anchor_v l) (horizon l) \<le> value_at l rl"
  by (simp add: value_at_eq min_le_iff_disj)

lemma value_at_stopped: "rate_q32 l = 0 \<Longrightarrow> value_at l rl = min (min (anchor_v l) U64_MAX) (horizon l)"
  by (simp add: value_at_eq)

lemma value_at_ge_iff:
  assumes "line_wf l" "v \<le> horizon l" "anchor_v l < v"
  shows "v \<le> value_at l rl \<longleftrightarrow> (v - anchor_v l) * 2 ^ 32 \<le> (rl - anchor_real l) * rate_q32 l"
proof -
  have "v \<le> U64_MAX" using assms by (simp add: line_wf_def)
  then have "v \<le> value_at l rl \<longleftrightarrow> v - anchor_v l \<le> (rl - anchor_real l) * rate_q32 l div 2 ^ 32"
    unfolding value_at_eq using assms by linarith
  also have "\<dots> \<longleftrightarrow> (v - anchor_v l) * 2 ^ 32 \<le> (rl - anchor_real l) * rate_q32 l"
    by (rule less_eq_div_iff_mult_less_eq) simp
  finally show ?thesis .
qed

lemma real_at_None_iff:
  assumes "line_wf l"
  shows "real_at l v = None \<longleftrightarrow> (\<forall>rl. value_at l rl < v)"
proof (cases "v \<le> horizon l \<and> anchor_v l < v")
  case True
  have "\<exists>rl. v \<le> value_at l rl" if "0 < rate_q32 l"
  proof -
    have "(v - anchor_v l) * 2 ^ 32 \<le> (anchor_real l + (v - anchor_v l) * 2 ^ 32 - anchor_real l) * rate_q32 l"
      using that by simp
    then show ?thesis using value_at_ge_iff [OF assms] True by blast
  qed
  moreover have "\<not> v \<le> value_at l rl" if "rate_q32 l = 0" for rl
    using value_at_ge_iff [OF assms, of v rl] True that by simp
  moreover have "real_at l v = None \<longleftrightarrow> rate_q32 l = 0" using True by (simp add: real_at_def Let_def)
  ultimately show ?thesis by (metis gr_zeroI not_le)
next
  case False
  show ?thesis
  proof (cases "v \<le> horizon l")
    case True
    then have "v \<le> value_at l rl" for rl
      using False value_at_anchor [of l rl] assms by (simp add: line_wf_def)
    then show ?thesis using False True by (simp add: real_at_def not_less [symmetric])
  next
    case False
    then have "value_at l rl < v" for rl using value_at_horizon [of l rl] by linarith
    then show ?thesis using False by (simp add: real_at_def)
  qed
qed

text \<open>
  C7: The line's inverse is exact. If a line reaches \<open>v\<close> at all and the computed real time does not
  saturate at \<^verbatim>\<open>u64::MAX\<close>, then at that real time the line reads at least \<open>v\<close>, and at
  every earlier real time after the anchor it reads less; and the inverse is \<open>None\<close> exactly when the
  line never reads \<open>v\<close>.
\<close>

theorem real_at_earliest:
  assumes wf: "line_wf l"
  shows "(real_at l v = None \<longleftrightarrow> (\<forall>rl. value_at l rl < v)) \<and>
    (\<forall>t. real_at l v = Some t \<longrightarrow> t < U64_MAX \<longrightarrow>
       v \<le> value_at l t \<and> (\<forall>rl. anchor_real l \<le> rl \<longrightarrow> rl < t \<longrightarrow> value_at l rl < v))"
proof (intro conjI allI impI real_at_None_iff [OF wf])
  fix t assume t: "real_at l v = Some t" "t < U64_MAX"
  have vh: "v \<le> horizon l" using t by (auto simp: real_at_def split: if_splits)
  show "v \<le> value_at l t"
  proof (cases "v \<le> anchor_v l")
    case True
    then show ?thesis using value_at_anchor [of l t] vh wf by (simp add: line_wf_def)
  next
    case False
    let ?d = "div_ceil ((v - anchor_v l) * 2 ^ 32) (rate_q32 l)"
    have q: "0 < rate_q32 l" and eq: "t = anchor_real l + ?d"
      using t False by (auto simp: real_at_def push_bit_eq_mult Let_def split: if_splits)
    have "(v - anchor_v l) * 2 ^ 32 \<le> ?d * rate_q32 l" using div_ceil_ge [OF q] by blast
    then show ?thesis using value_at_ge_iff [OF wf vh] False eq by simp
  qed
  fix rl assume rl: "anchor_real l \<le> rl" "rl < t"
  have False: "\<not> v \<le> anchor_v l" using t rl by (auto simp: real_at_def split: if_splits)
  let ?d = "div_ceil ((v - anchor_v l) * 2 ^ 32) (rate_q32 l)"
  have q: "0 < rate_q32 l" and eq: "t = anchor_real l + ?d"
    using t False by (auto simp: real_at_def push_bit_eq_mult Let_def split: if_splits)
  have "rl - anchor_real l < ?d" using rl eq by linarith
  then have "(rl - anchor_real l) * rate_q32 l < (v - anchor_v l) * 2 ^ 32"
    using div_ceil_least [OF q] by (meson not_le)
  then show "value_at l rl < v" using value_at_ge_iff [OF wf vh, of rl] False by linarith
qed

theorem real_at_earliest_witness:
  "real_at \<lparr>anchor_v = 100, anchor_real = 7, rate_q32 = 3 * 2 ^ 31, horizon = U64_MAX\<rparr> 110 = Some 14 \<and>
   110 \<le> value_at \<lparr>anchor_v = 100, anchor_real = 7, rate_q32 = 3 * 2 ^ 31, horizon = U64_MAX\<rparr> 14"
proof -
  let ?l = "\<lparr>anchor_v = 100, anchor_real = 7, rate_q32 = 3 * 2 ^ 31, horizon = U64_MAX\<rparr>"
  have "line_wf ?l" by (simp add: line_wf_def U64_MAX_eq)
  moreover have "real_at ?l 110 = Some 14"
    by (simp add: real_at_def div_ceil_def push_bit_eq_mult U64_MAX_eq)
  ultimately show ?thesis using real_at_earliest [of ?l 110] by (simp add: U64_MAX_eq)
qed


end
