(* ===== verification/BTree_Map.thy ===== *)
theory BTree_Map
  imports Prelude
begin

text \<open>
  Rust's \<^verbatim>\<open>BTreeMap\<close> as the sources use it: an ordered map, here an association list with strictly
  increasing keys. The lemmas relate every operation to the map of the list and keep the order, so
  that the components can read ranges and first entries off the list.
\<close>

type_synonym ('k, 'v) btree = "('k \<times> 'v) list"

definition bt_wf :: "('k::linorder, 'v) btree \<Rightarrow> bool" where
  "bt_wf m \<longleftrightarrow> sorted_wrt (<) (map fst m)"

abbreviation bt_get :: "('k, 'v) btree \<Rightarrow> 'k \<Rightarrow> 'v option" where
  "bt_get \<equiv> map_of"

primrec bt_set :: "'k::linorder \<Rightarrow> 'v \<Rightarrow> ('k, 'v) btree \<Rightarrow> ('k, 'v) btree" where
  "bt_set k v [] = [(k, v)]"
| "bt_set k v (p # m) =
     (if k < fst p then (k, v) # p # m
      else if k = fst p then (k, v) # m
      else p # bt_set k v m)"

definition bt_remove :: "'k \<Rightarrow> ('k, 'v) btree \<Rightarrow> ('k, 'v) btree" where
  "bt_remove k m = filter (\<lambda>p. fst p \<noteq> k) m"

text \<open>The keys after \<open>k\<close>, and the part at or before it.\<close>

definition bt_after :: "'k::linorder \<Rightarrow> ('k, 'v) btree \<Rightarrow> ('k, 'v) btree" where
  "bt_after k m = filter (\<lambda>p. k < fst p) m"

definition bt_upto :: "'k::linorder \<Rightarrow> ('k, 'v) btree \<Rightarrow> ('k, 'v) btree" where
  "bt_upto k m = filter (\<lambda>p. fst p \<le> k) m"

definition bt_from :: "'k::linorder \<Rightarrow> ('k, 'v) btree \<Rightarrow> ('k, 'v) btree" where
  "bt_from k m = filter (\<lambda>p. k \<le> fst p) m"

definition bt_first :: "('k, 'v) btree \<Rightarrow> 'k option" where
  "bt_first m = (case m of [] \<Rightarrow> None | p # _ \<Rightarrow> Some (fst p))"

lemma bt_wf_Nil [simp]: "bt_wf []"
  by (simp add: bt_wf_def)

lemma bt_wf_Cons: "bt_wf (p # m) \<longleftrightarrow> (\<forall>q \<in> set m. fst p < fst q) \<and> bt_wf m"
  by (simp add: bt_wf_def)

lemma bt_wf_filter [simp]: "bt_wf m \<Longrightarrow> bt_wf (filter P m)"
  by (induction m) (auto simp: bt_wf_Cons)

lemma bt_wf_distinct: "bt_wf m \<Longrightarrow> distinct (map fst m)"
  by (simp add: bt_wf_def strict_sorted_iff)

lemma bt_wf_remove [simp, wf_intros]: "bt_wf m \<Longrightarrow> bt_wf (bt_remove k m)"
  by (simp add: bt_remove_def)

lemma bt_wf_after [simp, wf_intros]: "bt_wf m \<Longrightarrow> bt_wf (bt_after k m)"
  by (simp add: bt_after_def)

lemma set_bt_set:
  "bt_wf m \<Longrightarrow> set (bt_set k v m) = insert (k, v) {p \<in> set m. fst p \<noteq> k}"
  by (induction m) (auto simp: bt_wf_Cons)

lemma bt_wf_set [simp, wf_intros]: "bt_wf m \<Longrightarrow> bt_wf (bt_set k v m)"
  by (induction m) (auto simp: bt_wf_Cons set_bt_set)

lemma bt_get_set [simp]: "bt_get (bt_set k v m) = (bt_get m)(k \<mapsto> v)" if "bt_wf m"
  using that by (induction m) (auto simp: bt_wf_Cons fun_eq_iff)

lemma bt_get_filter_key: "bt_get (filter (\<lambda>p. P (fst p)) m) k = (if P k then bt_get m k else None)"
  by (induction m) auto

lemma bt_get_remove [simp]: "bt_get (bt_remove k m) = (bt_get m)(k := None)"
  using bt_get_filter_key [of "\<lambda>x. x \<noteq> k" m] by (auto simp: bt_remove_def fun_eq_iff)

lemma bt_get_after [simp]: "bt_get (bt_after t m) k = (if t < k then bt_get m k else None)"
  by (simp add: bt_after_def bt_get_filter_key)

lemma bt_get_upto [simp]: "bt_get (bt_upto t m) k = (if k \<le> t then bt_get m k else None)"
  unfolding bt_upto_def by (rule bt_get_filter_key [of "\<lambda>x. x \<le> t"])

lemma bt_get_from [simp]: "bt_get (bt_from t m) k = (if t \<le> k then bt_get m k else None)"
  unfolding bt_from_def by (rule bt_get_filter_key [of "\<lambda>x. t \<le> x"])

lemma bt_wf_from [simp, wf_intros]: "bt_wf m \<Longrightarrow> bt_wf (bt_from k m)"
  by (simp add: bt_from_def)

lemma bt_mem_get: "bt_wf m \<Longrightarrow> (k, v) \<in> set m \<longleftrightarrow> bt_get m k = Some v"
  using bt_wf_distinct by (metis map_of_eq_Some_iff)

lemma bt_first_None [simp]: "bt_first m = None \<longleftrightarrow> m = []"
  by (simp add: bt_first_def split: list.split)

text \<open>The first key is the least one.\<close>

lemma bt_first_Some:
  assumes "bt_wf m"
  shows "bt_first m = Some k \<longleftrightarrow> bt_get m k \<noteq> None \<and> (\<forall>k'. bt_get m k' \<noteq> None \<longrightarrow> k \<le> k')"
proof (cases m)
  case (Cons p m')
  have least: "fst p \<le> k'" if "bt_get m k' \<noteq> None" for k'
    using that assms Cons by (auto simp: bt_wf_Cons split: if_splits dest!: map_of_SomeD)
  have "bt_get m (fst p) \<noteq> None" using Cons by (cases p) simp
  then have "k = fst p" if "bt_get m k \<noteq> None" "\<forall>k'. bt_get m k' \<noteq> None \<longrightarrow> k \<le> k'"
    using that least by (meson antisym)
  moreover have "bt_first m = Some (fst p)" using Cons by (simp add: bt_first_def)
  ultimately show ?thesis using least \<open>bt_get m (fst p) \<noteq> None\<close> by auto
qed (simp add: bt_first_def)

lemma bt_after_first:
  assumes "bt_wf m"
  shows "bt_first (bt_after t m) = Some k \<longleftrightarrow>
    t < k \<and> bt_get m k \<noteq> None \<and> (\<forall>k'. t < k' \<and> bt_get m k' \<noteq> None \<longrightarrow> k \<le> k')"
  using bt_first_Some [of "bt_after t m" k] assms by (auto split: if_splits)

lemma bt_after_Nil: "bt_wf m \<Longrightarrow> bt_after t m = [] \<longleftrightarrow> (\<forall>k. t < k \<longrightarrow> bt_get m k = None)"
  by (force simp: bt_after_def filter_empty_conv map_of_eq_None_iff)

lemma bt_split: "bt_wf m \<Longrightarrow> m = bt_upto t m @ bt_after t m"
proof (induction m)
  case (Cons p m)
  show ?case
  proof (cases "fst p \<le> t")
    case False
    then have "\<forall>q \<in> set m. t < fst q" using Cons.prems by (force simp: bt_wf_Cons)
    then have "bt_upto t m = []" "bt_after t m = m"
      by (auto simp: bt_upto_def bt_after_def filter_empty_conv filter_id_conv)
    then show ?thesis using False by (simp add: bt_upto_def bt_after_def)
  qed (use Cons in \<open>simp_all add: bt_wf_Cons bt_upto_def bt_after_def\<close>)
qed (simp add: bt_upto_def bt_after_def)

lemma bt_from_first:
  assumes "bt_wf m"
  shows "bt_first (bt_from t m) = Some k \<longleftrightarrow>
    t \<le> k \<and> bt_get m k \<noteq> None \<and> (\<forall>k'. t \<le> k' \<and> bt_get m k' \<noteq> None \<longrightarrow> k \<le> k')"
  using bt_first_Some [of "bt_from t m" k] assms by (auto split: if_splits)

lemma bt_from_None: "bt_wf m \<Longrightarrow> bt_first (bt_from t m) = None \<longleftrightarrow> (\<forall>k. t \<le> k \<longrightarrow> bt_get m k = None)"
  by (force simp: bt_from_def filter_empty_conv map_of_eq_None_iff)

end
