(* ===== verification/Timer_Table.thy ===== *)
theory Timer_Table
  imports BTree_Map
begin

text \<open>
  The timer tables of \<^verbatim>\<open>crates/snare/src/clock.rs\<close>: what is due at each instant
  (\<^verbatim>\<open>Entry\<close>), the lineages waiting there (\<^verbatim>\<open>TimerOwners\<close>, four kept inline), and the index from
  a registered wake to its place. The owners refine a plain list; the index is shown to name
  exactly the registered wakes, so cancelling one finds it, removes it alone and never fails. A waker is an
  opaque value of type \<open>'w\<close>. Counts of waits and events are natural numbers: each is a live wait, far
  fewer than \<^verbatim>\<open>u32::MAX\<close>.
\<close>

section \<open>The owners of an instant\<close>

record timer_owners =
  to_inline :: "nat list"
  to_len :: nat
  to_overflow :: "nat list"

definition to_default :: timer_owners where
  "to_default = \<lparr>to_inline = [0, 0, 0, 0], to_len = 0, to_overflow = []\<rparr>"

definition to_iter :: "timer_owners \<Rightarrow> nat list" where
  "to_iter ow = take (min (to_len ow) (length (to_inline ow))) (to_inline ow) @ to_overflow ow"

definition to_first :: "timer_owners \<Rightarrow> nat option" where
  "to_first ow = (case to_iter ow of [] \<Rightarrow> None | x # _ \<Rightarrow> Some x)"

definition to_push :: "timer_owners \<Rightarrow> nat \<Rightarrow> timer_owners" where
  "to_push ow x =
     (if to_len ow < length (to_inline ow)
      then ow\<lparr>to_inline := (to_inline ow)[to_len ow := x], to_len := to_len ow + 1\<rparr>
      else ow\<lparr>to_overflow := to_overflow ow @ [x], to_len := to_len ow + 1\<rparr>)"

definition to_pop :: "timer_owners \<Rightarrow> nat option \<times> timer_owners" where
  "to_pop ow =
     (if to_len ow = 0 then (None, ow)
      else let n = to_len ow - 1
           in if n \<ge> length (to_inline ow)
              then (if to_overflow ow = [] then None else Some (last (to_overflow ow)),
                    ow\<lparr>to_len := n, to_overflow := butlast (to_overflow ow)\<rparr>)
              else (Some (to_inline ow ! n), ow\<lparr>to_len := n\<rparr>))"

definition to_swap_remove :: "timer_owners \<Rightarrow> nat \<Rightarrow> timer_owners" where
  "to_swap_remove ow i =
     (if i \<ge> length (to_inline ow)
      then ow\<lparr>to_overflow := swap_remove (to_overflow ow) (i - length (to_inline ow)), to_len := to_len ow - 1\<rparr>
      else case to_pop ow of
        (Some x, ow') \<Rightarrow> if i < to_len ow' then ow'\<lparr>to_inline := (to_inline ow')[i := x]\<rparr> else ow'
      | (None, ow') \<Rightarrow> ow')"

definition to_wf :: "timer_owners \<Rightarrow> bool" where
  "to_wf ow \<longleftrightarrow> length (to_inline ow) = 4 \<and> length (to_overflow ow) = to_len ow - 4"

lemma to_default_wf [simp]: "to_wf to_default" "to_iter to_default = []"
  by (simp_all add: to_wf_def to_default_def to_iter_def)

lemma to_len_iter: "to_wf ow \<Longrightarrow> to_len ow = length (to_iter ow)"
  by (auto simp: to_wf_def to_iter_def)

lemma to_push_iter:
  assumes "to_wf ow"
  shows "to_wf (to_push ow x)" "to_iter (to_push ow x) = to_iter ow @ [x]"
  using assms by (auto simp: to_wf_def to_push_def to_iter_def take_Suc_conv_app_nth take_update_cancel)

text \<open>While at most four lineages wait they are all inline; past four the inline part is full.\<close>

lemma to_iter_cases:
  assumes "to_wf ow"
  obtains (small) "to_len ow \<le> 4" "to_overflow ow = []" "to_iter ow = take (to_len ow) (to_inline ow)"
  | (large) "4 < to_len ow" "to_overflow ow \<noteq> []" "to_iter ow = to_inline ow @ to_overflow ow"
proof (cases "to_len ow \<le> 4")
  case True
  then show thesis using assms small by (simp add: to_wf_def to_iter_def)
next
  case False
  then have "to_overflow ow \<noteq> []" using assms by (auto simp: to_wf_def)
  then show thesis using assms False large by (simp add: to_wf_def to_iter_def)
qed

lemma to_pop_iter:
  assumes "to_wf ow"
  shows "to_wf (snd (to_pop ow)) \<and> to_iter (snd (to_pop ow)) = butlast (to_iter ow) \<and>
    fst (to_pop ow) = (if to_iter ow = [] then None else Some (last (to_iter ow)))"
  using assms
proof (cases rule: to_iter_cases)
  case small
  then show ?thesis
    using assms by (cases "to_len ow")
      (auto simp: to_wf_def to_pop_def to_iter_def Let_def butlast_take last_conv_nth min_def)
next
  case large
  then show ?thesis
    using assms by (auto simp: to_wf_def to_pop_def to_iter_def Let_def butlast_append min_def)
qed

lemma swap_remove_append:
  "length xs \<le> i \<Longrightarrow> ys \<noteq> [] \<Longrightarrow> swap_remove (xs @ ys) i = xs @ swap_remove ys (i - length xs)"
  by (simp add: swap_remove_def list_update_append butlast_append)

lemma to_swap_remove_iter:
  assumes "to_wf ow" "i < to_len ow"
  shows "to_wf (to_swap_remove ow i) \<and> to_iter (to_swap_remove ow i) = swap_remove (to_iter ow) i"
proof (cases "4 \<le> i")
  case True
  then have large: "to_overflow ow \<noteq> []" "to_iter ow = to_inline ow @ to_overflow ow"
    using assms to_iter_cases [OF assms(1)] by force+
  have len: "length (to_inline ow) = 4" "length (to_overflow ow) = to_len ow - 4"
    using assms(1) by (simp_all add: to_wf_def)
  then show ?thesis
    using True large assms swap_remove_append [of "to_inline ow" i "to_overflow ow"]
    by (simp add: to_swap_remove_def to_wf_def to_iter_def)
next
  case False
  note pop = to_pop_iter [OF assms(1)]
  obtain x ow' where p: "to_pop ow = (Some x, ow')" "x = last (to_iter ow)"
    using pop assms to_len_iter [OF assms(1)] by (cases "to_pop ow") (auto split: if_splits)
  have ow': "to_wf ow'" "to_iter ow' = butlast (to_iter ow)" using pop p by auto
  have len: "length (to_inline ow) = 4" "length (to_inline ow') = 4"
    using assms(1) ow'(1) by (simp_all add: to_wf_def)
  have upd: "to_iter (ow'\<lparr>to_inline := (to_inline ow')[i := x]\<rparr>) = (to_iter ow')[i := x]" if "i < to_len ow'"
    using that False len by (auto simp: to_iter_def list_update_append take_update_swap min_def)
  have sr: "swap_remove (to_iter ow) i = (butlast (to_iter ow))[i := x]"
    by (auto simp: swap_remove_def butlast_list_update p(2) list_update_beyond)
  have "to_len ow' = length (to_iter ow) - 1" using to_len_iter [OF ow'(1)] ow'(2) by simp
  then show ?thesis
    using False len p(1) upd sr ow' by (auto simp: to_swap_remove_def to_wf_def list_update_beyond)
qed

section \<open>Entries and tables\<close>

record 'w entry =
  e_waits :: nat
  e_events :: nat
  e_wakers :: "(nat \<times> nat option \<times> 'w) list"
  e_awaiting :: "nat list"
  e_owners :: timer_owners

definition entry_default :: "'w entry" where
  "entry_default = \<lparr>e_waits = 0, e_events = 0, e_wakers = [], e_awaiting = [], e_owners = to_default\<rparr>"

definition e_is_empty :: "'w entry \<Rightarrow> bool" where
  "e_is_empty e = (e_waits e = 0 \<and> e_events e = 0 \<and> e_wakers e = [] \<and> e_awaiting e = [])"

definition U32_MAX :: nat where
  "U32_MAX = 2 ^ 32 - 1"

definition e_count :: "'w entry \<Rightarrow> nat" where
  "e_count e = e_waits e + e_events e + min (length (e_wakers e)) U32_MAX"

datatype wake_slot = Pending nat | Held nat

record 'w timers =
  tm_entries :: "(nat, 'w entry) btree"
  tm_wakes :: "nat \<rightharpoonup> nat \<times> wake_slot"

definition timers_default :: "'w timers" where
  "timers_default = \<lparr>tm_entries = [], tm_wakes = Map.empty\<rparr>"

text \<open>\<^verbatim>\<open>entry(at).or_default()\<close>.\<close>

definition entry_at :: "'w timers \<Rightarrow> nat \<Rightarrow> 'w entry" where
  "entry_at t at' = (case bt_get (tm_entries t) at' of Some e \<Rightarrow> e | None \<Rightarrow> entry_default)"

definition set_entry :: "nat \<Rightarrow> 'w entry \<Rightarrow> 'w timers \<Rightarrow> 'w timers" where
  "set_entry at' e t = t\<lparr>tm_entries := bt_set at' e (tm_entries t)\<rparr>"

text \<open>Puts an entry back, or takes it out of the table if nothing is due there any more.\<close>

definition put_entry :: "nat \<Rightarrow> 'w entry \<Rightarrow> 'w timers \<Rightarrow> 'w timers" where
  "put_entry at' e t =
     (if e_is_empty e then t\<lparr>tm_entries := bt_remove at' (tm_entries t)\<rparr> else set_entry at' e t)"

definition tm_register_wake :: "'w timers \<Rightarrow> nat \<Rightarrow> nat \<Rightarrow> nat option \<Rightarrow> 'w \<Rightarrow> 'w timers" where
  "tm_register_wake t at' id' owner w =
     (let e = entry_at t at';
          t1 = t\<lparr>tm_wakes := (tm_wakes t)(id' \<mapsto> (at', Pending (length (e_wakers e))))\<rparr>
      in set_entry at' (e\<lparr>e_wakers := e_wakers e @ [(id', owner, w)]\<rparr>) t1)"

text \<open>The drain of an entry's wakers: each held ones joins the awaiting list, the others leave the index.\<close>

fun drain_wakers ::
  "nat \<Rightarrow> bool \<Rightarrow> (nat \<times> nat option \<times> 'w) list \<Rightarrow> nat list \<Rightarrow> (nat \<rightharpoonup> nat \<times> wake_slot) \<Rightarrow>
   nat list \<times> (nat \<rightharpoonup> nat \<times> wake_slot) \<times> 'w list" where
  "drain_wakers at' hold [] awaiting index = (awaiting, index, [])"
| "drain_wakers at' hold ((id', _, w) # ws) awaiting index =
     (let (awaiting', index', out) =
            (if hold then drain_wakers at' hold ws (awaiting @ [id']) (index(id' \<mapsto> (at', Held (length awaiting))))
             else drain_wakers at' hold ws awaiting (index(id' := None)))
      in (awaiting', index', w # out))"

text \<open>\<^verbatim>\<open>None\<close> is the panic of taking wakers where no entry is.\<close>

definition tm_take_wakers_at :: "'w timers \<Rightarrow> nat \<Rightarrow> bool \<Rightarrow> (bool \<times> 'w list \<times> 'w timers) option" where
  "tm_take_wakers_at t at' hold =
     (case bt_get (tm_entries t) at' of
        None \<Rightarrow> None
      | Some e \<Rightarrow>
          let (awaiting, index, out) = drain_wakers at' hold (e_wakers e) (e_awaiting e) (tm_wakes t)
          in Some (e_wakers e \<noteq> [], out,
                set_entry at' (e\<lparr>e_wakers := [], e_awaiting := awaiting\<rparr>) (t\<lparr>tm_wakes := index\<rparr>)))"

text \<open>
  \<^verbatim>\<open>cancel_wake\<close>: the outer \<open>None\<close> is a panic (no entry, an index out of range or a failed assertion), the
  inner one a wake that is not registered.
\<close>

definition tm_cancel_wake :: "'w timers \<Rightarrow> nat \<Rightarrow> ('w option option \<times> 'w timers) option" where
  "tm_cancel_wake t id' =
     (case tm_wakes t id' of
        None \<Rightarrow> Some (None, t)
      | Some (at', slot) \<Rightarrow>
          let index = (tm_wakes t)(id' := None)
          in case bt_get (tm_entries t) at' of
            None \<Rightarrow> None
          | Some e \<Rightarrow>
              (case slot of
                 Pending i \<Rightarrow>
                   if i < length (e_wakers e) \<and> fst (e_wakers e ! i) = id' then
                     let ws = swap_remove (e_wakers e) i;
                         index' = (if i < length ws then index(fst (ws ! i) \<mapsto> (at', Pending i)) else index)
                     in Some (Some (Some (snd (snd (e_wakers e ! i)))),
                          put_entry at' (e\<lparr>e_wakers := ws\<rparr>) (t\<lparr>tm_wakes := index'\<rparr>))
                   else None
               | Held i \<Rightarrow>
                   if i < length (e_awaiting e) \<and> e_awaiting e ! i = id' then
                     let aw = swap_remove (e_awaiting e) i;
                         index' = (if i < length aw then index(aw ! i \<mapsto> (at', Held i)) else index)
                     in Some (Some None, put_entry at' (e\<lparr>e_awaiting := aw\<rparr>) (t\<lparr>tm_wakes := index'\<rparr>))
                   else None))"

definition reached_wait :: "'w timers \<Rightarrow> nat \<Rightarrow> bool" where
  "reached_wait t now = (\<exists>(_, e) \<in> set (bt_upto now (tm_entries t)). e_waits e > 0 \<or> e_awaiting e \<noteq> [])"

text \<open>\<^verbatim>\<open>take_upto\<close>: \<^verbatim>\<open>split_off(upto.saturating_add(1))\<close> keeps the later part.\<close>

definition entry_ids :: "'w entry \<Rightarrow> nat list" where
  "entry_ids e = e_awaiting e @ map fst (e_wakers e)"

definition take_upto :: "'w timers \<Rightarrow> nat \<Rightarrow> bool \<times> 'w list \<times> 'w timers" where
  "take_upto t limit =
     (let cut = saturating_add limit 1;
          due = filter (\<lambda>p. fst p < cut) (tm_entries t);
          later = filter (\<lambda>p. cut \<le> fst p) (tm_entries t);
          gone = concat (map (entry_ids \<circ> snd) due)
      in (due \<noteq> [], concat (map (map (snd \<circ> snd) \<circ> e_wakers \<circ> snd) due),
          t\<lparr>tm_entries := later, tm_wakes := (\<lambda>i. if i \<in> set gone then None else tm_wakes t i)\<rparr>))"

section \<open>The index names exactly the registered wakes\<close>

definition place :: "'w timers \<Rightarrow> nat \<Rightarrow> nat \<Rightarrow> wake_slot \<Rightarrow> bool" where
  "place t id' at' slot \<longleftrightarrow> (\<exists>e. bt_get (tm_entries t) at' = Some e \<and>
     (case slot of
        Pending i \<Rightarrow> i < length (e_wakers e) \<and> fst (e_wakers e ! i) = id'
      | Held i \<Rightarrow> i < length (e_awaiting e) \<and> e_awaiting e ! i = id'))"

definition timers_wf :: "'w timers \<Rightarrow> bool" where
  "timers_wf t \<longleftrightarrow> bt_wf (tm_entries t) \<and>
     (\<forall>id' at' slot. tm_wakes t id' = Some (at', slot) \<longleftrightarrow> place t id' at' slot)"

lemma timers_wfD:
  assumes "timers_wf t"
  shows "bt_wf (tm_entries t)" "tm_wakes t id' = Some (at', slot) \<longleftrightarrow> place t id' at' slot"
  using assms by (auto simp: timers_wf_def)

lemma timers_default_wf [simp, wf_intros]: "timers_wf timers_default"
  by (simp add: timers_wf_def timers_default_def place_def)

text \<open>How a change of one entry and of the index shows in the places.\<close>

lemma place_set_entry:
  assumes "bt_wf (tm_entries t)"
  shows "place (set_entry k e (t\<lparr>tm_wakes := index\<rparr>)) id' at' slot \<longleftrightarrow>
    (if at' = k then (case slot of
        Pending i \<Rightarrow> i < length (e_wakers e) \<and> fst (e_wakers e ! i) = id'
      | Held i \<Rightarrow> i < length (e_awaiting e) \<and> e_awaiting e ! i = id')
     else place t id' at' slot)"
  using assms by (simp add: place_def set_entry_def)

lemma place_put_entry:
  assumes "bt_wf (tm_entries t)"
  shows "place (put_entry k e (t\<lparr>tm_wakes := index\<rparr>)) id' at' slot \<longleftrightarrow>
    (if at' = k then (case slot of
        Pending i \<Rightarrow> i < length (e_wakers e) \<and> fst (e_wakers e ! i) = id'
      | Held i \<Rightarrow> i < length (e_awaiting e) \<and> e_awaiting e ! i = id')
     else place t id' at' slot)"
  using assms place_set_entry [OF assms]
  by (auto simp: put_entry_def e_is_empty_def place_def split: wake_slot.splits)

lemma put_entry_index [simp]:
  "tm_wakes (put_entry k e t) = tm_wakes t" "tm_wakes (set_entry k e t) = tm_wakes t"
  by (simp_all add: put_entry_def set_entry_def)

lemma put_entry_bt_wf:
  "bt_wf (tm_entries t) \<Longrightarrow> bt_wf (tm_entries (put_entry k e (t\<lparr>tm_wakes := index\<rparr>)))"
  "bt_wf (tm_entries t) \<Longrightarrow> bt_wf (tm_entries (set_entry k e (t\<lparr>tm_wakes := index\<rparr>)))"
  by (simp_all add: put_entry_def set_entry_def)

lemma timers_wfI:
  "bt_wf (tm_entries t) \<Longrightarrow> (\<And>id' at' slot. tm_wakes t id' = Some (at', slot) \<longleftrightarrow> place t id' at' slot) \<Longrightarrow>
   timers_wf t"
  by (simp add: timers_wf_def)

lemma place_at_entry:
  "place t id' at' slot \<longleftrightarrow> (case slot of
        Pending i \<Rightarrow> i < length (e_wakers (entry_at t at')) \<and> fst (e_wakers (entry_at t at') ! i) = id'
      | Held i \<Rightarrow> i < length (e_awaiting (entry_at t at')) \<and> e_awaiting (entry_at t at') ! i = id')"
  by (auto simp: place_def entry_at_def entry_default_def split: option.splits wake_slot.splits)

text \<open>Registering a wake under a fresh id.\<close>

lemma register_wake_wf [wf_intros]:
  assumes "timers_wf t" "tm_wakes t id' = None"
  shows "timers_wf (tm_register_wake t at' id' ow w)"
proof -
  note d = timers_wfD [OF assms(1)]
  let ?n = "length (e_wakers (entry_at t at'))"
  let ?e = "(entry_at t at')\<lparr>e_wakers := e_wakers (entry_at t at') @ [(id', ow, w)]\<rparr>"
  have eq: "tm_register_wake t at' id' ow w =
      set_entry at' ?e (t\<lparr>tm_wakes := (tm_wakes t)(id' \<mapsto> (at', Pending ?n))\<rparr>)"
    by (simp add: tm_register_wake_def Let_def)
  have fresh: "\<not> place t id' k slot" for k slot using d(2) [of id' k slot] assms(2) by simp
  show ?thesis
    unfolding eq
  proof (rule timers_wfI)
    fix j k slot
    show "tm_wakes (set_entry at' ?e (t\<lparr>tm_wakes := (tm_wakes t)(id' \<mapsto> (at', Pending ?n))\<rparr>)) j = Some (k, slot) \<longleftrightarrow>
      place (set_entry at' ?e (t\<lparr>tm_wakes := (tm_wakes t)(id' \<mapsto> (at', Pending ?n))\<rparr>)) j k slot"
      unfolding place_set_entry [OF d(1)]
      using d(2) [of j k slot] fresh [of k slot] place_at_entry [of t j k slot]
      by (auto simp: nth_append less_Suc_eq split: wake_slot.splits)
  qed (rule put_entry_bt_wf(2) [OF d(1)])
qed

lemma drain_hold:
  "distinct (map fst ws) \<Longrightarrow> drain_wakers at' True ws aw index =
     (aw @ map fst ws,
      \<lambda>j. case position (\<lambda>w. fst w = j) ws of Some i \<Rightarrow> Some (at', Held (length aw + i)) | None \<Rightarrow> index j,
      map (snd \<circ> snd) ws)"
proof (induction ws arbitrary: aw index)
  case (Cons x ws)
  obtain a b c where x: "x = (a, b, c)" by (cases x)
  have none: "position (\<lambda>w. fst w = a) ws = None"
    using Cons.prems unfolding x position_None_iff by (metis distinct.simps(2) fst_conv image_eqI list.simps(9) set_map)
  have dist: "distinct (map fst ws)" using Cons.prems by simp
  show ?case
    unfolding x using none
    by (simp add: Cons.IH [OF dist]) (intro ext, auto split: option.splits)
qed simp

lemma drain_drop:
  "drain_wakers at' False ws aw index =
     (aw, \<lambda>j. if j \<in> fst ` set ws then None else index j, map (snd \<circ> snd) ws)"
proof (induction ws arbitrary: index)
  case (Cons x ws)
  then show ?case using Cons.IH [of "index(fst x := None)"] by (cases x) (auto simp: fun_eq_iff)
qed simp

lemma wakers_distinct:
  assumes "timers_wf t" "bt_get (tm_entries t) at' = Some e"
  shows "distinct (map fst (e_wakers e))"
  unfolding distinct_conv_nth
proof (intro allI impI)
  fix i j assume ij: "i < length (map fst (e_wakers e))" "j < length (map fst (e_wakers e))" "i \<noteq> j"
  have p: "tm_wakes t (fst (e_wakers e ! k)) = Some (at', Pending k)" if "k < length (e_wakers e)" for k
    using timers_wfD(2) [OF assms(1)] assms(2) that by (simp add: place_def)
  show "map fst (e_wakers e) ! i \<noteq> map fst (e_wakers e) ! j"
    using p [of i] p [of j] ij by auto
qed

lemma position_wakers:
  assumes "distinct (map fst ws)"
  shows "position (\<lambda>w. fst w = j) ws = Some i \<longleftrightarrow> i < length ws \<and> fst (ws ! i) = j"
proof
  assume r: "i < length ws \<and> fst (ws ! i) = j"
  have "fst (ws ! k) \<noteq> j" if "k < i" for k
  proof -
    have "map fst ws ! k \<noteq> map fst ws ! i"
      using nth_eq_iff_index_eq [OF assms, of k i] r that by simp
    then show ?thesis using r that by simp
  qed
  then show "position (\<lambda>w. fst w = j) ws = Some i" using r by (simp add: position_Some_iff)
qed (simp add: position_Some_iff)

text \<open>Taking the wakers of an entry never fails, hands out each waker once, and keeps the index exact.\<close>

lemma take_wakers_at_ok:
  assumes wf: "timers_wf t" and e: "bt_get (tm_entries t) at' = Some e"
  shows "\<exists>t'. tm_take_wakers_at t at' hold = Some (e_wakers e \<noteq> [], map (snd \<circ> snd) (e_wakers e), t') \<and>
    timers_wf t' \<and>
    bt_get (tm_entries t') = (bt_get (tm_entries t))(at' \<mapsto>
      e\<lparr>e_wakers := [], e_awaiting := e_awaiting e @ (if hold then map fst (e_wakers e) else [])\<rparr>)"
proof -
  note d = timers_wfD [OF wf]
  let ?ws = "e_wakers e"
  define index where "index = (\<lambda>j. if hold
      then (case position (\<lambda>w. fst w = j) ?ws of
              Some i \<Rightarrow> Some (at', Held (length (e_awaiting e) + i)) | None \<Rightarrow> tm_wakes t j)
      else if j \<in> fst ` set ?ws then None else tm_wakes t j)"
  let ?e = "e\<lparr>e_wakers := [], e_awaiting := e_awaiting e @ (if hold then map fst ?ws else [])\<rparr>"
  let ?t = "set_entry at' ?e (t\<lparr>tm_wakes := index\<rparr>)"
  note dist = wakers_distinct [OF wf e]
  have call: "tm_take_wakers_at t at' hold = Some (?ws \<noteq> [], map (snd \<circ> snd) ?ws, ?t)"
    using dist e by (cases hold) (simp_all add: tm_take_wakers_at_def drain_hold drain_drop index_def)
  have mem: "j \<in> fst ` set ?ws \<longleftrightarrow> (\<exists>i < length ?ws. fst (?ws ! i) = j)" for j
    by (simp add: in_set_conv_nth flip: set_map cong: conj_cong)
  have pend: "tm_wakes t (fst (?ws ! i)) = Some (at', Pending i)" if "i < length ?ws" for i
    using d(2) e that by (simp add: place_def)
  have "timers_wf ?t"
  proof (rule timers_wfI)
    fix j k slot
    have old: "tm_wakes t j = Some (k, slot) \<longleftrightarrow> place t j k slot" by (rule d(2))
    have "tm_wakes ?t j = index j" by simp
    moreover have "index j = Some (k, slot) \<longleftrightarrow> place ?t j k slot"
    proof (cases "j \<in> fst ` set ?ws")
      case True
      then obtain i where i: "i < length ?ws" "fst (?ws ! i) = j" using mem by blast
      have pos: "position (\<lambda>w. fst w = j) ?ws = Some i" using position_wakers [OF dist] i by blast
      have no: "\<not> place t j k (Held m)" "k \<noteq> at' \<Longrightarrow> \<not> place t j k slot" for m
        using d(2) [of j k "Held m"] d(2) [of j k slot] pend [OF i(1)] i(2) by auto
      show ?thesis
      proof (cases "k = at'")
        case at: True
        have "(e_awaiting e @ map fst ?ws) ! m = j \<longleftrightarrow> m = length (e_awaiting e) + i"
          if "m < length (e_awaiting e) + length ?ws" for m
        proof (cases "m < length (e_awaiting e)")
          case True
          then have "e_awaiting e ! m \<noteq> j" using no(1) [of m] at e by (simp add: place_def)
          then show ?thesis using True by (auto simp: nth_append)
        next
          case False
          then have "(e_awaiting e @ map fst ?ws) ! m = fst (?ws ! (m - length (e_awaiting e)))"
            using that by (simp add: nth_append)
          then show ?thesis
            using position_wakers [OF dist, of j "m - length (e_awaiting e)"] pos False that by auto
        qed
        moreover have "e_awaiting e ! m \<noteq> j" if "m < length (e_awaiting e)" for m
          using no(1) [of m] at e that by (simp add: place_def)
        ultimately show ?thesis
          unfolding place_set_entry [OF d(1)] if_P [OF at] index_def using True pos at i
          by (cases hold; cases slot) auto
      next
        case False
        then show ?thesis
          unfolding place_set_entry [OF d(1)] if_not_P [OF False] index_def using True pos no(2) [OF False]
          by (cases hold) auto
      qed
    next
      case False
      then have "position (\<lambda>w. fst w = j) ?ws = None" by (auto simp: position_None_iff)
      then have "index j = tm_wakes t j" using False by (simp add: index_def)
      moreover have "(e_awaiting e @ map fst ?ws) ! m = j \<longleftrightarrow> m < length (e_awaiting e) \<and> e_awaiting e ! m = j"
        if "m < length (e_awaiting e) + length ?ws" for m
        using mem [of j] False that by (auto simp: nth_append)
      moreover have "fst (?ws ! m) \<noteq> j" if "m < length ?ws" for m using mem [of j] False that by blast
      ultimately show ?thesis
        unfolding place_set_entry [OF d(1)] using old e
        by (cases "k = at'"; cases slot; cases hold) (auto simp: place_def)
    qed
    ultimately show "tm_wakes ?t j = Some (k, slot) \<longleftrightarrow> place ?t j k slot" by simp
  qed (rule put_entry_bt_wf(2) [OF d(1)])
  moreover have "bt_get (tm_entries ?t) = (bt_get (tm_entries t))(at' \<mapsto> ?e)"
    using d(1) by (simp add: set_entry_def)
  ultimately show ?thesis using call by blast
qed

text \<open>Cancelling a wake: removing one element of a list moves the last one, and the index follows.\<close>

lemma cancel_index:
  assumes inj: "\<And>a b. a < length xs \<Longrightarrow> b < length xs \<Longrightarrow> f (xs ! a) = f (xs ! b) \<Longrightarrow> a = b"
    and i: "i < length xs"
    and old: "\<And>y j. index y = Some (k, C j) \<longleftrightarrow> j < length xs \<and> f (xs ! j) = y"
    and C: "\<And>a b. C a = C b \<longleftrightarrow> a = b"
    and ws: "ws = swap_remove xs i"
    and index': "index' = (if i < length ws then (index(f (xs ! i) := None))(f (ws ! i) \<mapsto> (k, C i))
      else index(f (xs ! i) := None))"
  shows "index' y = Some (k, C j) \<longleftrightarrow> j < length ws \<and> f (ws ! j) = y"
    and "(\<forall>j. slot \<noteq> C j) \<or> k' \<noteq> k \<Longrightarrow> index' y = Some (k', slot) \<longleftrightarrow> index y = Some (k', slot)"
proof -
  let ?n = "length xs - 1"
  have len: "length ws = ?n" by (simp add: ws)
  have n: "?n < length xs" using i by linarith
  have lastx: "last xs = xs ! ?n" by (rule last_conv_nth) (use i in auto)
  have at: "ws ! j = (if j = i then xs ! ?n else xs ! j)" if "j < ?n" for j
    using nth_swap_remove [OF that, of i] lastx by (simp add: ws)
  have idx: "index' y = (if i < ?n \<and> y = f (xs ! ?n) then Some (k, C i)
      else if y = f (xs ! i) then None else index y)" for y
    unfolding index' len using at [of i] by simp
  have key: "f (xs ! a) = f (xs ! b) \<longleftrightarrow> a = b" if "a < length xs" "b < length xs" for a b
    using inj that by blast
  show "index' y = Some (k, C j) \<longleftrightarrow> j < length ws \<and> f (ws ! j) = y"
  proof (cases "i < ?n")
    case True
    show ?thesis
      unfolding idx len using True at [of j] key [of j ?n] key [of j i] key [of i ?n] old [of y j] i n
      by (auto simp: C)
  next
    case False
    then have "i = ?n" using i by linarith
    then show ?thesis
      unfolding idx len using at [of j] key [of j i] old [of y j] i by (auto simp: less_Suc_eq)
  qed
  assume other: "(\<forall>j. slot \<noteq> C j) \<or> k' \<noteq> k"
  have "index (f (xs ! ?n)) = Some (k, C ?n)" "index (f (xs ! i)) = Some (k, C i)"
    using old n i by blast+
  then show "index' y = Some (k', slot) \<longleftrightarrow> index y = Some (k', slot)"
    unfolding idx using other by auto
qed

lemma place_inj:
  assumes "timers_wf t" "place t id' at' slot" "place t id' k slot'"
  shows "at' = k \<and> slot = slot'"
  using timers_wfD(2) [OF assms(1), of id'] assms(2,3) by (metis option.inject prod.inject)

lemma cancel_pending:
  assumes wf: "timers_wf t" and e: "bt_get (tm_entries t) at' = Some e"
    and i: "i < length (e_wakers e)" "fst (e_wakers e ! i) = id'"
  defines "ws \<equiv> swap_remove (e_wakers e) i"
  defines "index \<equiv> (if i < length ws then ((tm_wakes t)(id' := None))(fst (ws ! i) \<mapsto> (at', Pending i))
     else (tm_wakes t)(id' := None))"
  shows "timers_wf (put_entry at' (e\<lparr>e_wakers := ws\<rparr>) (t\<lparr>tm_wakes := index\<rparr>))"
proof -
  note d = timers_wfD [OF wf]
  have old: "tm_wakes t y = Some (at', Pending j) \<longleftrightarrow> j < length (e_wakers e) \<and> fst (e_wakers e ! j) = y" for y j
    using d(2) e by (simp add: place_def)
  have inj: "a = b" if "a < length (e_wakers e)" "b < length (e_wakers e)" "fst (e_wakers e ! a) = fst (e_wakers e ! b)" for a b
    using old [of "fst (e_wakers e ! a)" a] old [of "fst (e_wakers e ! a)" b] that by simp
  note c = cancel_index [where f = fst and C = Pending and index = "tm_wakes t" and xs = "e_wakers e" and k = at'
      and ws = ws and index' = index, OF inj i(1) old]
  show ?thesis
  proof (rule timers_wfI)
    fix y k slot
    have c1: "index y = Some (at', Pending j) \<longleftrightarrow> j < length ws \<and> fst (ws ! j) = y" for j
      by (rule c(1)) (simp_all add: ws_def index_def i(2))
    have c2: "index y = Some (k, slot) \<longleftrightarrow> tm_wakes t y = Some (k, slot)" if "(\<forall>j. slot \<noteq> Pending j) \<or> k \<noteq> at'"
      by (rule c(2)) (simp_all add: ws_def index_def i(2) that)
    show "tm_wakes (put_entry at' (e\<lparr>e_wakers := ws\<rparr>) (t\<lparr>tm_wakes := index\<rparr>)) y = Some (k, slot) \<longleftrightarrow>
      place (put_entry at' (e\<lparr>e_wakers := ws\<rparr>) (t\<lparr>tm_wakes := index\<rparr>)) y k slot"
      unfolding place_put_entry [OF d(1)]
      using c1 c2 d(2) [of y k slot] e by (cases "k = at'"; cases slot) (auto simp: place_def)
  qed (rule put_entry_bt_wf(1) [OF d(1)])
qed

lemma cancel_held:
  assumes wf: "timers_wf t" and e: "bt_get (tm_entries t) at' = Some e"
    and i: "i < length (e_awaiting e)" "e_awaiting e ! i = id'"
  defines "aw \<equiv> swap_remove (e_awaiting e) i"
  defines "index \<equiv> (if i < length aw then ((tm_wakes t)(id' := None))(aw ! i \<mapsto> (at', Held i))
     else (tm_wakes t)(id' := None))"
  shows "timers_wf (put_entry at' (e\<lparr>e_awaiting := aw\<rparr>) (t\<lparr>tm_wakes := index\<rparr>))"
proof -
  note d = timers_wfD [OF wf]
  have old: "tm_wakes t y = Some (at', Held j) \<longleftrightarrow> j < length (e_awaiting e) \<and> id (e_awaiting e ! j) = y" for y j
    using d(2) e by (simp add: place_def)
  have inj: "a = b" if "a < length (e_awaiting e)" "b < length (e_awaiting e)" "id (e_awaiting e ! a) = id (e_awaiting e ! b)" for a b
    using old [of "e_awaiting e ! a" a] old [of "e_awaiting e ! a" b] that by simp
  note c = cancel_index [where f = id and C = Held and index = "tm_wakes t" and xs = "e_awaiting e" and k = at'
      and ws = aw and index' = index, OF inj i(1) old]
  show ?thesis
  proof (rule timers_wfI)
    fix y k slot
    have c1: "index y = Some (at', Held j) \<longleftrightarrow> j < length aw \<and> id (aw ! j) = y" for j
      by (rule c(1)) (simp_all add: aw_def index_def i(2))
    have c2: "index y = Some (k, slot) \<longleftrightarrow> tm_wakes t y = Some (k, slot)" if "(\<forall>j. slot \<noteq> Held j) \<or> k \<noteq> at'"
      by (rule c(2)) (simp_all add: aw_def index_def i(2) that)
    show "tm_wakes (put_entry at' (e\<lparr>e_awaiting := aw\<rparr>) (t\<lparr>tm_wakes := index\<rparr>)) y = Some (k, slot) \<longleftrightarrow>
      place (put_entry at' (e\<lparr>e_awaiting := aw\<rparr>) (t\<lparr>tm_wakes := index\<rparr>)) y k slot"
      unfolding place_put_entry [OF d(1)]
      using c1 c2 d(2) [of y k slot] e by (cases "k = at'"; cases slot) (auto simp: place_def)
  qed (rule put_entry_bt_wf(1) [OF d(1)])
qed

definition deadline_of :: "'w timers \<Rightarrow> nat \<Rightarrow> nat option" where
  "deadline_of t id' = map_option fst (tm_wakes t id')"

lemma cancel_pending_exact:
  assumes wf: "timers_wf t" and reg: "tm_wakes t id' = Some (at', Pending i)"
  shows "\<exists>t'. tm_cancel_wake t id' = Some (Some (Some (snd (snd (e_wakers (entry_at t at') ! i)))), t') \<and>
    timers_wf t' \<and> (\<forall>j. deadline_of t' j = (if j = id' then None else deadline_of t j))"
proof -
  obtain e where e: "bt_get (tm_entries t) at' = Some e" "entry_at t at' = e"
    and i: "i < length (e_wakers e)" "fst (e_wakers e ! i) = id'"
    using reg timers_wfD(2) [OF wf] by (auto simp: place_def entry_at_def)
  define ws where "ws = swap_remove (e_wakers e) i"
  define index where "index = (if i < length ws then ((tm_wakes t)(id' := None))(fst (ws ! i) \<mapsto> (at', Pending i))
      else (tm_wakes t)(id' := None))"
  let ?t = "put_entry at' (e\<lparr>e_wakers := ws\<rparr>) (t\<lparr>tm_wakes := index\<rparr>)"
  have call: "tm_cancel_wake t id' = Some (Some (Some (snd (snd (e_wakers e ! i)))), ?t)"
    using reg e i by (simp add: tm_cancel_wake_def ws_def index_def Let_def)
  have wf': "timers_wf ?t" using cancel_pending [OF wf e(1) i] unfolding ws_def index_def .
  have moved: "tm_wakes t (fst (ws ! i)) = Some (at', Pending (length (e_wakers e) - 1))" "fst (ws ! i) \<noteq> id'"
    if "i < length ws"
  proof -
    show "tm_wakes t (fst (ws ! i)) = Some (at', Pending (length (e_wakers e) - 1))"
      using that nth_swap_remove_self [of i "e_wakers e"] timers_wfD(2) [OF wf] e i(1)
      by (simp add: ws_def place_def)
    then show "fst (ws ! i) \<noteq> id'" using reg that by (auto simp: ws_def)
  qed
  have "deadline_of ?t j = (if j = id' then None else deadline_of t j)" for j
    using moved by (auto simp: deadline_of_def index_def)
  then show ?thesis using call wf' e(2) by blast
qed

lemma cancel_held_exact:
  assumes wf: "timers_wf t" and reg: "tm_wakes t id' = Some (at', Held i)"
  shows "\<exists>t'. tm_cancel_wake t id' = Some (Some None, t') \<and>
    timers_wf t' \<and> (\<forall>j. deadline_of t' j = (if j = id' then None else deadline_of t j))"
proof -
  obtain e where e: "bt_get (tm_entries t) at' = Some e"
    and i: "i < length (e_awaiting e)" "e_awaiting e ! i = id'"
    using reg timers_wfD(2) [OF wf] by (auto simp: place_def)
  define aw where "aw = swap_remove (e_awaiting e) i"
  define index where "index = (if i < length aw then ((tm_wakes t)(id' := None))(aw ! i \<mapsto> (at', Held i))
      else (tm_wakes t)(id' := None))"
  let ?t = "put_entry at' (e\<lparr>e_awaiting := aw\<rparr>) (t\<lparr>tm_wakes := index\<rparr>)"
  have call: "tm_cancel_wake t id' = Some (Some None, ?t)"
    using reg e i by (simp add: tm_cancel_wake_def aw_def index_def Let_def)
  have wf': "timers_wf ?t" using cancel_held [OF wf e(1) i] unfolding aw_def index_def .
  have moved: "tm_wakes t (aw ! i) = Some (at', Held (length (e_awaiting e) - 1))" "aw ! i \<noteq> id'"
    if "i < length aw"
  proof -
    show "tm_wakes t (aw ! i) = Some (at', Held (length (e_awaiting e) - 1))"
      using that nth_swap_remove_self [of i "e_awaiting e"] timers_wfD(2) [OF wf] e i(1)
      by (simp add: aw_def place_def)
    then show "aw ! i \<noteq> id'" using reg that by (auto simp: aw_def)
  qed
  have "deadline_of ?t j = (if j = id' then None else deadline_of t j)" for j
    using moved by (auto simp: deadline_of_def index_def)
  then show ?thesis using call wf' by blast
qed


text \<open>Three wakes registered at one instant; cancelling the first moves the last into its place.\<close>

definition example_timers :: "string timers" where
  "example_timers = tm_register_wake (tm_register_wake (tm_register_wake timers_default
     70 1 None ''a'') 70 2 (Some 9) ''b'') 70 3 None ''c''"

lemma example_timers_wf: "timers_wf example_timers"
  unfolding example_timers_def
  by (intro register_wake_wf timers_default_wf)
    (simp_all add: tm_register_wake_def timers_default_def set_entry_def Let_def)


section \<open>Pruning what is due\<close>

lemma take_upto_entries:
  "bt_get (tm_entries (snd (snd (take_upto t limit)))) k =
    (if saturating_add limit 1 \<le> k then bt_get (tm_entries t) k else None)"
proof -
  have "bt_get (filter (\<lambda>p. saturating_add limit 1 \<le> fst p) (tm_entries t)) k =
      (if saturating_add limit 1 \<le> k then bt_get (tm_entries t) k else None)"
    by (rule bt_get_filter_key [of "\<lambda>x. saturating_add limit 1 \<le> x"])
  then show ?thesis by (simp add: take_upto_def Let_def)
qed

lemma entry_ids_place:
  assumes "bt_get (tm_entries t) k = Some e"
  shows "j \<in> set (entry_ids e) \<longleftrightarrow> (\<exists>slot. place t j k slot)"
proof
  assume "j \<in> set (entry_ids e)"
  then have "j \<in> set (e_awaiting e) \<or> j \<in> set (map fst (e_wakers e))" by (simp add: entry_ids_def)
  then consider i where "i < length (e_awaiting e)" "e_awaiting e ! i = j"
    | i where "i < length (e_wakers e)" "fst (e_wakers e ! i) = j"
    unfolding in_set_conv_nth by force
  then show "\<exists>slot. place t j k slot"
  proof cases
    case (1 i)
    then show ?thesis using assms by (intro exI [of _ "Held i"]) (simp add: place_def)
  next
    case (2 i)
    then show ?thesis using assms by (intro exI [of _ "Pending i"]) (simp add: place_def)
  qed
next
  assume "\<exists>slot. place t j k slot"
  then obtain slot where "place t j k slot" ..
  then show "j \<in> set (entry_ids e)"
    using assms by (cases slot) (auto simp: place_def entry_ids_def)
qed

lemma take_upto_wf [wf_intros]:
  assumes wf: "timers_wf t"
  shows "timers_wf (snd (snd (take_upto t limit)))"
proof -
  let ?t = "snd (snd (take_upto t limit))"
  let ?cut = "saturating_add limit 1"
  note d = timers_wfD [OF wf]
  define gone where "gone = set (concat (map (entry_ids \<circ> snd) (filter (\<lambda>p. fst p < ?cut) (tm_entries t))))"
  have gone: "j \<in> gone \<longleftrightarrow> (\<exists>k slot. k < ?cut \<and> place t j k slot)" for j
  proof
    assume "j \<in> gone"
    then obtain k e where "(k, e) \<in> set (tm_entries t)" "k < ?cut" "j \<in> set (entry_ids e)"
      by (auto simp: gone_def)
    then show "\<exists>k slot. k < ?cut \<and> place t j k slot"
      using bt_mem_get [OF d(1)] entry_ids_place by metis
  next
    assume "\<exists>k slot. k < ?cut \<and> place t j k slot"
    then obtain k slot e where k: "k < ?cut" "place t j k slot" "bt_get (tm_entries t) k = Some e"
      by (auto simp: place_def)
    then have "(k, e) \<in> set (tm_entries t)" "j \<in> set (entry_ids e)"
      using bt_mem_get [OF d(1)] entry_ids_place by blast+
    then show "j \<in> gone" using k(1) by (force simp: gone_def)
  qed
  have idx: "tm_wakes ?t j = (if j \<in> gone then None else tm_wakes t j)" for j
    by (simp add: take_upto_def Let_def gone_def)
  have pl: "place ?t j k slot \<longleftrightarrow> ?cut \<le> k \<and> place t j k slot" for j k slot
    using take_upto_entries [of t limit k] by (auto simp: place_def)
  show ?thesis
  proof (rule timers_wfI)
    show "bt_wf (tm_entries ?t)" using d(1) by (simp add: take_upto_def Let_def)
    show "tm_wakes ?t j = Some (k, slot) \<longleftrightarrow> place ?t j k slot" for j k slot
      unfolding idx pl using gone [of j] d(2) [of j k slot] place_inj [OF wf] by (metis not_le option.distinct(1))
  qed
qed

end
