(* ===== verification/Virtual_Clock.thy ===== *)
theory Virtual_Clock
  imports Clock_Line Timer_Table
begin

text \<open>
  The clock of \<^verbatim>\<open>crates/snare/src/clock.rs\<close>: its state, its readings and every operation that moves or
  re-anchors it. The atomics form one record; an operation is one atomic step, as the sources take
  \<^verbatim>\<open>control\<close> or the sequence lock for it. Real time is an argument: \<open>rl\<close> is the sample a reading
  takes, \<open>rl'\<close> one taken later in the same operation. Readings are shown never to go back, whatever the
  operations, and a driven clock never to pass its executive's horizon.
\<close>

section \<open>State\<close>

record 'w clock =
  ck_monotonic :: nat
  ck_base_realtime :: nat
  ck_origin :: nat
  ck_begun :: bool
  ck_tai_offset :: nat
  ck_discrete :: bool
  ck_paused :: bool
  ck_anchor_real :: nat
  ck_rate_q32 :: nat
  ck_horizon :: nat
  ck_scaled_rate :: clock_rate
  ck_floor :: nat
  ck_deterministic :: bool
  ck_driven :: bool
  ck_stamp :: nat
  ck_driver_gen :: nat
  ck_fired :: bool
  ck_woke_timers :: bool
  ck_spin_due_since :: nat
  ck_held :: bool
  ck_pending :: "'w timers"
  ck_foreign :: "'w timers"
  ck_dormant :: bool
  ck_dormant_v :: nat
  ck_dormant_real :: nat
  ck_outside :: nat
  ck_outside_v :: nat
  ck_outside_real :: nat
  ck_children :: "(int \<times> nat option) list"

definition FIXED_EPOCH_NANOS :: nat where
  "FIXED_EPOCH_NANOS = 1700000000 * 1000000000"

definition START_GRAIN :: nat where
  "START_GRAIN = 1000000000"

definition clock_new :: "nat \<Rightarrow> 'w clock" where
  "clock_new tai_offset_secs =
     \<lparr>ck_monotonic = 0, ck_base_realtime = FIXED_EPOCH_NANOS, ck_origin = 0, ck_begun = False,
      ck_tai_offset = tai_offset_secs * 1000000000, ck_discrete = True, ck_paused = False,
      ck_anchor_real = 0, ck_rate_q32 = 0, ck_horizon = U64_MAX, ck_scaled_rate = Finite 0, ck_floor = 0,
      ck_deterministic = False, ck_driven = False, ck_stamp = 0, ck_driver_gen = 0, ck_fired = False,
      ck_woke_timers = False, ck_spin_due_since = 0, ck_held = False, ck_pending = timers_default,
      ck_foreign = timers_default, ck_dormant = False, ck_dormant_v = 0, ck_dormant_real = 0,
      ck_outside = 0, ck_outside_v = 0, ck_outside_real = 0, ck_children = []\<rparr>"

definition set_discrete :: "'w clock \<Rightarrow> bool \<Rightarrow> 'w clock" where
  "set_discrete c on = c\<lparr>ck_discrete := on\<rparr>"

definition set_deterministic :: "'w clock \<Rightarrow> bool \<Rightarrow> 'w clock" where
  "set_deterministic c on = c\<lparr>ck_deterministic := on\<rparr>"

definition is_scaled :: "'w clock \<Rightarrow> bool" where
  "is_scaled c = (ck_rate_q32 c \<noteq> 0)"

definition jumps :: "'w clock \<Rightarrow> bool" where
  "jumps c = (\<not> ck_discrete c \<and> \<not> ck_paused c \<and> \<not> is_scaled c \<and> \<not> ck_driven c \<and> \<not> ck_dormant c)"

section \<open>Readings\<close>

definition ck_line :: "'w clock \<Rightarrow> line" where
  "ck_line c = \<lparr>anchor_v = ck_monotonic c, anchor_real = ck_anchor_real c, rate_q32 = ck_rate_q32 c,
     horizon = ck_horizon c\<rparr>"

definition held_value :: "'w clock \<Rightarrow> nat" where
  "held_value c = max (ck_monotonic c) (ck_floor c)"

definition line_value :: "'w clock \<Rightarrow> nat \<Rightarrow> nat \<times> 'w clock" where
  "line_value c rl =
     (let v = max (ck_floor c) (value_at (ck_line c) rl) in (v, c\<lparr>ck_floor := v\<rparr>))"

definition peek :: "'w clock \<Rightarrow> nat \<Rightarrow> nat \<times> 'w clock" where
  "peek c rl =
     (if ck_driven c then line_value c rl
      else if ck_paused c \<or> \<not> is_scaled c then (held_value c, c)
      else line_value c rl)"

definition publish :: "'w clock \<Rightarrow> nat \<Rightarrow> nat \<Rightarrow> bool \<Rightarrow> (nat \<Rightarrow> nat) \<Rightarrow> 'w clock" where
  "publish c rl q32 paused to =
     (let held = held_value c;
          now = (if ck_paused c \<or> ck_rate_q32 c = 0 then held else max (value_at (ck_line c) rl) held)
      in c\<lparr>ck_monotonic := max (ck_monotonic c) (to now), ck_anchor_real := rl, ck_rate_q32 := q32,
           ck_horizon := U64_MAX, ck_paused := paused\<rparr>)"

definition publish_line :: "'w clock \<Rightarrow> nat \<Rightarrow> nat \<Rightarrow> nat \<Rightarrow> nat \<Rightarrow> 'w clock" where
  "publish_line c av ar q32 hz =
     c\<lparr>ck_monotonic := max (ck_monotonic c) av, ck_anchor_real := ar, ck_rate_q32 := q32, ck_horizon := hz\<rparr>"

definition step_base :: "'w clock \<Rightarrow> nat \<Rightarrow> (nat \<times> nat) \<times> 'w clock" where
  "step_base c by' =
     (let before = max (ck_monotonic c) (ck_floor c);
          after = saturating_add before by'
      in ((before, after), c\<lparr>ck_monotonic := after, ck_floor := max (ck_floor c) after\<rparr>))"

text \<open>\<open>free\<close>: whether \<^verbatim>\<open>try_control\<close> got the lock.\<close>

definition ck_advance :: "bool \<Rightarrow> 'w clock \<Rightarrow> nat \<Rightarrow> nat \<times> 'w clock" where
  "ck_advance free c rl =
     (if \<not> jumps c then (let (v, c') = peek c rl in (max v (ck_stamp c), c'))
      else if \<not> free then peek c rl
      else let ((before, after), c') = step_base c 1000 in (after, c'))"

definition jump_to :: "'w clock \<Rightarrow> nat \<Rightarrow> bool \<times> 'w clock" where
  "jump_to c wake =
     (if \<not> jumps c then (False, c) else (True, c\<lparr>ck_monotonic := max (ck_monotonic c) wake\<rparr>))"

definition realtime_at :: "'w clock \<Rightarrow> nat \<Rightarrow> nat" where
  "realtime_at c m = saturating_add (ck_base_realtime c) m"

datatype clock_kind = Monotonic | Realtime | Tai

text \<open>The TAI reading is a plain addition in the source, which panics on overflow.\<close>

definition ck_reading :: "'w clock \<Rightarrow> clock_kind \<Rightarrow> nat \<Rightarrow> nat option" where
  "ck_reading c kind m =
     (case kind of
        Monotonic \<Rightarrow> Some m
      | Realtime \<Rightarrow> Some (realtime_at c m)
      | Tai \<Rightarrow> if realtime_at c m + ck_tai_offset c \<le> U64_MAX then Some (realtime_at c m + ck_tai_offset c) else None)"

definition ck_now :: "bool \<Rightarrow> 'w clock \<Rightarrow> nat \<Rightarrow> clock_kind \<Rightarrow> nat option \<times> 'w clock" where
  "ck_now free c rl kind = (let (m, c') = ck_advance free c rl in (ck_reading c' kind m, c'))"

definition saturating_add_signed :: "nat \<Rightarrow> int \<Rightarrow> nat" where
  "saturating_add_signed a b = nat (max 0 (min (int a + b) (int U64_MAX)))"

definition split_nanos :: "nat \<Rightarrow> int \<times> nat" where
  "split_nanos n = (int (n div 1000000000), n mod 1000000000)"

definition ptp_sample :: "bool \<Rightarrow> 'w clock \<Rightarrow> nat \<Rightarrow> int \<Rightarrow> (int \<times> nat) list \<times> 'w clock" where
  "ptp_sample free c rl phc_offset =
     (let (m, c') = ck_advance free c rl;
          rt = realtime_at c' m;
          device = saturating_add_signed rt phc_offset
      in ([split_nanos device, split_nanos rt, split_nanos m], c'))"

definition ck_monotonic_reading :: "'w clock \<Rightarrow> nat \<Rightarrow> nat \<times> 'w clock" where
  "ck_monotonic_reading c rl = (let (v, c') = peek c rl in (max v (ck_stamp c), c'))"

definition high_water :: "'w clock \<Rightarrow> nat \<Rightarrow> (nat \<times> nat) \<times> 'w clock" where
  "high_water c rl =
     (let (v, c') = peek c rl; m = max v (ck_stamp c) in ((m, realtime_at c m), c'))"

definition sim_time :: "'w clock \<Rightarrow> nat \<Rightarrow> nat" where
  "sim_time c m = saturating_sub m (ck_origin c)"

definition at_sim_time :: "'w clock \<Rightarrow> nat \<Rightarrow> nat" where
  "at_sim_time c t = saturating_add (ck_origin c) t"

definition ck_value :: "'w clock \<Rightarrow> nat \<Rightarrow> nat \<times> 'w clock" where
  "ck_value c rl = (let (v, c') = peek c rl in (sim_time c (max v (ck_stamp c)), c'))"

definition timeline_realtime :: "'w clock \<Rightarrow> nat" where
  "timeline_realtime c = realtime_at c (ck_origin c)"

section \<open>Placing a clock on the process's timeline\<close>

definition start_at :: "'w clock \<Rightarrow> nat \<Rightarrow> nat \<Rightarrow> 'w clock" where
  "start_at c monotonic rt =
     (let base = max (saturating_sub rt monotonic) FIXED_EPOCH_NANOS;
          start = (if monotonic = 0 \<and> rt = 0 then 0
                   else saturating_mul (div_ceil (saturating_add monotonic START_GRAIN) START_GRAIN) START_GRAIN);
          c1 = publish_line (c\<lparr>ck_base_realtime := base, ck_origin := start\<rparr>) start
                 (ck_anchor_real c) (ck_rate_q32 c) (ck_horizon c)
      in c1\<lparr>ck_floor := max (ck_floor c1) start\<rparr>)"

text \<open>
  \<^verbatim>\<open>Timelines\<close> and \<^verbatim>\<open>begin\<close>: the live clocks are given by their high-water marks at the call, the
  dropped ones by the marks folded in when they were dropped.
\<close>

record timelines =
  past_monotonic :: nat
  past_realtime :: nat

definition ck_begin :: "timelines \<Rightarrow> (nat \<times> nat) list \<Rightarrow> bool \<Rightarrow> 'w clock \<Rightarrow> 'w clock" where
  "ck_begin tls live fixed c =
     (if ck_begun c then c
      else let c1 = (if fixed then c
                     else start_at c (fold (max \<circ> fst) live (past_monotonic tls))
                            (fold (max \<circ> snd) live (past_realtime tls)))
           in c1\<lparr>ck_begun := True\<rparr>)"

definition ck_drop :: "timelines \<Rightarrow> 'w clock \<Rightarrow> nat \<Rightarrow> timelines" where
  "ck_drop tls c rl =
     (if \<not> ck_begun c then tls
      else let ((m, rt), _) = high_water c rl
           in tls\<lparr>past_monotonic := max (past_monotonic tls) m, past_realtime := max (past_realtime tls) rt\<rparr>)"

section \<open>Holding the clock to real time\<close>

definition set_dormant :: "'w clock \<Rightarrow> nat \<Rightarrow> nat \<Rightarrow> bool \<Rightarrow> 'w clock" where
  "set_dormant c rl rl' on =
     (let c1 = (if on then (let (v, c1) = peek c rl in c1\<lparr>ck_dormant_v := v, ck_dormant_real := rl'\<rparr>) else c)
      in c1\<lparr>ck_dormant := on\<rparr>)"

definition dormant_limit :: "'w clock \<Rightarrow> nat \<Rightarrow> nat option" where
  "dormant_limit c rl =
     (if ck_dormant c then Some (saturating_add (ck_dormant_v c) (saturating_sub rl (ck_dormant_real c))) else None)"

definition hold_outside :: "'w clock \<Rightarrow> nat \<Rightarrow> nat \<Rightarrow> bool \<Rightarrow> 'w clock" where
  "hold_outside c rl rl' on =
     (if \<not> on then c\<lparr>ck_outside := wrapping_sub (ck_outside c) 1\<rparr>
      else if ck_outside c = 0 then
        (let (v, c1) = peek c rl
         in c1\<lparr>ck_outside := 1, ck_outside_v := v, ck_outside_real := rl'\<rparr>)
      else c\<lparr>ck_outside := ck_outside c + 1\<rparr>)"

definition hold_child :: "'w clock \<Rightarrow> nat \<Rightarrow> nat \<Rightarrow> int \<Rightarrow> 'w clock" where
  "hold_child c rl rl' pid =
     (let c1 = hold_outside c rl rl' True in c1\<lparr>ck_children := ck_children c1 @ [(pid, None)]\<rparr>)"

definition release_child :: "'w clock \<Rightarrow> int \<Rightarrow> 'w clock" where
  "release_child c pid =
     (case position (\<lambda>(child, _). child = pid) (ck_children c) of
        Some i \<Rightarrow> c\<lparr>ck_children := swap_remove (ck_children c) i, ck_outside := wrapping_sub (ck_outside c) 1\<rparr>
      | None \<Rightarrow> c)"

definition CHILD_GRACE :: nat where
  "CHILD_GRACE = 100000000"

text \<open>
  \<open>status\<close> is the host's answer about a child (\<^verbatim>\<open>waitid\<close>): \<open>None\<close> once it is reaped, else whether it
  has exited. The exit time is recorded when it is first seen.
\<close>

definition child_after :: "(int \<Rightarrow> bool option) \<Rightarrow> nat \<Rightarrow> int \<times> nat option \<Rightarrow> (int \<times> nat option) option" where
  "child_after status now ch =
     (let (pid, exited) = ch in
      case status pid of
        None \<Rightarrow> None
      | Some False \<Rightarrow> Some (pid, exited)
      | Some True \<Rightarrow>
          (let at' = (case exited of Some t \<Rightarrow> t | None \<Rightarrow> now)
           in if saturating_sub now at' \<ge> CHILD_GRACE then None else Some (pid, Some at')))"

definition release_children :: "(int \<Rightarrow> bool option) \<Rightarrow> nat \<Rightarrow> 'w clock \<Rightarrow> 'w clock" where
  "release_children status now c =
     (let kept = List.map_filter (child_after status now) (ck_children c)
      in c\<lparr>ck_children := kept, ck_outside := wrapping_sub (ck_outside c) (length (ck_children c) - length kept)\<rparr>)"

definition pace_limit :: "(int \<Rightarrow> bool option) \<Rightarrow> 'w clock \<Rightarrow> nat \<Rightarrow> nat option \<times> 'w clock" where
  "pace_limit status c rl =
     (let c1 = release_children status rl c;
          outside = (if ck_outside c1 > 0
                     then Some (saturating_add (ck_outside_v c1) (saturating_sub rl (ck_outside_real c1))) else None)
      in (case (dormant_limit c1 rl, outside) of
            (Some d, Some x) \<Rightarrow> Some (min d x)
          | (Some d, None) \<Rightarrow> Some d
          | (None, x) \<Rightarrow> x, c1))"

section \<open>Writers\<close>

definition set_rate :: "'w clock \<Rightarrow> nat \<Rightarrow> clock_rate \<Rightarrow> 'w clock" where
  "set_rate c rl r =
     (if ck_driven c then c
      else if r = Finite 0 then
        (if \<not> ck_paused c then publish c rl (ck_rate_q32 c) True (\<lambda>now. now) else c)
      else let (q32, scaled) = (case r of
                 Finite q \<Rightarrow> (rate_to_q32 (Finite (min q MAX_RATE)), Finite (min q MAX_RATE))
               | Infinite \<Rightarrow> (0, Finite 0))
           in (publish c rl q32 False (\<lambda>now. now))\<lparr>ck_scaled_rate := scaled\<rparr>)"

definition ck_rate :: "'w clock \<Rightarrow> clock_rate" where
  "ck_rate c =
     (if ck_driven c then ck_scaled_rate c
      else if ck_paused c then Finite 0
      else if ck_scaled_rate c = Finite 0 then Infinite else ck_scaled_rate c)"

definition ck_pause :: "'w clock \<Rightarrow> nat \<Rightarrow> 'w clock" where
  "ck_pause c rl = set_rate c rl (Finite 0)"

definition ck_resume :: "'w clock \<Rightarrow> nat \<Rightarrow> 'w clock" where
  "ck_resume c rl =
     (if \<not> ck_paused c \<or> ck_driven c then c else publish c rl (ck_rate_q32 c) False (\<lambda>now. now))"

definition advance_by :: "'w clock \<Rightarrow> nat \<Rightarrow> nat \<Rightarrow> 'w clock" where
  "advance_by c rl d =
     (if d = 0 then c
      else if ck_driven c then c
      else publish c rl (ck_rate_q32 c) (ck_paused c) (\<lambda>now. saturating_add now d))"

definition set_value :: "'w clock \<Rightarrow> nat \<Rightarrow> nat \<Rightarrow> nat \<Rightarrow> (nat + unit) \<times> 'w clock" where
  "set_value c rl rl' val =
     (let v = saturating_add (ck_origin c) val;
          (now, c1) = peek c rl
      in if ck_driven c1 then (Inr (), c1)
         else if v < now then (Inl (sim_time c1 now), c1)
         else if v > now then (Inr (), publish c1 rl' (ck_rate_q32 c1) (ck_paused c1) (\<lambda>now. max now v))
         else (Inr (), c1))"

section \<open>The executive\<close>

definition attach_driven :: "'w clock \<Rightarrow> nat \<Rightarrow> nat \<Rightarrow> 'w clock" where
  "attach_driven c rl rl' =
     (let (now, c1) = peek c rl
      in (publish_line c1 now rl' 0 now)\<lparr>ck_scaled_rate := Finite 0, ck_driven := True, ck_paused := False\<rparr>)"

definition detach_driven :: "'w clock \<Rightarrow> nat \<Rightarrow> nat \<Rightarrow> 'w clock" where
  "detach_driven c rl rl' =
     (if \<not> ck_driven c then c
      else let (v, c1) = peek c rl;
               now = max v (ck_stamp c1);
               c2 = publish_line c1 now rl' 0 U64_MAX
           in c2\<lparr>ck_floor := max (ck_floor c2) now, ck_stamp := 0, ck_driver_gen := ck_driver_gen c2 + 1,
                 ck_driven := False, ck_scaled_rate := Finite 0\<rparr>)"

definition ck_grant :: "'w clock \<Rightarrow> nat \<Rightarrow> nat \<Rightarrow> nat \<Rightarrow> nat \<Rightarrow> clock_rate \<Rightarrow> nat \<Rightarrow> 'w clock" where
  "ck_grant c rl rl' av ar r hz =
     (if \<not> ck_driven c then c
      else let (now, c1) = peek c rl;
               (av', ar') = (if av \<ge> now then (av, ar) else (now, rl'))
           in (publish_line c1 av' ar' (rate_to_q32 r) (max hz av'))\<lparr>ck_scaled_rate := r\<rparr>)"

definition ck_freeze :: "'w clock \<Rightarrow> nat \<Rightarrow> nat \<Rightarrow> 'w clock" where
  "ck_freeze c rl rl' =
     (if \<not> ck_driven c then c
      else let (now, c1) = peek c rl
           in (publish_line c1 now rl' 0 now)\<lparr>ck_scaled_rate := Finite 0\<rparr>)"

definition set_stamp :: "'w clock \<Rightarrow> nat option \<Rightarrow> 'w clock" where
  "set_stamp c t = c\<lparr>ck_stamp := (case t of Some t \<Rightarrow> t | None \<Rightarrow> 0)\<rparr>"

text \<open>
  \<^verbatim>\<open>creep_past\<close>: the least later time the code under test can see. On Windows \<open>qpc t\<close> is the next
  performance-counter tick, which the host gives.
\<close>

definition WINDOWS_TIMER_UNIT :: nat where
  "WINDOWS_TIMER_UNIT = 100"

definition creep_past :: "target_os \<Rightarrow> (nat \<Rightarrow> nat) \<Rightarrow> nat \<Rightarrow> nat" where
  "creep_past os qpc t =
     (if os = Windows then
        (let tick = (if qpc t > t then qpc t else saturating_add t 1)
         in max tick (saturating_add t WINDOWS_TIMER_UNIT))
      else saturating_add t 1)"

definition next_deadline_after :: "'w clock \<Rightarrow> nat \<Rightarrow> nat option" where
  "next_deadline_after c now = bt_first (bt_from (saturating_add now 1) (tm_entries (ck_pending c)))"

definition next_any_after :: "'w clock \<Rightarrow> nat \<Rightarrow> nat option" where
  "next_any_after c now =
     (case (next_deadline_after c now, bt_first (bt_from (saturating_add now 1) (tm_entries (ck_foreign c)))) of
        (Some a, Some b) \<Rightarrow> Some (min a b)
      | (Some a, None) \<Rightarrow> Some a
      | (None, b) \<Rightarrow> b)"

definition jump_driven ::
  "target_os \<Rightarrow> (nat \<Rightarrow> nat) \<Rightarrow> 'w clock \<Rightarrow> nat \<Rightarrow> nat \<Rightarrow> nat \<Rightarrow> bool \<Rightarrow> bool \<Rightarrow> (nat \<times> nat) \<times> 'w clock" where
  "jump_driven os qpc c rl rl' t to_next past =
     (let (now, c1) = peek c rl
      in if \<not> ck_driven c1 then ((now, now), c1)
         else let landing = (case (if to_next then next_deadline_after c1 now else None) of
                               Some n \<Rightarrow> min n t | None \<Rightarrow> t);
                  to = max now landing;
                  reach = (if past then creep_past os qpc to else to);
                  hz = max (ck_horizon c1) reach
              in ((now, to), publish_line c1 to rl' (ck_rate_q32 c1) hz))"

definition virtual_now :: "'w clock \<Rightarrow> nat \<Rightarrow> nat option \<times> 'w clock" where
  "virtual_now c rl = (if jumps c then (None, c) else (let (v, c1) = peek c rl in (Some v, c1)))"

definition real_span :: "'w clock \<Rightarrow> nat \<Rightarrow> nat option" where
  "real_span c span' =
     (if ck_paused c \<and> \<not> ck_driven c then None
      else if ck_rate_q32 c = 0 then None
      else real_at \<lparr>anchor_v = 0, anchor_real = 0, rate_q32 = ck_rate_q32 c, horizon = U64_MAX\<rparr> span')"

definition next_flow_wake :: "'w clock \<Rightarrow> nat \<Rightarrow> nat option \<times> 'w clock" where
  "next_flow_wake c rl =
     (if \<not> ck_driven c then (None, c)
      else if ck_rate_q32 c = 0 then (None, c)
      else let (now, c1) = peek c rl
           in (case next_any_after c1 now of None \<Rightarrow> None | Some n \<Rightarrow> real_at (ck_line c) n, c1))"

definition reach_realtime :: "'w clock \<Rightarrow> nat \<Rightarrow> 'w clock" where
  "reach_realtime c rt =
     (if jumps c then snd (jump_to c (saturating_sub rt (realtime_at c 0))) else c)"

definition ck_expire :: "'w clock \<Rightarrow> nat \<Rightarrow> 'w clock" where
  "ck_expire c deadline = (if jumps c then snd (jump_to c deadline) else c)"

section \<open>Readings never go back\<close>

definition reading :: "'w clock \<Rightarrow> nat \<Rightarrow> nat" where
  "reading c rl = fst (peek c rl)"

text \<open>
  The invariant: every stored time fits 64 bits, a clock nobody drives has no horizon, a driven clock has
  handed out nothing past its horizon, and the timer tables are well formed.
\<close>

definition clock_wf :: "'w clock \<Rightarrow> bool" where
  "clock_wf c \<longleftrightarrow> ck_monotonic c \<le> U64_MAX \<and> ck_floor c \<le> U64_MAX \<and> ck_horizon c \<le> U64_MAX \<and>
     ck_stamp c \<le> U64_MAX \<and> (\<not> ck_driven c \<longrightarrow> ck_horizon c = U64_MAX) \<and>
     (ck_driven c \<longrightarrow> ck_monotonic c \<le> ck_horizon c \<and> ck_floor c \<le> ck_horizon c) \<and>
     timers_wf (ck_pending c) \<and> timers_wf (ck_foreign c)"

definition moves :: "'w clock \<Rightarrow> nat \<Rightarrow> 'w clock \<Rightarrow> bool" where
  "moves c rl c' \<longleftrightarrow> clock_wf c' \<and> (\<forall>t\<ge>rl. reading c rl \<le> reading c' t)"

lemma reading_eq:
  "reading c rl = (if \<not> ck_driven c \<and> (ck_paused c \<or> ck_rate_q32 c = 0) then held_value c
     else max (ck_floor c) (value_at (ck_line c) rl))"
  by (simp add: reading_def peek_def line_value_def is_scaled_def Let_def)

lemma reading_mono: "rl \<le> t \<Longrightarrow> reading c rl \<le> reading c t"
  using value_at_mono [of rl t "ck_line c"] unfolding reading_eq by auto

lemma reading_ge:
  assumes "clock_wf c"
  shows "ck_monotonic c \<le> reading c rl" "ck_floor c \<le> reading c rl"
proof -
  have "ck_monotonic c \<le> value_at (ck_line c) rl" if "ck_driven c \<or> \<not> ck_driven c"
    using value_at_anchor [of "ck_line c" rl] assms by (cases "ck_driven c") (simp_all add: ck_line_def clock_wf_def)
  then show "ck_monotonic c \<le> reading c rl" "ck_floor c \<le> reading c rl"
    by (auto simp: reading_eq held_value_def)
qed

lemma reading_u64: "clock_wf c \<Longrightarrow> reading c rl \<le> U64_MAX"
  by (auto simp: reading_eq held_value_def clock_wf_def)

lemma reading_horizon: "clock_wf c \<Longrightarrow> ck_driven c \<Longrightarrow> reading c rl \<le> ck_horizon c"
  using value_at_horizon [of "ck_line c" rl] by (simp add: reading_eq clock_wf_def ck_line_def)

lemma movesI:
  "clock_wf c' \<Longrightarrow> reading c rl \<le> ck_monotonic c' \<or> reading c rl \<le> ck_floor c' \<Longrightarrow> moves c rl c'"
  using reading_ge [of c'] by (auto simp: moves_def intro: le_trans)

lemma moves_refl: "clock_wf c \<Longrightarrow> moves c rl c"
  by (simp add: moves_def reading_mono)

lemma moves_same:
  assumes "clock_wf c" "clock_wf c'" "ck_line c' = ck_line c" "ck_floor c' = ck_floor c"
    "ck_driven c' = ck_driven c" "ck_paused c' = ck_paused c"
  shows "moves c rl c'"
proof -
  have "ck_monotonic c' = ck_monotonic c" "ck_rate_q32 c' = ck_rate_q32 c"
    using assms(3) by (simp_all add: ck_line_def)
  then have "reading c' t = reading c t" for t using assms by (simp add: reading_eq held_value_def)
  then show ?thesis using assms(2) by (simp add: moves_def reading_mono)
qed

lemma moves_trans:
  assumes "moves c rl c1" "rl \<le> rl'" "moves c1 rl' c2"
  shows "\<forall>t\<ge>rl'. reading c rl \<le> reading c2 t" "clock_wf c2"
  using assms by (auto simp: moves_def intro: le_trans)

text \<open>Reading the clock moves at most its floor.\<close>

lemma peek_fields:
  "peek c rl = (reading c rl, c\<lparr>ck_floor := (if ck_driven c \<or> \<not> ck_paused c \<and> is_scaled c then reading c rl else ck_floor c)\<rparr>)"
  by (simp add: reading_def peek_def line_value_def Let_def)

lemma peek_wf: "clock_wf c \<Longrightarrow> clock_wf (snd (peek c rl))"
  using reading_u64 [of c rl] reading_horizon [of c rl] by (auto simp: peek_fields clock_wf_def)

lemma peek_moves: "clock_wf c \<Longrightarrow> moves c rl (snd (peek c rl))"
proof (cases "ck_driven c \<or> \<not> ck_paused c \<and> is_scaled c")
  case True
  assume "clock_wf c"
  then show ?thesis using peek_wf [of c rl] True by (intro movesI) (simp_all add: peek_fields)
next
  case False
  assume "clock_wf c"
  moreover have "snd (peek c rl) = c" using False by (simp add: peek_def)
  ultimately show ?thesis using moves_refl [of c rl] by simp
qed

section \<open>Every operation moves the clock forward\<close>

lemma publish_now:
  assumes "clock_wf c" "\<not> ck_driven c"
  shows "publish c rl q32 p to = c\<lparr>ck_monotonic := max (ck_monotonic c) (to (reading c rl)), ck_anchor_real := rl,
    ck_rate_q32 := q32, ck_horizon := U64_MAX, ck_paused := p\<rparr>"
proof -
  have "ck_monotonic c \<le> value_at (ck_line c) rl"
    using value_at_anchor [of "ck_line c" rl] assms by (simp add: ck_line_def clock_wf_def)
  then have "(if ck_paused c \<or> ck_rate_q32 c = 0 then held_value c else max (value_at (ck_line c) rl) (held_value c)) =
      reading c rl"
    using assms(2) by (auto simp: reading_eq held_value_def)
  then show ?thesis by (simp add: publish_def)
qed

lemma publish_moves:
  assumes "clock_wf c" "\<not> ck_driven c" "\<And>n. n \<le> U64_MAX \<Longrightarrow> n \<le> to n \<and> to n \<le> U64_MAX"
  shows "moves c rl (publish c rl q32 p to)"
  using assms(1,2) assms(3) [OF reading_u64 [OF assms(1)], of rl]
  by (intro movesI) (auto simp: publish_now clock_wf_def)

lemma publish_line_moves:
  assumes "clock_wf c" "reading c rl \<le> av" "av \<le> hz" "hz \<le> U64_MAX" "ck_driven c"
  shows "moves c rl (publish_line (snd (peek c rl)) av ar q32 hz)"
proof (rule movesI)
  have "ck_monotonic c \<le> av" "ck_floor c \<le> av"
    using reading_ge [OF assms(1), of rl] assms(2) by linarith+
  then show "clock_wf (publish_line (snd (peek c rl)) av ar q32 hz)"
    using assms by (simp add: publish_line_def peek_fields clock_wf_def)
  show "reading c rl \<le> ck_monotonic (publish_line (snd (peek c rl)) av ar q32 hz) \<or>
      reading c rl \<le> ck_floor (publish_line (snd (peek c rl)) av ar q32 hz)"
    using assms(2) by (simp add: publish_line_def le_max_iff_disj)
qed

text \<open>Fields that neither a reading nor the invariant depends on.\<close>

lemma moves_flags:
  "moves c rl (c'\<lparr>ck_scaled_rate := r\<rparr>) = moves c rl c'"
  "moves c rl (c'\<lparr>ck_dormant := b\<rparr>) = moves c rl c'"
  "moves c rl (c'\<lparr>ck_dormant_v := n\<rparr>) = moves c rl c'"
  "moves c rl (c'\<lparr>ck_dormant_real := n\<rparr>) = moves c rl c'"
  "moves c rl (c'\<lparr>ck_outside := n\<rparr>) = moves c rl c'"
  "moves c rl (c'\<lparr>ck_outside_v := n\<rparr>) = moves c rl c'"
  "moves c rl (c'\<lparr>ck_outside_real := n\<rparr>) = moves c rl c'"
  "moves c rl (c'\<lparr>ck_children := ch\<rparr>) = moves c rl c'"
  "moves c rl (c'\<lparr>ck_held := b\<rparr>) = moves c rl c'"
  "moves c rl (c'\<lparr>ck_fired := b\<rparr>) = moves c rl c'"
  "moves c rl (c'\<lparr>ck_woke_timers := b\<rparr>) = moves c rl c'"
  "moves c rl (c'\<lparr>ck_spin_due_since := n\<rparr>) = moves c rl c'"
  "moves c rl (c'\<lparr>ck_begun := b\<rparr>) = moves c rl c'"
  "moves c rl (c'\<lparr>ck_driver_gen := n\<rparr>) = moves c rl c'"
  "moves c rl (c'\<lparr>ck_discrete := b\<rparr>) = moves c rl c'"
  "moves c rl (c'\<lparr>ck_deterministic := b\<rparr>) = moves c rl c'"
  by (simp_all add: moves_def reading_eq held_value_def ck_line_def clock_wf_def)

lemma set_rate_moves: "clock_wf c \<Longrightarrow> moves c rl (set_rate c rl r)"
  by (auto simp: set_rate_def moves_flags moves_refl split: clock_rate.split intro!: publish_moves)

lemma resume_moves: "clock_wf c \<Longrightarrow> moves c rl (ck_resume c rl)"
  by (auto simp: ck_resume_def moves_refl intro!: publish_moves)

lemma advance_by_moves: "clock_wf c \<Longrightarrow> moves c rl (advance_by c rl d)"
  by (auto simp: advance_by_def moves_refl saturating_add_ge intro!: publish_moves)

lemma set_value_moves:
  assumes "clock_wf c" "rl \<le> rl'"
  shows "moves c rl (snd (set_value c rl rl' v))"
proof -
  let ?c = "snd (peek c rl)"
  have p: "clock_wf ?c" "moves c rl ?c" by (simp_all add: assms(1) peek_wf peek_moves)
  show ?thesis
  proof (cases "ck_driven c \<or> saturating_add (ck_origin c) v \<le> reading c rl")
    case True
    then show ?thesis using p(2) by (auto simp: set_value_def peek_fields Let_def)
  next
    case False
    have nd: "\<not> ck_driven ?c" using False by (simp add: peek_fields)
    let ?v = "saturating_add (ck_origin c) v"
    have eq: "snd (set_value c rl rl' v) = publish ?c rl' (ck_rate_q32 ?c) (ck_paused ?c) (\<lambda>now. max now ?v)"
      using False by (simp add: set_value_def peek_fields Let_def)
    have "moves ?c rl' (publish ?c rl' (ck_rate_q32 ?c) (ck_paused ?c) (\<lambda>now. max now ?v))"
      using publish_moves [OF p(1) nd] by simp
    then have "clock_wf (snd (set_value c rl rl' v))" unfolding eq by (simp add: moves_def)
    moreover have "reading c rl \<le> ck_monotonic (snd (set_value c rl rl' v))"
      unfolding eq publish_now [OF p(1) nd] using False by (simp add: le_max_iff_disj)
    ultimately show ?thesis by (intro movesI) auto
  qed
qed

lemma attach_moves:
  assumes "clock_wf c"
  shows "moves c rl (attach_driven c rl rl')"
proof (rule movesI)
  have u: "reading c rl \<le> U64_MAX" by (rule reading_u64 [OF assms])
  show "clock_wf (attach_driven c rl rl')"
    using assms u reading_ge [OF assms, of rl]
    by (auto simp: attach_driven_def peek_fields publish_line_def clock_wf_def)
  show "reading c rl \<le> ck_monotonic (attach_driven c rl rl') \<or> reading c rl \<le> ck_floor (attach_driven c rl rl')"
    by (simp add: attach_driven_def peek_fields publish_line_def)
qed

lemma detach_moves:
  assumes "clock_wf c"
  shows "moves c rl (detach_driven c rl rl')"
proof (cases "ck_driven c")
  case True
  show ?thesis
  proof (rule movesI)
    show "clock_wf (detach_driven c rl rl')"
      using assms True reading_u64 [OF assms, of rl]
      by (auto simp: detach_driven_def peek_fields publish_line_def clock_wf_def Let_def)
    show "reading c rl \<le> ck_monotonic (detach_driven c rl rl') \<or> reading c rl \<le> ck_floor (detach_driven c rl rl')"
      using True by (simp add: detach_driven_def peek_fields publish_line_def Let_def le_max_iff_disj)
  qed
qed (simp add: detach_driven_def moves_refl assms)

lemma grant_moves:
  assumes "clock_wf c" "av \<le> U64_MAX" "hz \<le> U64_MAX"
  shows "moves c rl (ck_grant c rl rl' av ar r hz)"
proof (cases "ck_driven c")
  case True
  let ?av = "if reading c rl \<le> av then av else reading c rl"
  have "moves c rl (publish_line (snd (peek c rl)) ?av ar' q32 (max hz ?av))" for ar' q32
    using assms True reading_u64 [OF assms(1), of rl] by (intro publish_line_moves) auto
  then show ?thesis using True by (auto simp: ck_grant_def peek_fields moves_flags)
qed (simp add: ck_grant_def moves_refl assms)

lemma freeze_moves: "clock_wf c \<Longrightarrow> moves c rl (ck_freeze c rl rl')"
  using publish_line_moves [of c rl "reading c rl" "reading c rl"] reading_u64 [of c rl]
  by (auto simp: ck_freeze_def moves_flags moves_refl peek_fields)

lemma creep_past_u64: "(\<And>x. qpc x \<le> U64_MAX) \<Longrightarrow> creep_past os qpc t \<le> U64_MAX"
  by (simp add: creep_past_def Let_def)

lemma creep_past_ge: "t \<le> U64_MAX \<Longrightarrow> t \<le> creep_past os qpc t"
  by (auto simp: creep_past_def Let_def saturating_add_ge le_max_iff_disj)

lemma jump_driven_eq:
  assumes "ck_driven c"
  obtains "to" where "reading c rl \<le> to" "to \<le> max (reading c rl) t"
    "jump_driven os qpc c rl rl' t to_next past = ((reading c rl, to),
      publish_line (snd (peek c rl)) to rl' (ck_rate_q32 c)
        (max (ck_horizon c) (if past then creep_past os qpc to else to)))"
proof -
  define c1 where "c1 = snd (peek c rl)"
  have c1: "peek c rl = (reading c rl, c1)" "ck_driven c1" "ck_rate_q32 c1 = ck_rate_q32 c" "ck_horizon c1 = ck_horizon c"
    using assms by (simp_all add: c1_def peek_fields)
  define "to" where "to = max (reading c rl)
    (case (if to_next then next_deadline_after c1 (reading c rl) else None) of Some n \<Rightarrow> min n t | None \<Rightarrow> t)"
  have "jump_driven os qpc c rl rl' t to_next past = ((reading c rl, to),
      publish_line c1 to rl' (ck_rate_q32 c) (max (ck_horizon c) (if past then creep_past os qpc to else to)))"
    unfolding jump_driven_def c1(1) Let_def prod.case to_def c1(3,4) using c1(2) by (simp only: not_True_eq_False if_False)
  moreover have "reading c rl \<le> to" "to \<le> max (reading c rl) t"
    unfolding to_def by (auto split: option.split)
  ultimately show thesis using that unfolding c1_def by blast
qed

lemma jump_driven_moves:
  assumes "clock_wf c" "t \<le> U64_MAX" "\<And>x. qpc x \<le> U64_MAX"
  shows "moves c rl (snd (jump_driven os qpc c rl rl' t to_next past))"
proof (cases "ck_driven c")
  case True
  obtain "to" where to: "reading c rl \<le> to" "to \<le> max (reading c rl) t"
    and call: "jump_driven os qpc c rl rl' t to_next past = ((reading c rl, to),
      publish_line (snd (peek c rl)) to rl' (ck_rate_q32 c)
        (max (ck_horizon c) (if past then creep_past os qpc to else to)))"
    using jump_driven_eq [OF True] .
  have u: "to \<le> U64_MAX" using to(2) assms(2) reading_u64 [OF assms(1), of rl] by linarith
  have "to \<le> (if past then creep_past os qpc to else to)" "(if past then creep_past os qpc to else to) \<le> U64_MAX"
    using u creep_past_ge [OF u] creep_past_u64 [OF assms(3)] by simp_all
  moreover have "ck_horizon c \<le> U64_MAX" using assms(1) by (simp add: clock_wf_def)
  ultimately show ?thesis
    unfolding call snd_conv using True to(1)
    by (intro publish_line_moves [OF assms(1)]) (simp_all add: le_max_iff_disj)
next
  case False
  then show ?thesis using peek_moves [OF assms(1), of rl] by (simp add: jump_driven_def peek_fields)
qed

lemma step_base_moves:
  assumes "clock_wf c" "\<not> ck_driven c" "\<not> is_scaled c"
  shows "moves c rl (snd (step_base c d))"
    and "fst (step_base c d) = (reading c rl, saturating_add (reading c rl) d)"
proof -
  have r: "reading c rl = max (ck_monotonic c) (ck_floor c)"
    using assms by (simp add: reading_eq held_value_def is_scaled_def)
  then show "fst (step_base c d) = (reading c rl, saturating_add (reading c rl) d)"
    by (simp add: step_base_def Let_def)
  show "moves c rl (snd (step_base c d))"
    using assms r saturating_add_ge [OF reading_u64 [OF assms(1)], of rl d]
    by (intro movesI) (auto simp: step_base_def Let_def clock_wf_def)
qed

text \<open>Raising the anchor of a clock at rest.\<close>

lemma raise_moves:
  assumes "clock_wf c" "\<not> ck_driven c" "\<not> is_scaled c" "n \<le> U64_MAX"
  shows "moves c rl (c\<lparr>ck_monotonic := max (ck_monotonic c) n\<rparr>)"
proof (rule movesI)
  show "clock_wf (c\<lparr>ck_monotonic := max (ck_monotonic c) n\<rparr>)" using assms by (simp add: clock_wf_def)
  have "reading c rl = max (ck_monotonic c) (ck_floor c)"
    using assms by (simp add: reading_eq held_value_def is_scaled_def)
  then show "reading c rl \<le> ck_monotonic (c\<lparr>ck_monotonic := max (ck_monotonic c) n\<rparr>) \<or>
      reading c rl \<le> ck_floor (c\<lparr>ck_monotonic := max (ck_monotonic c) n\<rparr>)"
    by (simp add: max_def)
qed

lemma jump_to_moves: "clock_wf c \<Longrightarrow> wake \<le> U64_MAX \<Longrightarrow> moves c rl (snd (jump_to c wake))"
  by (cases "jumps c") (simp_all add: jump_to_def moves_refl raise_moves jumps_def)

lemma advance_moves: "clock_wf c \<Longrightarrow> moves c rl (snd (ck_advance free c rl))"
  using peek_moves [of c rl] step_base_moves(1) [of c rl 1000]
  by (auto simp: ck_advance_def jumps_def split: prod.split)

lemma hold_moves:
  assumes "clock_wf c"
  shows "moves c rl (set_dormant c rl rl' on)" "moves c rl (hold_outside c rl rl' on)"
    "moves c rl (hold_child c rl rl' pid)" "moves c rl (release_child c pid)"
    "moves c rl (release_children status now c)" "moves c rl (snd (pace_limit status c rl))"
proof -
  show h: "moves c rl (hold_outside c rl rl' on)" for on
    using peek_moves [OF assms, of rl] assms by (auto simp: hold_outside_def moves_flags moves_refl split: prod.split)
  show "moves c rl (set_dormant c rl rl' on)"
    using peek_moves [OF assms, of rl] assms by (auto simp: set_dormant_def moves_flags moves_refl split: prod.split)
  show "moves c rl (hold_child c rl rl' pid)" using h by (simp add: hold_child_def Let_def moves_flags)
  show "moves c rl (release_child c pid)" using assms by (simp add: release_child_def moves_flags moves_refl split: option.split)
  show r: "moves c rl (release_children status now c)" for now
    using assms by (simp add: release_children_def Let_def moves_flags moves_refl)
  show "moves c rl (snd (pace_limit status c rl))" using r by (simp add: pace_limit_def Let_def)
qed

end
