(* ===== verification/Clock_Timers.thy ===== *)
theory Clock_Timers
  imports Virtual_Clock
begin

text \<open>
  The timers of the clock (\<^verbatim>\<open>crates/snare/src/clock.rs\<close>): registering waits, events and wakes,
  delivering what is due, charging latency, clock spins, and the time skips that jump a quiescent sim to its next
  deadline. Wakers handed out are returned by the operation that takes them. Every operation keeps the
  invariant of the clock and never turns its readings back.
\<close>

section \<open>Registering and delivering\<close>

definition ck_timers :: "'w clock \<Rightarrow> bool \<Rightarrow> 'w timers" where
  "ck_timers c foreign = (if foreign then ck_foreign c else ck_pending c)"

definition set_timers :: "bool \<Rightarrow> 'w timers \<Rightarrow> 'w clock \<Rightarrow> 'w clock" where
  "set_timers foreign t c = (if foreign then c\<lparr>ck_foreign := t\<rparr> else c\<lparr>ck_pending := t\<rparr>)"

definition add_wait :: "nat \<Rightarrow> bool \<Rightarrow> nat \<Rightarrow> 'w timers \<Rightarrow> 'w timers" where
  "add_wait wake event lineage t =
     (let e = entry_at t wake
      in set_entry wake
          (if event then e\<lparr>e_events := e_events e + 1\<rparr>
           else e\<lparr>e_waits := e_waits e + 1, e_owners := to_push (e_owners e) lineage\<rparr>) t)"

definition add_pending :: "'w clock \<Rightarrow> nat \<Rightarrow> bool \<Rightarrow> bool \<Rightarrow> nat \<Rightarrow> 'w clock" where
  "add_pending c wake foreign event lineage =
     set_timers foreign (add_wait wake event lineage (ck_timers c foreign)) c"

definition wake_taken :: "'w list \<Rightarrow> 'w clock \<Rightarrow> 'w clock" where
  "wake_taken ws c = (if ws = [] then c else c\<lparr>ck_woke_timers := True\<rparr>)"

definition register_timer ::
  "'w clock \<Rightarrow> nat \<Rightarrow> nat \<Rightarrow> bool \<Rightarrow> bool \<Rightarrow> nat \<Rightarrow> nat option \<times> 'w list \<times> 'w clock" where
  "register_timer c rl after foreign event lineage =
     (if jumps c \<or> event \<and> after = 0 then (None, [], c)
      else let (now, c1) = peek c rl;
               wake = saturating_add now after
           in if foreign then (Some wake, [], add_pending c1 wake True event lineage)
              else let (pruned, c2) =
                         (if is_scaled c1 \<and> \<not> ck_driven c1 \<and>
                             (case bt_first (tm_entries (ck_pending c1)) of Some f \<Rightarrow> f \<le> now | None \<Rightarrow> False)
                          then (let (_, ws, t) = take_upto (ck_pending c1) now
                                in (ws, c1\<lparr>ck_fired := True, ck_pending := t\<rparr>))
                          else ([], c1))
                   in (Some wake, pruned, wake_taken pruned (add_pending c2 wake False event lineage)))"

text \<open>
  \<^verbatim>\<open>reached\<close>: whether a timer falls in \<open>(before, after]\<close>. \<^verbatim>\<open>BTreeMap::range\<close> panics when the range
  starts past its end, which is \<open>None\<close>.
\<close>

definition ck_reached :: "'w clock \<Rightarrow> nat \<Rightarrow> nat \<Rightarrow> bool option" where
  "ck_reached c before after =
     (if saturating_add before 1 > after then None
      else Some (\<exists>foreign \<in> {False, True}.
        bt_upto after (bt_from (saturating_add before 1) (tm_entries (ck_timers c foreign))) \<noteq> []))"

text \<open>
  Delivering one instant of a table: its wakers are taken (held for their deadline if \<open>hold\<close>), its
  events dropped if \<open>reset\<close>, and the entry leaves the table once empty. The table has an entry there, so
  taking its wakers does not panic.
\<close>

definition take_key :: "bool \<Rightarrow> bool \<Rightarrow> nat \<Rightarrow> 'w timers \<Rightarrow> bool \<times> 'w list \<times> 'w timers" where
  "take_key reset hold at' t =
     (case bt_get (tm_entries t) at' of
        None \<Rightarrow> (False, [], t)
      | Some e \<Rightarrow>
          (case tm_take_wakers_at (set_entry at' (if reset then e\<lparr>e_events := 0\<rparr> else e) t) at' hold of
             None \<Rightarrow> (False, [], t)
           | Some (taken, ws, t2) \<Rightarrow> (hold \<and> taken, ws, put_entry at' (entry_at t2 at') t2)))"

primrec take_keys ::
  "bool \<Rightarrow> bool \<Rightarrow> nat list \<Rightarrow> 'w timers \<Rightarrow> bool \<times> 'w list \<times> 'w timers" where
  "take_keys reset hold [] t = (False, [], t)"
| "take_keys reset hold (k # ks) t =
     (let (h, ws, t1) = take_key reset hold k t;
          (h', ws', t2) = take_keys reset hold ks t1
      in (h \<or> h', ws @ ws', t2))"

definition sat_add_u32 :: "nat \<Rightarrow> nat \<Rightarrow> nat" where
  "sat_add_u32 a b = min (a + b) U32_MAX"

definition count_between :: "nat \<Rightarrow> nat \<Rightarrow> 'w timers \<Rightarrow> nat" where
  "count_between from' t tm =
     fold (\<lambda>(at', e) n. if at' > from' then sat_add_u32 n (e_count e) else n) (bt_upto t (tm_entries tm)) 0"

definition fire_upto :: "'w clock \<Rightarrow> nat \<Rightarrow> nat \<Rightarrow> nat \<times> 'w list \<times> 'w clock" where
  "fire_upto c from' t =
     (let hold = (\<not> ck_deterministic c);
          (h, ws, p) = take_keys True hold (map fst (bt_upto t (tm_entries (ck_pending c)))) (ck_pending c);
          (_, ws', f) = take_keys True False (map fst (bt_upto t (tm_entries (ck_foreign c)))) (ck_foreign c);
          c1 = c\<lparr>ck_pending := p, ck_foreign := f, ck_held := (ck_held c \<or> h)\<rparr>
      in (count_between from' t (ck_pending c), ws @ ws', wake_taken (ws @ ws') c1))"

definition take_wakers :: "'w clock \<Rightarrow> nat \<Rightarrow> 'w list \<times> 'w clock" where
  "take_wakers c t =
     (let hold = (\<not> ck_deterministic c);
          due = (\<lambda>tm. map fst (filter (\<lambda>(_, e). e_wakers e \<noteq> []) (bt_upto t (tm_entries tm))));
          (h, ws, p) = take_keys False hold (due (ck_pending c)) (ck_pending c);
          (_, ws', f) = take_keys False False (due (ck_foreign c)) (ck_foreign c)
      in (ws @ ws', c\<lparr>ck_pending := p, ck_foreign := f, ck_held := (ck_held c \<or> h)\<rparr>))"

definition wake_due :: "'w clock \<Rightarrow> nat \<Rightarrow> 'w list \<times> 'w clock" where
  "wake_due c rl =
     (let (v, c1) = peek c rl; (ws, c2) = take_wakers c1 v in (ws, wake_taken ws c2))"

definition holds_wakers :: "'w clock \<Rightarrow> bool" where
  "holds_wakers c = (\<exists>foreign \<in> {False, True}. \<exists>(_, e) \<in> set (tm_entries (ck_timers c foreign)). e_wakers e \<noteq> [])"

text \<open>
  \<^verbatim>\<open>release_held\<close>: once no reached wait is left untaken, the waiters a skip held off for are woken
  (first component), and an idle skip is run if wakers are pending (second).
\<close>

definition release_held :: "'w clock \<Rightarrow> nat \<Rightarrow> (bool \<times> bool) \<times> 'w clock" where
  "release_held c rl =
     (if \<not> ck_held c then ((False, False), c)
      else let (now, c1) = peek c rl
           in if reached_wait (ck_pending c1) now \<or> reached_wait (ck_foreign c1) now then ((False, False), c1)
              else ((True, holds_wakers c1), c1\<lparr>ck_held := False\<rparr>))"

text \<open>\<open>drop_wait\<close>: one reference to a wait is dropped, with the caller's own lineage if it is there.\<close>

definition drop_wait :: "nat \<Rightarrow> nat \<Rightarrow> 'w timers \<Rightarrow> 'w timers option" where
  "drop_wait wake me t =
     (case bt_get (tm_entries t) wake of
        None \<Rightarrow> None
      | Some e \<Rightarrow>
          if e_waits e = 0 then None
          else let owners = (case position (\<lambda>o'. o' = me) (to_iter (e_owners e)) of
                               Some i \<Rightarrow> to_swap_remove (e_owners e) i
                             | None \<Rightarrow> snd (to_pop (e_owners e)))
               in Some (put_entry wake (e\<lparr>e_waits := e_waits e - 1, e_owners := owners\<rparr>) t))"

definition unregister_timer :: "'w clock \<Rightarrow> nat \<Rightarrow> nat \<Rightarrow> bool \<Rightarrow> nat \<Rightarrow> (bool \<times> bool) \<times> 'w clock" where
  "unregister_timer c rl wake foreign me =
     (let c1 = (case drop_wait wake me (ck_timers c foreign) of
                  Some t \<Rightarrow> set_timers foreign t c
                | None \<Rightarrow> (case drop_wait wake me (ck_timers c (\<not> foreign)) of
                             Some t \<Rightarrow> set_timers (\<not> foreign) t c
                           | None \<Rightarrow> c))
      in release_held c1 rl)"

definition unregister_event :: "'w clock \<Rightarrow> nat \<Rightarrow> 'w clock" where
  "unregister_event c wake =
     (case bt_get (tm_entries (ck_pending c)) wake of
        None \<Rightarrow> c
      | Some e \<Rightarrow>
          if e_events e = 0 then c
          else c\<lparr>ck_pending := put_entry wake (e\<lparr>e_events := e_events e - 1\<rparr>) (ck_pending c)\<rparr>)"

text \<open>
  \<^verbatim>\<open>register_wake\<close> under a fresh id; the second component is when a scaled clock also asks the real-time
  waker to wake it.
\<close>

definition register_wake ::
  "'w clock \<Rightarrow> nat \<Rightarrow> nat \<Rightarrow> nat option \<Rightarrow> 'w \<Rightarrow> bool \<Rightarrow> (nat option \<times> nat option) \<times> 'w clock" where
  "register_wake c at' id' owner w foreign =
     (if jumps c then ((None, None), c)
      else let rw = (if is_scaled c \<and> \<not> ck_driven c \<and> \<not> ck_paused c then real_at (ck_line c) at' else None)
           in ((Some id', rw), set_timers foreign (tm_register_wake (ck_timers c foreign) at' id' owner w) c))"

definition ck_cancel_wake :: "'w clock \<Rightarrow> nat \<Rightarrow> nat \<Rightarrow> ((bool \<times> bool) \<times> 'w clock) option" where
  "ck_cancel_wake c rl id' =
     (case tm_cancel_wake (ck_pending c) id' of
        None \<Rightarrow> None
      | Some (Some _, p) \<Rightarrow> Some (release_held (c\<lparr>ck_pending := p\<rparr>) rl)
      | Some (None, p) \<Rightarrow>
          (case tm_cancel_wake (ck_foreign c) id' of
             None \<Rightarrow> None
           | Some (Some _, f) \<Rightarrow> Some (release_held (c\<lparr>ck_pending := p, ck_foreign := f\<rparr>) rl)
           | Some (None, f) \<Rightarrow> Some ((False, False), c\<lparr>ck_pending := p, ck_foreign := f\<rparr>)))"

definition wait_due :: "'w clock \<Rightarrow> nat \<Rightarrow> bool \<times> 'w clock" where
  "wait_due c rl =
     (if \<not> ck_discrete c \<or> is_scaled c \<or> ck_paused c \<or> ck_driven c \<or> ck_deterministic c then (False, c)
      else let (now, c1) = peek c rl; due = reached_wait (ck_pending c1) now
           in (due, if due then c1\<lparr>ck_held := True\<rparr> else c1))"

definition wait_reached :: "'w clock \<Rightarrow> nat \<Rightarrow> bool \<times> 'w clock" where
  "wait_reached c rl =
     (let (now, c1) = peek c rl
      in (reached_wait (ck_pending c1) now \<or> reached_wait (ck_foreign c1) now, c1))"

definition ck_due :: "'w clock \<Rightarrow> nat \<Rightarrow> nat option option \<times> 'w clock" where
  "ck_due c rl =
     (let (now, c1) = peek c rl
      in (case bt_upto now (tm_entries (ck_pending c1)) of
            [] \<Rightarrow> None | p # _ \<Rightarrow> Some (to_first (e_owners (snd p))), c1))"

definition owner_at :: "'w clock \<Rightarrow> nat \<Rightarrow> nat option" where
  "owner_at c at' =
     (case bt_get (tm_entries (ck_pending c)) at' of None \<Rightarrow> None | Some e \<Rightarrow> to_first (e_owners e))"

text \<open>The listing of pending timers: owners, anonymous waits and events, then wakers, instant by instant.\<close>

definition entry_timers :: "nat \<Rightarrow> 'w entry \<Rightarrow> (nat \<times> nat option) list" where
  "entry_timers at' e = map (\<lambda>o'. (at', o'))
     (map Some (to_iter (e_owners e)) @ replicate (e_waits e - to_len (e_owners e)) None
      @ replicate (e_events e) None @ map (fst \<circ> snd) (e_wakers e))"

primrec list_timers :: "nat \<Rightarrow> (nat \<times> 'w entry) list \<Rightarrow> (nat \<times> nat option) list \<Rightarrow> bool \<times> (nat \<times> nat option) list" where
  "list_timers n [] out = (False, out)"
| "list_timers n (p # ps) out =
     (let out' = out @ entry_timers (fst p) (snd p)
      in if length out' \<ge> n then (True, take n out') else list_timers n ps out')"

definition pending_timers :: "'w clock \<Rightarrow> nat \<Rightarrow> (nat \<times> nat option) list" where
  "pending_timers c n =
     (let (full, out) = list_timers n (tm_entries (ck_pending c)) []
      in if full then out else snd (list_timers n (tm_entries (ck_foreign c)) out))"

definition entry_timer_count :: "'w entry \<Rightarrow> nat" where
  "entry_timer_count e = max (to_len (e_owners e)) (e_waits e) + e_events e + length (e_wakers e)"

definition pending_timer_count :: "'w clock \<Rightarrow> nat" where
  "pending_timer_count c =
     sum_list (map (entry_timer_count \<circ> snd) (tm_entries (ck_pending c)))
     + sum_list (map (entry_timer_count \<circ> snd) (tm_entries (ck_foreign c)))"

section \<open>Charging latency and spinning\<close>

definition creep_past_timer_at :: "target_os \<Rightarrow> (nat \<Rightarrow> nat) \<Rightarrow> 'w clock \<Rightarrow> nat \<Rightarrow> 'w clock" where
  "creep_past_timer_at os qpc c t =
     (let reach = creep_past os qpc t
      in if ck_stamp c \<noteq> 0 \<and> reach \<ge> ck_stamp c then c
         else if bt_get (tm_entries (ck_pending c)) t = None then c
         else publish_line c (ck_monotonic c) (ck_anchor_real c) (ck_rate_q32 c) reach)"

definition charge_driven ::
  "target_os \<Rightarrow> (nat \<Rightarrow> nat) \<Rightarrow> bool \<Rightarrow> 'w clock \<Rightarrow> nat \<Rightarrow> nat \<Rightarrow> (bool \<times> 'w list \<times> 'w clock) option" where
  "charge_driven os qpc free c rl latency =
     (if \<not> free \<or> \<not> ck_driven c then Some (False, [], c)
      else let (before, c1) = peek c rl;
               hz = ck_horizon c1;
               after = min (saturating_add before latency) hz
           in if after \<le> before then Some (False, [], c1)
              else let c2 = c1\<lparr>ck_floor := max (ck_floor c1) after\<rparr>;
                       c3 = (if after = hz then creep_past_timer_at os qpc c2 after else c2)
                   in case ck_reached c3 before after of
                     None \<Rightarrow> None
                   | Some r \<Rightarrow>
                       (let (_, ws, c4) = fire_upto c3 before after in Some (r, ws, wake_taken ws c4)))"

definition running_discrete :: "'w clock \<Rightarrow> bool" where
  "running_discrete c = (ck_discrete c \<and> \<not> ck_paused c \<and> \<not> is_scaled c)"

definition ck_charge ::
  "target_os \<Rightarrow> (nat \<Rightarrow> nat) \<Rightarrow> bool \<Rightarrow> 'w clock \<Rightarrow> nat \<Rightarrow> nat \<Rightarrow> (bool \<times> 'w list \<times> 'w clock) option" where
  "ck_charge os qpc free c rl latency =
     (if ck_driven c then charge_driven os qpc free c rl latency
      else if \<not> running_discrete c \<or> \<not> free then Some (False, [], c)
      else let ((before, after), c1) = step_base c latency
           in case ck_reached c1 before after of
             None \<Rightarrow> None
           | Some r \<Rightarrow> (let (_, ws, c2) = fire_upto c1 before after in Some (r, ws, wake_taken ws c2)))"

datatype spin_step = Spin_Held | Spin_Runs | Spin_Waking | Spin_Moved bool

definition SPIN_SETTLE :: nat where
  "SPIN_SETTLE = 5000000"

text \<open>
  \<open>rl'\<close> is the real time at which a wait the clock has reached but its waiter has not taken is looked
  for.
\<close>

definition spin_landing :: "target_os \<Rightarrow> (nat \<Rightarrow> nat) \<Rightarrow> 'w clock \<Rightarrow> nat \<Rightarrow> nat \<Rightarrow> nat" where
  "spin_landing os qpc c now step =
     (let target = saturating_add now (max step 1)
      in case next_deadline_after c now of
        Some at' \<Rightarrow>
          if target \<ge> at' \<and> now < at' - 1 then at' - 1
          else if target \<ge> at' then creep_past os qpc at'
          else target
      | None \<Rightarrow> target)"

definition ck_spin_step ::
  "target_os \<Rightarrow> (nat \<Rightarrow> nat) \<Rightarrow> 'w clock \<Rightarrow> nat \<Rightarrow> nat \<Rightarrow> nat \<Rightarrow> (spin_step \<times> 'w list \<times> 'w clock) option" where
  "ck_spin_step os qpc c rl rl' step =
     (if ck_paused c \<or> ck_driven c then Some (Spin_Held, [], c)
      else if \<not> ck_discrete c \<or> is_scaled c then Some (Spin_Runs, [], c)
      else let (now, c1) = peek c rl;
               real' = max rl' 1;
               waiting = (\<not> ck_deterministic c1 \<and> fst (ck_due c1 rl) \<noteq> None);
               since = (if ck_spin_due_since c1 = 0 then real' else ck_spin_due_since c1)
           in if waiting \<and> saturating_sub real' since < SPIN_SETTLE
              then Some (Spin_Waking, [], c1\<lparr>ck_spin_due_since := since\<rparr>)
              else let c2 = c1\<lparr>ck_spin_due_since := 0\<rparr>;
                       ((before, after), c3) = step_base c2 (spin_landing os qpc c2 now step - now)
                   in case ck_reached c3 before after of
                     None \<Rightarrow> None
                   | Some r \<Rightarrow>
                       (let (_, ws, c4) = fire_upto c3 before after
                        in Some (Spin_Moved r, ws, wake_taken ws c4)))"

section \<open>Time skips\<close>

definition skip_to_next_deadline ::
  "target_os \<Rightarrow> (nat \<Rightarrow> nat) \<Rightarrow> (int \<Rightarrow> bool option) \<Rightarrow> 'w clock \<Rightarrow> nat \<Rightarrow> nat \<Rightarrow> bool \<times> 'w list \<times> 'w clock" where
  "skip_to_next_deadline os qpc status c rl rl' =
     (let (now, c1) = peek c rl
      in if \<not> ck_deterministic c1 \<and> reached_wait (ck_pending c1) now
         then (False, [], c1\<lparr>ck_held := True\<rparr>)
         else let (_, pruned, p) = take_upto (ck_pending c1) now;
                  c2 = c1\<lparr>ck_pending := p\<rparr>
              in case bt_first (tm_entries p) of
                None \<Rightarrow> (False, pruned, c2)
              | Some next \<Rightarrow>
                  (let (limit, c3) = pace_limit status c2 rl'
                   in if (case limit of Some l \<Rightarrow> next \<ge> l | None \<Rightarrow> False) then (False, pruned, c3)
                      else let landing = creep_past os qpc next;
                               c4 = c3\<lparr>ck_monotonic := max (ck_monotonic c3) landing\<rparr>;
                               (ws, c5) = take_wakers c4 landing
                           in (True, pruned @ ws, c5)))"

text \<open>
  \<open>admit\<close>: on Windows the readiness lock may turn a skip away (\<^verbatim>\<open>skip_clock\<close>); elsewhere it always
  runs.
\<close>

definition advance_to_next_deadline ::
  "target_os \<Rightarrow> (nat \<Rightarrow> nat) \<Rightarrow> (int \<Rightarrow> bool option) \<Rightarrow> bool \<Rightarrow> 'w clock \<Rightarrow> nat \<Rightarrow> nat \<Rightarrow> bool \<times> 'w list \<times> 'w clock" where
  "advance_to_next_deadline os qpc status admit c rl rl' =
     (if \<not> admit then (False, [], c)
      else if ck_paused c \<or> ck_driven c then (False, [], c)
      else let (moved, pruned, c') =
             (if is_scaled c then
                (let (now, c1) = peek c rl;
                     (any, ws, p) = take_upto (ck_pending c1) now
                 in (ck_fired c1 \<or> any, ws, c1\<lparr>ck_pending := p, ck_fired := False\<rparr>))
              else if \<not> ck_discrete c \<and> \<not> ck_dormant c then (False, [], c)
              else skip_to_next_deadline os qpc status c rl rl')
           in (moved, pruned, wake_taken pruned c'))"

definition min_option :: "nat option \<Rightarrow> nat option \<Rightarrow> nat option" where
  "min_option a b =
     (case (a, b) of (Some x, Some y) \<Rightarrow> Some (min x y) | (Some x, None) \<Rightarrow> Some x | (None, y) \<Rightarrow> y)"

definition advance_to_next_any_deadline ::
  "target_os \<Rightarrow> (nat \<Rightarrow> nat) \<Rightarrow> (int \<Rightarrow> bool option) \<Rightarrow> bool \<Rightarrow> 'w clock \<Rightarrow> nat \<Rightarrow> nat \<Rightarrow> bool \<times> 'w list \<times> 'w clock" where
  "advance_to_next_any_deadline os qpc status admit c rl rl' =
     (if \<not> admit then (False, [], c)
      else if ck_paused c \<or> is_scaled c \<or> \<not> ck_discrete c \<and> \<not> ck_dormant c \<or> ck_driven c then (False, [], c)
      else let (now, c1) = peek c rl
           in if \<not> ck_deterministic c1 \<and> (reached_wait (ck_pending c1) now \<or> reached_wait (ck_foreign c1) now)
              then (False, [], c1\<lparr>ck_held := True\<rparr>)
              else let (_, ws, p) = take_upto (ck_pending c1) now;
                       (_, ws', f) = take_upto (ck_foreign c1) now;
                       c2 = c1\<lparr>ck_pending := p, ck_foreign := f\<rparr>
                   in case min_option (bt_first (tm_entries p)) (bt_first (tm_entries f)) of
                     None \<Rightarrow> (False, ws @ ws', wake_taken (ws @ ws') c2)
                   | Some next \<Rightarrow>
                       (let (limit, c3) = pace_limit status c2 rl'
                        in if (case limit of Some l \<Rightarrow> next \<ge> l | None \<Rightarrow> False)
                           then (False, ws @ ws', wake_taken (ws @ ws') c3)
                           else let landing = creep_past os qpc next;
                                    c4 = c3\<lparr>ck_monotonic := max (ck_monotonic c3) landing\<rparr>;
                                    (ws'', c5) = take_wakers c4 landing
                                in (True, ws @ ws' @ ws'', wake_taken (ws @ ws' @ ws'') c5)))"

definition HELD_POLL :: nat where
  "HELD_POLL = 200000000"

definition idle_wait :: "(int \<Rightarrow> bool option) \<Rightarrow> 'w clock \<Rightarrow> nat \<Rightarrow> nat \<Rightarrow> nat option \<times> 'w clock" where
  "idle_wait status c rl rl' =
     (if ck_paused c \<or> ck_driven c then (Some HELD_POLL, c)
      else let (limit, c1) = pace_limit status c rl
           in case (if is_scaled c1 then None else limit) of
             Some limit \<Rightarrow>
               (let (now, c2) = peek c1 rl'
                in (case next_any_after c2 now of
                      None \<Rightarrow> Some HELD_POLL
                    | Some earliest \<Rightarrow> Some (max (saturating_sub (saturating_add earliest 1) limit) 1000), c2))
           | None \<Rightarrow>
               if \<not> is_scaled c1 then (None, c1)
               else let (now, c2) = peek c1 rl'
                    in (case next_deadline_after c2 now of
                          None \<Rightarrow> None
                        | Some earliest \<Rightarrow> map_option (\<lambda>s. max s 1000) (real_span c2 (earliest - now)), c2))"

section \<open>Sleeping\<close>

datatype sleep_request = Sleep_For nat | Sleep_Until clock_kind nat

definition sleep_wake :: "'w clock \<Rightarrow> nat \<Rightarrow> sleep_request \<Rightarrow> nat \<times> 'w clock" where
  "sleep_wake c rl req =
     (case req of
        Sleep_For d \<Rightarrow> (let (v, c1) = peek c rl in (saturating_add v d, c1))
      | Sleep_Until kind t \<Rightarrow>
          ((case kind of
              Monotonic \<Rightarrow> t
            | Tai \<Rightarrow> saturating_sub t (realtime_at c (ck_tai_offset c))
            | Realtime \<Rightarrow> saturating_sub t (realtime_at c 0)), c))"

definition sleep_done :: "'w clock \<Rightarrow> nat \<Rightarrow> nat \<Rightarrow> bool \<times> 'w clock" where
  "sleep_done c rl wake =
     (let (v, c1) = peek c rl
      in if v \<ge> wake then (True, c1) else if jumps c1 then jump_to c1 wake else (False, c1))"

text \<open>
  A participant's sleep up to its wait: done at once (\<open>None\<close>), or the registered wake time. A foreign
  caller registers nothing here: its wait does.
\<close>

definition sleep_begin :: "'w clock \<Rightarrow> nat \<Rightarrow> sleep_request \<Rightarrow> bool \<Rightarrow> nat \<Rightarrow> nat option \<times> 'w clock" where
  "sleep_begin c rl req foreign lineage =
     (let (wake, c1) = sleep_wake c rl req;
          (fin, c2) = sleep_done c1 rl wake
      in if fin then (None, c2)
         else (Some wake, if foreign then c2 else add_pending c2 wake False False lineage))"

text \<open>The end of a participant's sleep, once its wait returned: its deadline is dropped.\<close>

definition sleep_end :: "'w clock \<Rightarrow> nat \<Rightarrow> nat \<Rightarrow> nat \<Rightarrow> (bool \<times> bool) \<times> 'w clock" where
  "sleep_end c rl wake me = unregister_timer c rl wake False me"

section \<open>The tables stay well formed\<close>

lemma set_entry_same_wf:
  assumes "timers_wf t" "e_wakers e = e_wakers (entry_at t k)" "e_awaiting e = e_awaiting (entry_at t k)"
  shows "timers_wf (set_entry k e t)" "timers_wf (put_entry k e t)"
proof -
  note d = timers_wfD [OF assms(1)]
  have t: "t\<lparr>tm_wakes := tm_wakes t\<rparr> = t" by simp
  have "place (set_entry k e t) j k' slot \<longleftrightarrow> place t j k' slot" for j k' slot
    using place_set_entry [OF d(1), of k e "tm_wakes t" j k' slot] assms(2,3) place_at_entry [of t j k slot]
    unfolding t by (auto split: wake_slot.splits)
  then show "timers_wf (set_entry k e t)"
    using d(2) put_entry_bt_wf(2) [OF d(1), of k e "tm_wakes t"] by (intro timers_wfI) (simp_all only: t put_entry_index)
  have "place (put_entry k e t) j k' slot \<longleftrightarrow> place t j k' slot" for j k' slot
    using place_put_entry [OF d(1), of k e "tm_wakes t" j k' slot] assms(2,3) place_at_entry [of t j k slot]
    unfolding t by (auto split: wake_slot.splits)
  then show "timers_wf (put_entry k e t)"
    using d(2) put_entry_bt_wf(1) [OF d(1), of k e "tm_wakes t"] by (intro timers_wfI) (simp_all only: t put_entry_index)
qed

lemma add_wait_wf: "timers_wf t \<Longrightarrow> timers_wf (add_wait wake event lineage t)"
  by (simp add: add_wait_def Let_def set_entry_same_wf)

lemma entry_at_get: "bt_get (tm_entries t) k = Some e \<Longrightarrow> entry_at t k = e"
  by (simp add: entry_at_def)

lemma take_key_wf:
  assumes "timers_wf t"
  shows "timers_wf (snd (snd (take_key reset hold k t)))"
proof (cases "bt_get (tm_entries t) k")
  case (Some e)
  let ?e = "if reset then e\<lparr>e_events := 0\<rparr> else e"
  let ?t = "set_entry k ?e t"
  have wf: "timers_wf ?t" using assms Some by (intro set_entry_same_wf) (simp_all add: entry_at_get)
  have "bt_get (tm_entries ?t) k = Some ?e" using timers_wfD(1) [OF assms] by (simp add: set_entry_def)
  then obtain t2 ws b where t2: "tm_take_wakers_at ?t k hold = Some (b, ws, t2)" "timers_wf t2"
    using take_wakers_at_ok [OF wf] by blast
  have "timers_wf (put_entry k (entry_at t2 k) t2)" by (intro set_entry_same_wf t2(2)) simp_all
  then show ?thesis using Some t2(1) by (simp add: take_key_def)
qed (simp add: take_key_def assms)

lemma take_keys_wf: "timers_wf t \<Longrightarrow> timers_wf (snd (snd (take_keys reset hold ks t)))"
proof (induction ks arbitrary: t)
  case (Cons k ks)
  obtain h ws t1 where t1: "take_key reset hold k t = (h, ws, t1)" by (cases "take_key reset hold k t")
  then have "timers_wf t1" using take_key_wf [OF Cons.prems, of reset hold k] by simp
  then show ?case using Cons.IH [of t1] by (simp add: t1 Let_def case_prod_beta)
qed simp

lemma drop_wait_wf: "timers_wf t \<Longrightarrow> drop_wait wake me t = Some t' \<Longrightarrow> timers_wf t'"
  by (auto simp: drop_wait_def Let_def entry_at_get set_entry_same_wf split: option.splits if_splits)

section \<open>Every timer operation moves the clock forward\<close>

lemma reading_tables [simp]:
  "reading (c\<lparr>ck_pending := p\<rparr>) t = reading c t" "reading (c\<lparr>ck_foreign := p\<rparr>) t = reading c t"
  by (simp_all add: reading_eq held_value_def ck_line_def)

lemma moves_pending: "moves c rl c' \<Longrightarrow> timers_wf p \<Longrightarrow> moves c rl (c'\<lparr>ck_pending := p\<rparr>)"
  by (simp add: moves_def clock_wf_def)

lemma moves_foreign: "moves c rl c' \<Longrightarrow> timers_wf p \<Longrightarrow> moves c rl (c'\<lparr>ck_foreign := p\<rparr>)"
  by (simp add: moves_def clock_wf_def)

lemma moves_tables: "moves c rl c' \<Longrightarrow> timers_wf (ck_pending c') \<and> timers_wf (ck_foreign c')"
  by (simp add: moves_def clock_wf_def)

lemma moves_set_timers: "moves c rl c' \<Longrightarrow> timers_wf p \<Longrightarrow> moves c rl (set_timers b p c')"
  by (simp add: set_timers_def moves_pending moves_foreign)

lemma ck_timers_wf: "moves c rl c' \<Longrightarrow> timers_wf (ck_timers c' b)"
  by (simp add: ck_timers_def moves_tables)

lemma moves_raise:
  assumes "moves c rl c'" "\<not> ck_driven c'" "\<not> is_scaled c'" "n \<le> U64_MAX"
  shows "moves c rl (c'\<lparr>ck_monotonic := max (ck_monotonic c') n\<rparr>)"
  using assms raise_moves [of c' n] unfolding moves_def by (meson le_trans order_refl)

lemma moves_step_base:
  assumes "moves c rl c'" "\<not> ck_driven c'" "\<not> is_scaled c'"
  shows "moves c rl (snd (step_base c' d))"
  using assms step_base_moves(1) [of c'] unfolding moves_def by (meson le_trans order_refl)

lemma moves_wake_taken: "moves c rl c' \<Longrightarrow> moves c rl (wake_taken ws c')"
  by (simp add: wake_taken_def moves_flags)

lemma add_pending_moves: "moves c rl c' \<Longrightarrow> moves c rl (add_pending c' wake b event lineage)"
  by (simp add: add_pending_def moves_set_timers add_wait_wf ck_timers_wf)

lemma fire_upto_moves:
  assumes "moves c rl c'"
  shows "moves c rl (snd (snd (fire_upto c' from' t)))"
proof -
  let ?p = "take_keys True (\<not> ck_deterministic c') (map fst (bt_upto t (tm_entries (ck_pending c')))) (ck_pending c')"
  let ?f = "take_keys True False (map fst (bt_upto t (tm_entries (ck_foreign c')))) (ck_foreign c')"
  have "snd (snd (fire_upto c' from' t)) = wake_taken (fst (snd ?p) @ fst (snd ?f))
      (c'\<lparr>ck_pending := snd (snd ?p), ck_foreign := snd (snd ?f), ck_held := (ck_held c' \<or> fst ?p)\<rparr>)"
    by (simp add: fire_upto_def Let_def split: prod.splits)
  then show ?thesis
    using assms by (simp add: moves_wake_taken moves_flags moves_pending moves_foreign take_keys_wf moves_tables)
qed

lemma take_wakers_moves:
  assumes "moves c rl c'"
  shows "moves c rl (snd (take_wakers c' t))"
proof -
  let ?due = "\<lambda>tm. map fst (filter (\<lambda>(_, e). e_wakers e \<noteq> []) (bt_upto t (tm_entries tm)))"
  let ?p = "take_keys False (\<not> ck_deterministic c') (?due (ck_pending c')) (ck_pending c')"
  let ?f = "take_keys False False (?due (ck_foreign c')) (ck_foreign c')"
  have "snd (take_wakers c' t) =
      c'\<lparr>ck_pending := snd (snd ?p), ck_foreign := snd (snd ?f), ck_held := (ck_held c' \<or> fst ?p)\<rparr>"
    by (simp add: take_wakers_def Let_def split: prod.splits)
  then show ?thesis
    using assms by (simp add: moves_flags moves_pending moves_foreign take_keys_wf moves_tables)
qed

lemma peek_split:
  assumes "clock_wf c"
  obtains c1 where "peek c rl = (reading c rl, c1)" "moves c rl c1"
  using peek_moves [OF assms, of rl] by (metis prod.collapse reading_def)

lemma register_timer_moves:
  assumes "clock_wf c"
  shows "moves c rl (snd (snd (register_timer c rl after b event lineage)))"
proof (cases "jumps c \<or> event \<and> after = 0")
  case False
  obtain c1 where q: "peek c rl = (reading c rl, c1)" and p: "moves c rl c1"
    using peek_split [OF assms] .
  have "moves c rl (c1\<lparr>ck_fired := True, ck_pending := snd (snd (take_upto (ck_pending c1) n))\<rparr>)" for n
    using p by (simp add: moves_flags moves_pending take_upto_wf moves_tables)
  then show ?thesis
    using False p moves_refl [OF assms] by (simp add: register_timer_def q Let_def add_pending_moves moves_wake_taken case_prod_beta)
qed (simp add: register_timer_def moves_refl assms)

lemma release_held_moves:
  assumes "moves c rl c'" "rl \<le> rl'"
  shows "\<forall>t\<ge>rl'. reading c rl \<le> reading (snd (release_held c' rl')) t" "clock_wf (snd (release_held c' rl'))"
proof -
  have wf: "clock_wf c'" using assms(1) by (simp add: moves_def)
  have p: "moves c' rl' (snd (peek c' rl'))" by (rule peek_moves [OF wf])
  have "moves c' rl' (snd (release_held c' rl'))"
    using p wf by (auto simp: release_held_def Let_def moves_flags moves_refl case_prod_beta)
  then show "\<forall>t\<ge>rl'. reading c rl \<le> reading (snd (release_held c' rl')) t" "clock_wf (snd (release_held c' rl'))"
    using moves_trans [OF assms] by blast+
qed

lemma release_held_moves': "moves c rl c' \<Longrightarrow> moves c rl (snd (release_held c' rl))"
  using release_held_moves [of c rl c' rl] by (simp add: moves_def)

lemma unregister_timer_moves:
  assumes "clock_wf c"
  shows "moves c rl (snd (unregister_timer c rl wake b me))"
  unfolding unregister_timer_def Let_def
  by (rule release_held_moves')
    (auto simp: moves_refl [OF assms] intro!: moves_set_timers dest: drop_wait_wf [rotated]
      simp: ck_timers_wf [OF moves_refl [OF assms]] split: option.split)

lemma unregister_event_moves: "clock_wf c \<Longrightarrow> moves c rl (unregister_event c wake)"
  using set_entry_same_wf(2) [of "ck_pending c"] moves_refl [of c rl]
  by (auto simp: unregister_event_def entry_at_get clock_wf_def intro!: moves_pending split: option.split)

lemma register_wake_moves:
  assumes "clock_wf c" "tm_wakes (ck_timers c b) i = None"
  shows "moves c rl (snd (register_wake c at' i ow w b))"
  using assms by (auto simp: register_wake_def Let_def moves_refl intro!: moves_set_timers register_wake_wf
      ck_timers_wf [of c rl])

text \<open>Cancelling never panics.\<close>

lemma cancel_wake_moves:
  assumes "clock_wf c"
  shows "\<exists>x. ck_cancel_wake c rl i = Some x \<and> moves c rl (snd x)"
proof -
  have t: "timers_wf (ck_pending c)" "timers_wf (ck_foreign c)" using assms by (simp_all add: clock_wf_def)
  have ok: "\<exists>r t'. tm_cancel_wake t i = Some (r, t') \<and> timers_wf t'" if "timers_wf t" for t :: "'a timers"
  proof (cases "tm_wakes t i")
    case None
    then show ?thesis using that by (simp add: tm_cancel_wake_def)
  next
    case (Some p)
    obtain at' slot where "p = (at', slot)" by (cases p)
    then show ?thesis
      using Some cancel_pending_exact [OF that, of i at'] cancel_held_exact [OF that, of i at'] by (cases slot) blast+
  qed
  obtain r p where p: "tm_cancel_wake (ck_pending c) i = Some (r, p)" "timers_wf p" using ok [OF t(1)] by blast
  obtain r' f where f: "tm_cancel_wake (ck_foreign c) i = Some (r', f)" "timers_wf f" using ok [OF t(2)] by blast
  have m: "moves c rl (c\<lparr>ck_pending := p\<rparr>)" "moves c rl (c\<lparr>ck_pending := p, ck_foreign := f\<rparr>)"
    by (simp_all add: moves_pending moves_foreign moves_refl [OF assms] p(2) f(2))
  show ?thesis
    using p f m release_held_moves' [OF m(1)] release_held_moves' [OF m(2)]
    by (cases r; cases r') (simp_all add: ck_cancel_wake_def)
qed

lemma creep_timer_moves:
  assumes "moves c rl c'" "ck_driven c'" "t = ck_horizon c'" "\<And>x. qpc x \<le> U64_MAX"
  shows "moves c rl (creep_past_timer_at os qpc c' t)"
proof -
  let ?c = "publish_line c' (ck_monotonic c') (ck_anchor_real c') (ck_rate_q32 c') (creep_past os qpc t)"
  have wf: "clock_wf c'" using assms(1) by (simp add: moves_def)
  have t: "t \<le> creep_past os qpc t" "creep_past os qpc t \<le> U64_MAX"
    using wf assms(3) creep_past_u64 [OF assms(4)] by (auto simp: clock_wf_def intro: creep_past_ge)
  have "clock_wf ?c" using wf t assms(2,3) by (auto simp: publish_line_def clock_wf_def)
  moreover have "reading c' x \<le> reading ?c x" for x
    using assms(2,3) t(1)
    by (auto simp: reading_eq publish_line_def ck_line_def value_at_eq min_le_iff_disj le_max_iff_disj)
  ultimately have "moves c rl ?c" using assms(1) unfolding moves_def by (meson le_trans)
  then show ?thesis using assms(1) by (simp add: creep_past_timer_at_def Let_def)
qed

lemma fire_wake_moves:
  assumes "moves c rl c'" "fire_upto c' a b = (n, ws, c'')"
  shows "moves c rl (wake_taken ws' c'')"
  using fire_upto_moves [OF assms(1), of a b] assms(2) by (simp add: moves_wake_taken)

lemma charge_driven_moves:
  assumes wf: "clock_wf c" and q: "\<And>x. qpc x \<le> U64_MAX"
    and call: "charge_driven os qpc free c rl latency = Some (r, ws, c')"
  shows "moves c rl c'"
proof (cases "\<not> free \<or> \<not> ck_driven c")
  case False
  obtain c1 where c1: "peek c rl = (reading c rl, c1)" and m: "moves c rl c1" using peek_split [OF wf] .
  have d: "ck_driven c1" using c1 False by (auto simp: peek_fields)
  let ?after = "min (saturating_add (reading c rl) latency) (ck_horizon c1)"
  let ?c2 = "c1\<lparr>ck_floor := max (ck_floor c1) ?after\<rparr>"
  let ?c3 = "if ?after = ck_horizon c1 then creep_past_timer_at os qpc ?c2 ?after else ?c2"
  show ?thesis
  proof (cases "?after \<le> reading c rl")
    case True
    then show ?thesis using False call c1 m by (simp add: charge_driven_def Let_def)
  next
    case move: False
    have "clock_wf ?c2" using m d by (simp add: moves_def clock_wf_def min_le_iff_disj)
    moreover have "reading c1 x \<le> reading ?c2 x" for x
      using d by (auto simp: reading_eq ck_line_def le_max_iff_disj)
    ultimately have m2: "moves c rl ?c2" using m unfolding moves_def by (meson le_trans)
    have m3: "moves c rl ?c3" using m2 creep_timer_moves [OF m2, of ?after qpc os] d q by auto
    obtain n ws' c4 where f: "fire_upto ?c3 (reading c rl) ?after = (n, ws', c4)"
      by (cases "fire_upto ?c3 (reading c rl) ?after")
    have "c' = wake_taken ws' c4"
      using False call c1 move f
      by (auto simp: charge_driven_def Let_def split: option.splits)
    then show ?thesis using fire_wake_moves [OF m3 f] by simp
  qed
qed (use call wf in \<open>auto simp: charge_driven_def moves_refl\<close>)

lemma charge_moves:
  assumes wf: "clock_wf c" and q: "\<And>x. qpc x \<le> U64_MAX"
    and call: "ck_charge os qpc free c rl latency = Some (r, ws, c')"
  shows "moves c rl c'"
proof (cases "ck_driven c \<or> \<not> running_discrete c \<or> \<not> free")
  case True
  then show ?thesis
    using call wf charge_driven_moves [OF wf q]
    by (auto simp: ck_charge_def moves_refl split: if_splits)
next
  case False
  obtain a b c1 where s: "step_base c latency = ((a, b), c1)" by (metis prod.exhaust)
  have m: "moves c rl c1"
    using moves_step_base [OF moves_refl [OF wf], of rl latency] False s by (simp add: running_discrete_def)
  obtain n ws' c2 where f: "fire_upto c1 a b = (n, ws', c2)" by (metis prod.exhaust)
  have "c' = wake_taken ws' c2"
    using call False s f by (auto simp: ck_charge_def split: option.splits)
  then show ?thesis using fire_wake_moves [OF m f] by simp
qed

lemma spin_step_moves:
  assumes wf: "clock_wf c" and q: "\<And>x. qpc x \<le> U64_MAX"
    and call: "ck_spin_step os qpc c rl rl' step = Some (r, ws, c')"
  shows "moves c rl c'"
proof (cases "ck_paused c \<or> ck_driven c \<or> \<not> ck_discrete c \<or> is_scaled c")
  case False
  obtain c1 where c1: "peek c rl = (reading c rl, c1)" and m: "moves c rl c1" using peek_split [OF wf] .
  have d: "\<not> ck_driven c1" "\<not> is_scaled c1" using c1 False by (simp_all add: peek_fields is_scaled_def)
  define c2 where "c2 = c1\<lparr>ck_spin_due_since := 0\<rparr>"
  have m2: "moves c rl c2" using m by (simp add: c2_def moves_flags)
  obtain a b c3 where s: "step_base c2 (spin_landing os qpc c2 (reading c rl) step - reading c rl) = ((a, b), c3)"
    by (metis prod.exhaust)
  have m3: "moves c rl c3"
    using moves_step_base [OF m2, of "spin_landing os qpc c2 (reading c rl) step - reading c rl"] d s
    by (simp add: c2_def is_scaled_def)
  obtain n ws' c4 where f: "fire_upto c3 a b = (n, ws', c4)" by (metis prod.exhaust)
  have "c' = wake_taken ws' c4 \<or> (\<exists>x. c' = c1\<lparr>ck_spin_due_since := x\<rparr>) \<or> c' = c1"
    using call False s f c1
    by (auto simp: ck_spin_step_def Let_def simp flip: c2_def split: option.splits if_splits)
  then show ?thesis using fire_wake_moves [OF m3 f] m by (auto simp: moves_flags)
qed (use call wf in \<open>auto simp: ck_spin_step_def moves_refl split: if_splits\<close>)

text \<open>Reading the pace limit and landing past a deadline.\<close>

lemma pace_land_moves:
  assumes m: "moves c rl c2" and d: "\<not> ck_driven c2" "\<not> is_scaled c2" and q: "\<And>x. qpc x \<le> U64_MAX"
    and l: "pace_limit status c2 rl' = (bound, c3)"
  shows "moves c rl c3"
    and "moves c rl (snd (take_wakers (c3\<lparr>ck_monotonic := max (ck_monotonic c3) (creep_past os qpc n)\<rparr>)
      (creep_past os qpc n)))"
proof -
  have c3: "c3 = release_children status rl' c2" using l by (simp add: pace_limit_def Let_def)
  show m3: "moves c rl c3" using m by (simp add: c3 release_children_def Let_def moves_flags)
  have "\<not> ck_driven c3" "\<not> is_scaled c3"
    using d by (simp_all add: c3 release_children_def Let_def is_scaled_def)
  then show "moves c rl (snd (take_wakers (c3\<lparr>ck_monotonic := max (ck_monotonic c3) (creep_past os qpc n)\<rparr>)
      (creep_past os qpc n)))"
    using m3 creep_past_u64 [OF q] by (intro take_wakers_moves moves_raise) auto
qed

lemma skip_moves:
  assumes wf: "clock_wf c" and q: "\<And>x. qpc x \<le> U64_MAX"
    and "\<not> ck_driven c" "\<not> is_scaled c"
  shows "moves c rl (snd (snd (skip_to_next_deadline os qpc status c rl rl')))"
proof -
  obtain c1 where c1: "peek c rl = (reading c rl, c1)" and m: "moves c rl c1" using peek_split [OF wf] .
  have d: "\<not> ck_driven c1" "\<not> is_scaled c1" using c1 assms(3,4) by (simp_all add: peek_fields is_scaled_def)
  obtain b ws p where t: "take_upto (ck_pending c1) (reading c rl) = (b, ws, p)" by (metis prod.exhaust)
  define c2 where "c2 = c1\<lparr>ck_pending := p\<rparr>"
  have m2: "moves c rl c2"
    using m t take_upto_wf [of "ck_pending c1" "reading c rl"] moves_tables [OF m] by (simp add: c2_def moves_pending)
  obtain lim c3 where l: "pace_limit status c2 rl' = (lim, c3)" by (metis prod.exhaust)
  have d2: "\<not> ck_driven c2" "\<not> is_scaled c2" using d by (simp_all add: c2_def is_scaled_def)
  note m3 = pace_land_moves [OF m2 d2 q l]
  show ?thesis
    using m m2 m3
    by (auto simp: skip_to_next_deadline_def c1 t l Let_def moves_flags case_prod_beta simp flip: c2_def split: option.split)
qed

lemma advance_deadline_moves:
  assumes wf: "clock_wf c" and q: "\<And>x. qpc x \<le> U64_MAX"
  shows "moves c rl (snd (snd (advance_to_next_deadline os qpc status admit c rl rl')))"
proof -
  obtain c1 where c1: "peek c rl = (reading c rl, c1)" and m: "moves c rl c1" using peek_split [OF wf] .
  have "moves c rl (c1\<lparr>ck_pending := snd (snd (take_upto (ck_pending c1) n)), ck_fired := False\<rparr>)" for n
    using m by (simp add: moves_flags moves_pending take_upto_wf moves_tables)
  then show ?thesis
    using skip_moves [OF wf q] moves_refl [OF wf]
    by (auto simp: advance_to_next_deadline_def c1 Let_def case_prod_beta moves_wake_taken)
qed

lemma advance_any_moves:
  assumes wf: "clock_wf c" and q: "\<And>x. qpc x \<le> U64_MAX"
  shows "moves c rl (snd (snd (advance_to_next_any_deadline os qpc status admit c rl rl')))"
proof (cases "\<not> admit \<or> ck_paused c \<or> is_scaled c \<or> \<not> ck_discrete c \<and> \<not> ck_dormant c \<or> ck_driven c")
  case False
  obtain c1 where c1: "peek c rl = (reading c rl, c1)" and m: "moves c rl c1" using peek_split [OF wf] .
  have d: "\<not> ck_driven c1" "\<not> is_scaled c1" using c1 False by (auto simp: peek_fields is_scaled_def)
  obtain b ws p where t: "take_upto (ck_pending c1) (reading c rl) = (b, ws, p)" by (metis prod.exhaust)
  obtain b' ws' f where u: "take_upto (ck_foreign c1) (reading c rl) = (b', ws', f)" by (metis prod.exhaust)
  define c2 where "c2 = c1\<lparr>ck_pending := p, ck_foreign := f\<rparr>"
  have "timers_wf p" "timers_wf f"
    using t u take_upto_wf [of "ck_pending c1" "reading c rl"] take_upto_wf [of "ck_foreign c1" "reading c rl"]
      moves_tables [OF m] by simp_all
  then have m2: "moves c rl c2" using m by (simp add: c2_def moves_pending moves_foreign)
  obtain lim c3 where l: "pace_limit status c2 rl' = (lim, c3)" by (metis prod.exhaust)
  have d2: "\<not> ck_driven c2" "\<not> is_scaled c2" using d by (simp_all add: c2_def is_scaled_def)
  note m3 = pace_land_moves [OF m2 d2 q l]
  show ?thesis
    using False m m2 m3
    by (auto simp: advance_to_next_any_deadline_def c1 t u l Let_def moves_flags moves_wake_taken case_prod_beta
        simp flip: c2_def split: option.split)
qed (use moves_refl [OF wf] in \<open>auto simp: advance_to_next_any_deadline_def\<close>)

end
