(* ===== verification/Clock_Runs.thy ===== *)
theory Clock_Runs
  imports Clock_Timers
begin

text \<open>
  The clock as a transition system (\<^verbatim>\<open>crates/snare/src/clock.rs\<close>): every operation of the clock is a step, readings
  never go back along a run, and the properties of skips, spins and charges follow from the lemmas of the clock and
  its timers.
\<close>

section \<open>Runs of the clock\<close>

text \<open>
  One operation of the clock, sampling real time at \<open>rl\<close> first; arguments that the source holds in
  64 bits are bounded.
\<close>

inductive clock_op ::
  "target_os \<Rightarrow> (nat \<Rightarrow> nat) \<Rightarrow> (int \<Rightarrow> bool option) \<Rightarrow> 'w clock \<Rightarrow> nat \<Rightarrow> 'w clock \<Rightarrow> bool"
  for os qpc status c rl where
  op_read: "clock_op os qpc status c rl (snd (ck_advance free c rl))"
| op_peek: "clock_op os qpc status c rl (snd (peek c rl))"
| op_jump: "wake \<le> U64_MAX \<Longrightarrow> clock_op os qpc status c rl (snd (jump_to c wake))"
| op_rate: "clock_op os qpc status c rl (set_rate c rl r)"
| op_discrete: "clock_op os qpc status c rl (set_discrete c on)"
| op_deterministic: "clock_op os qpc status c rl (set_deterministic c on)"
| op_pause: "clock_op os qpc status c rl (ck_pause c rl)"
| op_stamp: "(\<And>x. t = Some x \<Longrightarrow> x \<le> U64_MAX) \<Longrightarrow> clock_op os qpc status c rl (set_stamp c t)"
| op_resume: "clock_op os qpc status c rl (ck_resume c rl)"
| op_advance: "clock_op os qpc status c rl (advance_by c rl d)"
| op_set: "rl \<le> rl' \<Longrightarrow> clock_op os qpc status c rl (snd (set_value c rl rl' v))"
| op_attach: "clock_op os qpc status c rl (attach_driven c rl rl')"
| op_detach: "clock_op os qpc status c rl (detach_driven c rl rl')"
| op_grant: "av \<le> U64_MAX \<Longrightarrow> hz \<le> U64_MAX \<Longrightarrow> clock_op os qpc status c rl (ck_grant c rl rl' av ar r hz)"
| op_freeze: "clock_op os qpc status c rl (ck_freeze c rl rl')"
| op_drive: "t \<le> U64_MAX \<Longrightarrow> clock_op os qpc status c rl (snd (jump_driven os qpc c rl rl' t to_next past))"
| op_dormant: "clock_op os qpc status c rl (set_dormant c rl rl' on)"
| op_outside: "clock_op os qpc status c rl (hold_outside c rl rl' on)"
| op_child: "clock_op os qpc status c rl (hold_child c rl rl' pid)"
| op_reaped: "clock_op os qpc status c rl (release_child c pid)"
| op_register: "clock_op os qpc status c rl (snd (snd (register_timer c rl after foreign event lineage)))"
| op_unregister: "clock_op os qpc status c rl (snd (unregister_timer c rl wake foreign me))"
| op_unevent: "clock_op os qpc status c rl (unregister_event c wake)"
| op_wake: "tm_wakes (ck_timers c foreign) i = None \<Longrightarrow>
    clock_op os qpc status c rl (snd (register_wake c at' i ow w foreign))"
| op_cancel: "ck_cancel_wake c rl i = Some x \<Longrightarrow> clock_op os qpc status c rl (snd x)"
| op_fire: "clock_op os qpc status c rl (snd (snd (fire_upto c from' t)))"
| op_wake_due: "clock_op os qpc status c rl (snd (wake_due c rl))"
| op_charge: "ck_charge os qpc free c rl latency = Some (b, ws, c') \<Longrightarrow> clock_op os qpc status c rl c'"
| op_spin: "ck_spin_step os qpc c rl rl' step = Some (s, ws, c') \<Longrightarrow> clock_op os qpc status c rl c'"
| op_skip: "clock_op os qpc status c rl (snd (snd (advance_to_next_deadline os qpc status admit c rl rl')))"
| op_skip_any: "clock_op os qpc status c rl (snd (snd (advance_to_next_any_deadline os qpc status admit c rl rl')))"
| op_idle: "clock_op os qpc status c rl (snd (pace_limit status c rl))"

lemma wake_due_moves: "clock_wf c \<Longrightarrow> moves c rl (snd (wake_due c rl))"
  using take_wakers_moves [OF peek_moves, of c rl]
  by (auto simp: wake_due_def Let_def case_prod_beta moves_wake_taken)

lemma stamp_moves: "clock_wf c \<Longrightarrow> (\<And>x. t = Some x \<Longrightarrow> x \<le> U64_MAX) \<Longrightarrow> moves c rl (set_stamp c t)"
  by (rule moves_same) (auto simp: set_stamp_def clock_wf_def ck_line_def split: option.split)

lemma clock_op_moves:
  assumes "clock_op os qpc status c rl c'" "clock_wf c" "\<And>x. qpc x \<le> U64_MAX"
  shows "moves c rl c'"
  using assms(1)
proof cases
  case (op_cancel i x)
  then show ?thesis using cancel_wake_moves [OF assms(2), of rl i] by auto
next
  case (op_charge free latency b ws)
  then show ?thesis using charge_moves [OF assms(2), of qpc os free rl latency b ws c'] assms(3) by simp
next
  case (op_spin rl' step s ws)
  then show ?thesis using spin_step_moves [OF assms(2), of qpc os rl rl' step s ws c'] assms(3) by simp
qed (use assms(2,3) in \<open>simp_all add: set_discrete_def set_deterministic_def moves_flags ck_pause_def stamp_moves advance_moves peek_moves jump_to_moves set_rate_moves resume_moves
    advance_by_moves set_value_moves attach_moves detach_moves grant_moves freeze_moves jump_driven_moves hold_moves
    register_timer_moves unregister_timer_moves unregister_event_moves register_wake_moves fire_upto_moves moves_refl
    wake_due_moves advance_deadline_moves advance_any_moves\<close>)

text \<open>A run of the clock from real time \<open>rl\<close>: operations at real times that never go back.\<close>

inductive clock_run ::
  "target_os \<Rightarrow> (nat \<Rightarrow> nat) \<Rightarrow> (int \<Rightarrow> bool option) \<Rightarrow> 'w clock \<Rightarrow> nat \<Rightarrow> 'w clock \<Rightarrow> nat \<Rightarrow> bool"
  for os qpc status c rl where
  start: "rl \<le> t \<Longrightarrow> clock_run os qpc status c rl c t"
| step: "clock_run os qpc status c rl c1 t1 \<Longrightarrow> clock_op os qpc status c1 t1 c2 \<Longrightarrow> t1 \<le> t2 \<Longrightarrow>
    clock_run os qpc status c rl c2 t2"

lemma clock_run_inv:
  assumes "clock_run os qpc status c rl c' t" "clock_wf c" "\<And>x. qpc x \<le> U64_MAX"
  shows "clock_wf c' \<and> reading c rl \<le> reading c' t"
  using assms(1)
proof induction
  case (start t)
  then show ?case using assms(2) by (simp add: reading_mono)
next
  case (step c1 t1 c2 t2)
  then have "moves c1 t1 c2" using clock_op_moves [OF step.hyps(2)] assms(3) by blast
  then show ?case using step.IH step.hyps(3) unfolding moves_def by (meson le_trans)
qed

lemma clock_new_wf [simp, wf_intros]: "clock_wf (clock_new n)"
  by (simp add: clock_wf_def clock_new_def)

text \<open>
  C1: Along any run of the clock's operations at real times that never go back (rate changes, pauses, explicit
  advances, the executive's grants and jumps, timers, charges, spins and skips), a reading is never smaller
  than an earlier one, every reading fits 64 bits, and a driven clock never reads past its horizon.
\<close>

theorem clock_never_back:
  assumes "clock_wf c" "\<And>x. qpc x \<le> U64_MAX" "clock_run os qpc status c rl c' t"
  shows "reading c rl \<le> reading c' t \<and> reading c' t \<le> U64_MAX \<and> (ck_driven c' \<longrightarrow> reading c' t \<le> ck_horizon c')"
  using clock_run_inv [OF assms(3,1)] assms(2) reading_u64 reading_horizon by blast

theorem clock_never_back_witness:
  "let c = clock_new 37 :: nat clock; c1 = ck_grant (attach_driven c 0 0) 1 1 5 1 (Finite 2) 9
   in reading c 0 = 0 \<and> ck_driven c1 \<and> reading c1 2 = 7 \<and> reading c1 100 = 9 \<and> reading c1 100 \<le> ck_horizon c1"
proof -
  define c :: "nat clock" where "c = clock_new 37"
  define c1 where "c1 = ck_grant (attach_driven c 0 0) 1 1 5 1 (Finite 2) 9"
  have run: "clock_run Linux (\<lambda>_. 0) (\<lambda>_. None) c 0 c1 100"
    unfolding c1_def
    by (intro clock_run.step [OF clock_run.step [OF clock_run.start op_attach] op_grant]) (simp_all add: U64_MAX_def)
  have q: "rate_to_q32 (Finite 2) = 8589934592"
    by (simp add: rate_to_q32_def MAX_RATE_def floor_divide_of_int_eq [of 17179869185 2, simplified])
  have "ck_driven c1 \<longrightarrow> reading c1 100 \<le> ck_horizon c1"
    using clock_never_back [OF _ _ run] by (simp add: c_def U64_MAX_def)
  moreover have "reading c 0 = 0 \<and> ck_driven c1 \<and> reading c1 2 = 7 \<and> reading c1 100 = 9"
    by (simp add: c1_def c_def ck_grant_def attach_driven_def clock_new_def peek_def line_value_def is_scaled_def
        held_value_def publish_line_def ck_line_def value_at_def q reading_def U64_MAX_def Let_def sat_simps
        drop_bit_eq_div)
  ultimately show ?thesis by (simp add: Let_def c1_def c_def)
qed

section \<open>Discrete clocks\<close>

text \<open>A clock that is neither driven nor scaled reads its stored value, and reading it changes nothing.\<close>

definition idle_discrete :: "'w clock \<Rightarrow> bool" where
  "idle_discrete c \<longleftrightarrow> \<not> ck_driven c \<and> \<not> is_scaled c"

lemma idle_reading: "idle_discrete c \<Longrightarrow> reading c t = max (ck_monotonic c) (ck_floor c)"
  by (simp add: idle_discrete_def reading_eq held_value_def is_scaled_def)

lemma idle_peek: "idle_discrete c \<Longrightarrow> peek c t = (max (ck_monotonic c) (ck_floor c), c)"
  by (simp add: idle_discrete_def peek_def held_value_def)

lemma take_wakers_reading [simp]: "reading (snd (take_wakers c n)) t = reading c t"
  by (simp add: take_wakers_def Let_def case_prod_beta reading_eq held_value_def ck_line_def)

lemma fire_reading [simp]: "reading (snd (snd (fire_upto c a b))) t = reading c t"
  by (auto simp: fire_upto_def Let_def case_prod_beta wake_taken_def reading_eq held_value_def ck_line_def)

lemma wake_taken_reading [simp]: "reading (wake_taken ws c) t = reading c t"
  by (auto simp: wake_taken_def reading_eq held_value_def ck_line_def)

lemma next_deadline_iff:
  assumes "timers_wf (ck_pending c)" "now < U64_MAX"
  shows "next_deadline_after c now = Some n \<longleftrightarrow> now < n \<and> bt_get (tm_entries (ck_pending c)) n \<noteq> None \<and>
    (\<forall>k. now < k \<and> bt_get (tm_entries (ck_pending c)) k \<noteq> None \<longrightarrow> n \<le> k)"
  using bt_from_first [OF timers_wfD(1) [OF assms(1)], of "now + 1" n] assms(2)
  by (auto simp: next_deadline_after_def sat_simps)

lemma next_deadline_None:
  assumes "timers_wf (ck_pending c)" "now < U64_MAX"
  shows "next_deadline_after c now = None \<longleftrightarrow> (\<forall>k. now < k \<longrightarrow> bt_get (tm_entries (ck_pending c)) k = None)"
  using bt_from_None [OF timers_wfD(1) [OF assms(1)], of "now + 1"] assms(2)
  by (auto simp: next_deadline_after_def sat_simps)

lemma take_upto_first:
  "bt_first (tm_entries (snd (snd (take_upto (ck_pending c) now)))) = next_deadline_after c now"
  by (simp add: take_upto_def next_deadline_after_def bt_from_def Let_def)

lemma creep_past_gt: "t < U64_MAX \<Longrightarrow> t < creep_past os qpc t"
  by (auto simp: creep_past_def sat_simps)

text \<open>What taking the wakers of one instant, and of several, does to a table.\<close>

lemma take_key_ok:
  assumes "timers_wf t"
  shows "fst (snd (take_key reset hold k t)) =
      (case bt_get (tm_entries t) k of None \<Rightarrow> [] | Some e \<Rightarrow> map (snd \<circ> snd) (e_wakers e))"
    and "k' \<noteq> k \<Longrightarrow> bt_get (tm_entries (snd (snd (take_key reset hold k t)))) k' = bt_get (tm_entries t) k'"
    and "bt_get (tm_entries (snd (snd (take_key reset hold k t)))) k = Some e \<Longrightarrow>
      e_wakers e = [] \<and> (reset \<longrightarrow> e_events e = 0)"
proof -
  have "fst (snd (take_key reset hold k t)) =
      (case bt_get (tm_entries t) k of None \<Rightarrow> [] | Some e \<Rightarrow> map (snd \<circ> snd) (e_wakers e)) \<and>
    (\<forall>k'. k' \<noteq> k \<longrightarrow> bt_get (tm_entries (snd (snd (take_key reset hold k t)))) k' = bt_get (tm_entries t) k') \<and>
    (\<forall>e. bt_get (tm_entries (snd (snd (take_key reset hold k t)))) k = Some e \<longrightarrow>
      e_wakers e = [] \<and> (reset \<longrightarrow> e_events e = 0))"
  proof (cases "bt_get (tm_entries t) k")
    case (Some e)
    let ?e = "if reset then e\<lparr>e_events := 0\<rparr> else e"
    let ?t = "set_entry k ?e t"
    note d = timers_wfD(1) [OF assms]
    have wf: "timers_wf ?t" using assms Some by (intro set_entry_same_wf) (simp_all add: entry_at_get)
    have "bt_get (tm_entries ?t) k = Some ?e" using d by (simp add: set_entry_def)
    from take_wakers_at_ok [OF wf this, of hold] obtain t2 where
      t2: "tm_take_wakers_at ?t k hold = Some (e_wakers ?e \<noteq> [], map (snd \<circ> snd) (e_wakers ?e), t2)"
      and w2: "timers_wf t2"
      and g2: "bt_get (tm_entries t2) = (bt_get (tm_entries ?t))(k \<mapsto>
        ?e\<lparr>e_wakers := [], e_awaiting := e_awaiting ?e @ (if hold then map fst (e_wakers ?e) else [])\<rparr>)"
      by blast
    show ?thesis
      using Some t2 g2 timers_wfD(1) [OF w2] d
      by (auto simp: take_key_def put_entry_def set_entry_def entry_at_def)
  qed (simp add: take_key_def)
  then show "fst (snd (take_key reset hold k t)) =
      (case bt_get (tm_entries t) k of None \<Rightarrow> [] | Some e \<Rightarrow> map (snd \<circ> snd) (e_wakers e))"
    and "k' \<noteq> k \<Longrightarrow> bt_get (tm_entries (snd (snd (take_key reset hold k t)))) k' = bt_get (tm_entries t) k'"
    and "bt_get (tm_entries (snd (snd (take_key reset hold k t)))) k = Some e \<Longrightarrow>
      e_wakers e = [] \<and> (reset \<longrightarrow> e_events e = 0)"
    by blast+
qed

lemma take_keys_ok:
  assumes "timers_wf t" "distinct ks"
  shows "fst (snd (take_keys reset hold ks t)) = concat (map (\<lambda>k. case bt_get (tm_entries t) k of
      None \<Rightarrow> [] | Some e \<Rightarrow> map (snd \<circ> snd) (e_wakers e)) ks)"
    and "k \<notin> set ks \<Longrightarrow> bt_get (tm_entries (snd (snd (take_keys reset hold ks t)))) k = bt_get (tm_entries t) k"
    and "k \<in> set ks \<Longrightarrow> bt_get (tm_entries (snd (snd (take_keys reset hold ks t)))) k = Some e \<Longrightarrow>
      e_wakers e = [] \<and> (reset \<longrightarrow> e_events e = 0)"
  using assms
proof (induction ks arbitrary: t)
  case (Cons a ks)
  {
    case 1
    have "bt_get (tm_entries (snd (snd (take_key reset hold a t)))) k = bt_get (tm_entries t) k" if "k \<in> set ks" for k
      using 1 that take_key_ok(2) [of t k a] by auto
    then show ?case using 1 Cons.IH(1) [OF take_key_wf, of t reset hold a] take_key_ok(1) [of t reset hold a]
      by (simp add: Let_def case_prod_beta cong: map_cong)
  next
    case 2
    then show ?case using Cons.IH(2) [OF _ take_key_wf, of t reset hold a] take_key_ok(2) [of t k a]
      by (simp add: Let_def case_prod_beta)
  next
    case 3
    show ?case
    proof (cases "k = a")
      case True
      then show ?thesis using 3 Cons.IH(2) [OF _ take_key_wf, of t reset hold a] take_key_ok(3) [of t reset hold a e]
        by (simp add: Let_def case_prod_beta)
    next
      case False
      then show ?thesis using 3 Cons.IH(3) [of "snd (snd (take_key reset hold a t))"] take_key_wf [of t reset hold a] by (simp add: Let_def case_prod_beta)
    qed
  }
qed simp_all

lemma fire_upto_delivers:
  assumes "clock_wf c" "k \<le> t"
    "bt_get (tm_entries (ck_timers (snd (snd (fire_upto c from' t))) foreign)) k = Some e"
  shows "e_wakers e = [] \<and> e_events e = 0"
proof -
  have key: "k \<in> set (map fst (bt_upto t (tm_entries tm)))" if "bt_get (tm_entries tm) k = Some e'" for tm e'
    using that assms(2) map_of_SomeD by (force simp: bt_upto_def)
  have gone: "e_wakers e = [] \<and> e_events e = 0"
    if "timers_wf tm" "bt_get (tm_entries (snd (snd (take_keys True hold (map fst (bt_upto t (tm_entries tm))) tm)))) k = Some e"
    for tm hold
  proof -
    have d: "distinct (map fst (bt_upto t (tm_entries tm)))"
      using bt_wf_distinct [of "bt_upto t (tm_entries tm)"] timers_wfD(1) [OF that(1)] by (simp add: bt_upto_def)
    show ?thesis
      using take_keys_ok(2,3) [OF that(1) d, of k True hold] key that(2) by fastforce
  qed
  show ?thesis
    using assms(1,3) gone [of "ck_pending c"] gone [of "ck_foreign c"]
    by (auto simp: fire_upto_def ck_timers_def wake_taken_def clock_wf_def Let_def case_prod_beta split: if_splits)
qed

lemma step_base_idle:
  assumes "clock_wf c" "idle_discrete c" "step_base c d = ((before, after), c')"
  shows "before = reading c rl" "after = saturating_add (reading c rl) d" "reading c' t = after"
    "ck_pending c' = ck_pending c" "ck_foreign c' = ck_foreign c" "idle_discrete c'" "clock_wf c'"
proof -
  have i: "\<not> ck_driven c" "\<not> is_scaled c" using assms(2) by (simp_all add: idle_discrete_def)
  show ba: "before = reading c rl" "after = saturating_add (reading c rl) d" and "clock_wf c'"
    using step_base_moves(1) [OF assms(1) i, of rl d] step_base_moves(2) [OF assms(1) i, of d rl] assms(3)
    by (simp_all add: moves_def)
  have c': "c' = c\<lparr>ck_monotonic := after, ck_floor := max (ck_floor c) after\<rparr>"
    using assms(3) by (auto simp: step_base_def Let_def)
  have "ck_floor c \<le> after"
    using ba(2) reading_ge(2) [OF assms(1), of rl] assms(1) by (simp add: sat_simps clock_wf_def)
  then show "reading c' t = after" "idle_discrete c'"
    using i by (simp_all add: c' reading_eq held_value_def is_scaled_def idle_discrete_def)
  show "ck_pending c' = ck_pending c" "ck_foreign c' = ck_foreign c" by (simp_all add: c')
qed

lemma reached_iff:
  assumes "clock_wf c" "before < after" "after \<le> U64_MAX"
  shows "ck_reached c before after =
    Some (\<exists>foreign k. before < k \<and> k \<le> after \<and> bt_get (tm_entries (ck_timers c foreign)) k \<noteq> None)"
proof -
  have s: "saturating_add before (Suc 0) = Suc before" using assms(2,3) by (simp add: sat_simps)
  have nonempty: "m \<noteq> [] \<longleftrightarrow> (\<exists>k. bt_get m k \<noteq> None)" if "bt_wf m" for m :: "(nat \<times> 'w) list"
    using bt_mem_get [OF that] by (cases m) auto
  have "bt_upto after (bt_from (Suc before) (tm_entries (ck_timers c foreign))) \<noteq> [] \<longleftrightarrow>
      (\<exists>k. before < k \<and> k \<le> after \<and> bt_get (tm_entries (ck_timers c foreign)) k \<noteq> None)" for foreign
  proof -
    have "bt_wf (tm_entries (ck_timers c foreign))"
      using assms(1) timers_wfD(1) by (auto simp: ck_timers_def clock_wf_def)
    then have "bt_wf (bt_upto after (bt_from (Suc before) (tm_entries (ck_timers c foreign))))"
      by (simp add: bt_upto_def)
    from nonempty [OF this] show ?thesis by (simp add: Suc_le_eq conj_commute) blast
  qed
  then show ?thesis using assms(2) unfolding ck_reached_def by (simp add: s ex_bool_eq) blast
qed


text \<open>The landing of a spin step.\<close>

lemma spin_landing_bounds:
  assumes "timers_wf (ck_pending c)" "now < U64_MAX" "\<forall>x. qpc x \<le> U64_MAX"
  shows "now < spin_landing os qpc c now d" "spin_landing os qpc c now d \<le> U64_MAX"
    and "next_deadline_after c now = Some n \<Longrightarrow>
      spin_landing os qpc c now d < n \<or> n = now + 1 \<and> spin_landing os qpc c now d = creep_past os qpc n"
proof -
  have tgt: "now < saturating_add now (max d 1)" "saturating_add now (max d 1) \<le> U64_MAX"
    using assms(2) by (auto simp: sat_simps)
  have n: "now < n" if "next_deadline_after c now = Some n" for n
    using next_deadline_iff [OF assms(1,2)] that by blast
  have cr: "now < creep_past os qpc n" if "now < n" for n
    using that assms(2) by (auto simp: creep_past_def sat_simps Let_def)
  have short: "x - Suc 0 \<le> U64_MAX" if "x \<le> saturating_add now (max d (Suc 0))" for x
    using that by (auto simp: sat_simps intro: le_trans [OF diff_le_self])
  show "now < spin_landing os qpc c now d"
    using tgt n cr by (auto simp: spin_landing_def Let_def split: option.split)
  show "spin_landing os qpc c now d \<le> U64_MAX"
    using creep_past_u64 [of qpc os] assms(3) short by (simp add: spin_landing_def Let_def split: option.split)
  show "next_deadline_after c now = Some n \<Longrightarrow>
      spin_landing os qpc c now d < n \<or> n = now + 1 \<and> spin_landing os qpc c now d = creep_past os qpc n"
    using n [of n] by (auto simp: spin_landing_def Let_def)
qed


text \<open>A clock with one pending wait, for the witnesses.\<close>

definition one_wait :: "nat clock" where
  "one_wait = snd (snd (register_timer (clock_new 37) 0 10 False False 1))"

lemma one_wait_eq: "one_wait = (clock_new 37)\<lparr>ck_pending :=
    \<lparr>tm_entries = [(10, entry_default\<lparr>e_waits := 1, e_owners := to_push to_default 1\<rparr>)], tm_wakes = Map.empty\<rparr>\<rparr>"
  by (simp add: one_wait_def register_timer_def clock_new_def jumps_def is_scaled_def peek_def held_value_def
      add_pending_def ck_timers_def set_timers_def add_wait_def set_entry_def timers_default_def entry_at_def
      entry_default_def wake_taken_def sat_simps U64_MAX_def)

lemma one_wait_wf: "clock_wf one_wait"
  using register_timer_moves [of "clock_new 37 :: nat clock" 0 10 False False 1] by (simp add: moves_def one_wait_def)

lemma one_wait_facts:
  "reading one_wait t = 0" "next_deadline_after one_wait 0 = Some 10" "\<not> ck_driven one_wait" "running_discrete one_wait"
  "peek one_wait t = (0, one_wait)" "fst (ck_due one_wait t) = None"
  by (simp_all add: one_wait_eq clock_new_def is_scaled_def peek_def held_value_def reading_def running_discrete_def
      next_deadline_after_def bt_from_def bt_first_def ck_due_def bt_upto_def sat_simps U64_MAX_def)



section \<open>Time skips\<close>



section \<open>Placing clocks on one timeline\<close>

lemma fold_max_ge:
  fixes a :: nat
  shows "a \<le> fold (max \<circ> f) xs a" "x \<in> set xs \<Longrightarrow> f x \<le> fold (max \<circ> f) xs a"
proof -
  have "a \<le> fold (max \<circ> f) xs a \<and> (\<forall>x \<in> set xs. f x \<le> fold (max \<circ> f) xs a)"
  proof (induction xs arbitrary: a)
    case (Cons y xs)
    have "max (f y) a \<le> fold (max \<circ> f) xs (max (f y) a)" using Cons.IH by blast
    then show ?case using Cons.IH [of "max (f y) a"] by simp
  qed simp
  then show "a \<le> fold (max \<circ> f) xs a" "x \<in> set xs \<Longrightarrow> f x \<le> fold (max \<circ> f) xs a" by blast+
qed

lemma fold_max_le: "a \<le> b \<Longrightarrow> \<forall>x \<in> set xs. f x \<le> b \<Longrightarrow> fold (max \<circ> f) xs a \<le> (b :: nat)"
  by (induction xs arbitrary: a) auto

text \<open>The start of a clock, one whole grain past a high-water mark that leaves room.\<close>

lemma start_value:
  assumes "m + 2 * START_GRAIN \<le> U64_MAX"
  shows "\<exists>s. saturating_mul (div_ceil (saturating_add m START_GRAIN) START_GRAIN) START_GRAIN = s \<and>
    START_GRAIN dvd s \<and> m + START_GRAIN \<le> s \<and> s \<le> U64_MAX"
proof -
  have g: "0 < START_GRAIN" by (simp add: START_GRAIN_def)
  have "div_ceil (m + START_GRAIN) START_GRAIN \<le> (m + START_GRAIN) div START_GRAIN + 1"
    by (rule div_ceil_least [OF g])
      (use dividend_less_div_times [OF g, of "m + START_GRAIN"] in \<open>simp add: algebra_simps\<close>)
  then have "div_ceil (m + START_GRAIN) START_GRAIN * START_GRAIN \<le> ((m + START_GRAIN) div START_GRAIN + 1) * START_GRAIN"
    by (rule mult_le_mono1)
  also have "\<dots> \<le> m + 2 * START_GRAIN" using div_times_less_eq_dividend [of "m + START_GRAIN" START_GRAIN]
    by (simp add: algebra_simps)
  finally have "div_ceil (m + START_GRAIN) START_GRAIN * START_GRAIN \<le> U64_MAX" using assms by simp
  then show ?thesis using assms div_ceil_ge [OF g, of "m + START_GRAIN"] by (simp add: sat_simps)
qed



end
