(* ===== verification/Slot_Queue.thy ===== *)
theory Slot_Queue
  imports Prelude
begin

text \<open>
  The contract of a priority queue whose elements can be removed by the slot they were pushed under, as
  the timer shim uses it. The queue stands for a finite map from slots to elements. The client lemmas
  about popping everything due are proved here once, from these laws alone.
\<close>

locale slot_queue =
  fixes wf :: "'q \<Rightarrow> bool"
    and look :: "'q \<Rightarrow> 's \<rightharpoonup> 'a"
    and push :: "'q \<Rightarrow> 'a \<Rightarrow> ('s \<times> 'q) option"
    and rem :: "'q \<Rightarrow> 's \<Rightarrow> ('a \<times> 'q) option"
    and pop :: "'q \<Rightarrow> ('a option \<times> 'q) option"
    and head :: "'q \<Rightarrow> 'a option"
    and key :: "'a \<Rightarrow> 'k::linorder"
  assumes finite_slots: "wf q \<Longrightarrow> finite (dom (look q))"
    and push_ok: "wf q \<Longrightarrow> \<exists>s q'. push q x = Some (s, q') \<and> wf q' \<and> look q s = None \<and> look q' = (look q)(s \<mapsto> x)"
    and rem_ok: "wf q \<Longrightarrow> look q s = Some x \<Longrightarrow> \<exists>q'. rem q s = Some (x, q') \<and> wf q' \<and> look q' = (look q)(s := None)"
    and head_None: "wf q \<Longrightarrow> head q = None \<longleftrightarrow> look q = Map.empty"
    and pop_None: "wf q \<Longrightarrow> head q = None \<Longrightarrow> pop q = Some (None, q)"
    and pop_Some: "wf q \<Longrightarrow> head q = Some x \<Longrightarrow>
      \<exists>s q'. pop q = Some (Some x, q') \<and> wf q' \<and> look q s = Some x \<and> look q' = (look q)(s := None)"
    and head_least: "wf q \<Longrightarrow> head q = Some x \<Longrightarrow> look q s = Some y \<Longrightarrow> key x \<le> key y"
begin

text \<open>Popping as long as the head is due at \<open>d\<close>.\<close>

inductive pops :: "'k \<Rightarrow> 'q \<Rightarrow> 'a list \<Rightarrow> 'q \<Rightarrow> bool" for d where
  pops_stop: "(case head q of None \<Rightarrow> True | Some x \<Rightarrow> d < key x) \<Longrightarrow> pops d q [] q"
| pops_step: "head q = Some x \<Longrightarrow> key x \<le> d \<Longrightarrow> pop q = Some (Some x, q1) \<Longrightarrow> pops d q1 xs q' \<Longrightarrow> pops d q (x # xs) q'"

lemma pops_total:
  assumes "wf q"
  shows "\<exists>xs q'. pops d q xs q'"
  using assms
proof (induction "card (dom (look q))" arbitrary: q rule: less_induct)
  case less
  show ?case
  proof (cases "case head q of None \<Rightarrow> True | Some x \<Rightarrow> d < key x")
    case True
    then show ?thesis using pops_stop by blast
  next
    case False
    then obtain x where x: "head q = Some x" "key x \<le> d" by (auto split: option.splits)
    then obtain s q1 where q1: "pop q = Some (Some x, q1)" "wf q1" "look q s = Some x" "look q1 = (look q)(s := None)"
      using pop_Some [OF less.prems] by blast
    have "dom (look q1) \<subset> dom (look q)" using q1(3,4) by auto
    then have "card (dom (look q1)) < card (dom (look q))"
      using finite_slots [OF less.prems] by (rule psubset_card_mono [rotated])
    then show ?thesis using less.hyps [OF _ q1(2)] pops_step [OF x q1(1)] by blast
  qed
qed

text \<open>
  What popping the due elements leaves is exactly the elements that are not due, and the due ones come
  out in the order of their keys, each slot once.
\<close>

lemma pops_exact:
  assumes "pops d q xs q'" "wf q"
  shows "wf q' \<and> look q' = (\<lambda>s. case look q s of Some x \<Rightarrow> if key x \<le> d then None else Some x | None \<Rightarrow> None) \<and>
    sorted (map key xs) \<and> (\<exists>ss. distinct ss \<and> set ss = {s. \<exists>x. look q s = Some x \<and> key x \<le> d} \<and> map (look q) ss = map Some xs)"
  using assms
proof (induction rule: pops.induct)
  case (pops_stop q)
  have late: "d < key y" if "look q s = Some y" for s y
  proof (cases "head q")
    case None
    then show ?thesis using that head_None [OF pops_stop.prems] by simp
  next
    case (Some x)
    then show ?thesis using that pops_stop.hyps head_least [OF pops_stop.prems Some that] by auto
  qed
  then have "look q = (\<lambda>s. case look q s of Some x \<Rightarrow> if key x \<le> d then None else Some x | None \<Rightarrow> None)"
    by (auto simp: fun_eq_iff not_le split: option.split dest!: late)
  moreover have "{s. \<exists>x. look q s = Some x \<and> key x \<le> d} = {}" using late by (auto simp: not_le)
  ultimately show ?case using pops_stop.prems by (auto intro: exI [of _ "[]"])
next
  case (pops_step q x q1 xs q')
  obtain s where q1: "wf q1" "look q s = Some x" "look q1 = (look q)(s := None)"
    using pop_Some [OF pops_step.prems pops_step.hyps(1)] pops_step.hyps(3) by auto
  note IH = pops_step.IH [OF q1(1)]
  obtain ss where ss: "distinct ss" "set ss = {s. \<exists>x. look q1 s = Some x \<and> key x \<le> d}" "map (look q1) ss = map Some xs"
    using IH by blast
  have "s \<notin> set ss" using ss(2) q1(3) by auto
  moreover from this have "map (look q) ss = map Some xs"
    using ss(3) q1(3) by (metis (no_types, lifting) fun_upd_apply map_eq_conv)
  moreover have "set (s # ss) = {s. \<exists>x. look q s = Some x \<and> key x \<le> d}"
    using ss(2) q1 pops_step.hyps(2) by auto
  ultimately have "\<exists>ss. distinct ss \<and> set ss = {s. \<exists>x. look q s = Some x \<and> key x \<le> d} \<and> map (look q) ss = map Some (x # xs)"
    using ss(1) q1(2) by (intro exI [of _ "s # ss"]) auto
  moreover have "key x \<le> key y" if "y \<in> set xs" for y
  proof -
    have "Some y \<in> set (map (look q1) ss)" using that ss(3) by simp
    then obtain s' where "look q1 s' = Some y" by auto
    then show ?thesis using head_least [OF pops_step.prems pops_step.hyps(1)] q1(3) by (auto split: if_splits)
  qed
  moreover have "look q' = (\<lambda>s. case look q s of Some x \<Rightarrow> if key x \<le> d then None else Some x | None \<Rightarrow> None)"
    using IH q1 pops_step.hyps(2) by (auto simp: fun_eq_iff split: option.split)
  ultimately show ?case using IH by auto
qed

end

end
