(* ===== verification/Timer_Heap.thy ===== *)
theory Timer_Heap
  imports Slot_Queue
begin

text \<open>
  The binary heap with removal of arbitrary elements that the timer shim keeps its deadlines in
  (\<^verbatim>\<open>shims/futures-timer/src/native/heap.rs\<close>). The element type's \<^verbatim>\<open>Ord\<close> is given by a key into a linear
  order. Panics are \<open>None\<close>. The slab index that lets a caller remove an element by its slot is part of the
  state, and the lemmas show that the heap stands for a finite map from slots to elements.
\<close>

section \<open>The heap\<close>

datatype slab_slot = Empty nat | Full nat

record 'a heap =
  items :: "('a \<times> nat) list"
  index :: "slab_slot list"
  next_index :: nat

definition heap_new :: "'a heap" where
  "heap_new = \<lparr>items = [], index = [], next_index = 0\<rparr>"

definition set_index :: "slab_slot list \<Rightarrow> nat \<Rightarrow> nat \<Rightarrow> slab_slot list option" where
  "set_index slab j v =
     (if j < length slab then (case slab ! j of Full _ \<Rightarrow> Some (slab[j := Full v]) | Empty _ \<Rightarrow> None) else None)"

text \<open>One swap of a percolation: the two items change places and the index follows.\<close>

definition heap_swap :: "'a heap \<Rightarrow> nat \<Rightarrow> nat \<Rightarrow> 'a heap option" where
  "heap_swap h a b =
     (let its = (items h)[a := items h ! b, b := items h ! a]
      in case set_index (index h) (snd (its ! a)) a of
           None \<Rightarrow> None
         | Some ix \<Rightarrow>
             (case set_index ix (snd (its ! b)) b of
                None \<Rightarrow> None
              | Some ix' \<Rightarrow> Some (h\<lparr>items := its, index := ix'\<rparr>)))"

lemma heap_swap_fields:
  "heap_swap h a b = Some h' \<Longrightarrow>
    items h' = (items h)[a := items h ! b, b := items h ! a] \<and> next_index h' = next_index h"
  by (auto simp: heap_swap_def Let_def split: option.splits)

function percolate_up :: "('a \<Rightarrow> 'k::linorder) \<Rightarrow> nat \<Rightarrow> 'a heap \<Rightarrow> (nat \<times> 'a heap) option" where
  "percolate_up key idx h =
     (if idx = 0 then Some (idx, h)
      else if idx \<ge> length (items h) then None
      else let parent = (idx - 1) div 2
           in if key (fst (items h ! idx)) \<ge> key (fst (items h ! parent)) then Some (idx, h)
              else case heap_swap h parent idx of
                     None \<Rightarrow> None
                   | Some h' \<Rightarrow> percolate_up key parent h')"
  by pat_completeness auto
termination by (relation "measure (\<lambda>(_, idx, _). idx)") auto

text \<open>
  The child a percolation down swaps with, or \<open>None\<close> when the element is in place. A right child
  without a left one cannot occur: the indices of a vector have no holes.
\<close>

definition swap_child :: "('a \<Rightarrow> 'k::linorder) \<Rightarrow> nat \<Rightarrow> 'a heap \<Rightarrow> nat option" where
  "swap_child key idx h =
     (let left = 2 * idx + 1; right = 2 * idx + 2; k = (\<lambda>i. key (fst (items h ! i)))
      in if left < length (items h) \<and> \<not> right < length (items h)
         then (if k left \<ge> k idx then None else Some left)
         else if left < length (items h)
         then (if k left < k idx then (if k right < k left then Some right else Some left)
               else if k right < k idx then Some right
               else None)
         else None)"

lemma swap_child_bounds: "swap_child key idx h = Some c \<Longrightarrow> idx < c \<and> c < length (items h) \<and> idx < length (items h)"
  by (auto simp: swap_child_def Let_def split: if_splits)

function percolate_down :: "('a \<Rightarrow> 'k::linorder) \<Rightarrow> nat \<Rightarrow> 'a heap \<Rightarrow> (nat \<times> 'a heap) option" where
  "percolate_down key idx h =
     (case swap_child key idx h of
        None \<Rightarrow> Some (idx, h)
      | Some c \<Rightarrow>
          (case heap_swap h idx c of
             None \<Rightarrow> None
           | Some h' \<Rightarrow> percolate_down key c h'))"
  by pat_completeness auto
termination
  by (relation "measure (\<lambda>(_, idx, h). length (items h) - idx)")
    (auto dest!: swap_child_bounds heap_swap_fields)

declare percolate_up.simps [simp del] percolate_down.simps [simp del]

definition heap_push :: "('a \<Rightarrow> 'k::linorder) \<Rightarrow> 'a heap \<Rightarrow> 'a \<Rightarrow> (nat \<times> 'a heap) option" where
  "heap_push key h t =
     (let len = length (items h)
      in case (if next_index h = length (index h)
               then Some (length (index h), h\<lparr>next_index := next_index h + 1, index := index h @ [Full len]\<rparr>)
               else if next_index h < length (index h)
               then (case index h ! next_index h of
                       Empty n \<Rightarrow> Some (next_index h, h\<lparr>index := (index h)[next_index h := Full len], next_index := n\<rparr>)
                     | Full _ \<Rightarrow> None)
               else None) of
           None \<Rightarrow> None
         | Some (slot_idx, h1) \<Rightarrow>
             (case percolate_up key len (h1\<lparr>items := items h1 @ [(t, slot_idx)]\<rparr>) of
                None \<Rightarrow> None
              | Some (_, h2) \<Rightarrow> Some (slot_idx, h2)))"

definition heap_peek :: "'a heap \<Rightarrow> 'a option" where
  "heap_peek h = (case items h of [] \<Rightarrow> None | i # _ \<Rightarrow> Some (fst i))"

definition heap_remove :: "('a \<Rightarrow> 'k::linorder) \<Rightarrow> 'a heap \<Rightarrow> nat \<Rightarrow> ('a \<times> 'a heap) option" where
  "heap_remove key h slot =
     (if slot \<ge> length (index h) then None
      else case index h ! slot of
        Empty _ \<Rightarrow> None
      | Full idx \<Rightarrow>
          (if idx \<ge> length (items h) then None
           else let item = fst (items h ! idx);
                    h1 = h\<lparr>index := (index h)[slot := Empty (next_index h)], next_index := slot,
                           items := swap_remove (items h) idx\<rparr>
                in if idx < length (items h1)
                   then (case set_index (index h1) (snd (items h1 ! idx)) idx of
                           None \<Rightarrow> None
                         | Some ix \<Rightarrow>
                             (case (if key (fst (items h1 ! idx)) < key item
                                    then percolate_up key idx (h1\<lparr>index := ix\<rparr>)
                                    else percolate_down key idx (h1\<lparr>index := ix\<rparr>)) of
                                None \<Rightarrow> None
                              | Some (_, h2) \<Rightarrow> Some (item, h2)))
                   else Some (item, h1)))"

definition heap_pop :: "('a \<Rightarrow> 'k::linorder) \<Rightarrow> 'a heap \<Rightarrow> ('a option \<times> 'a heap) option" where
  "heap_pop key h =
     (if items h = [] then Some (None, h)
      else case heap_remove key h (snd (items h ! 0)) of
             None \<Rightarrow> None
           | Some (x, h') \<Rightarrow> Some (Some x, h'))"

section \<open>The index names exactly the items\<close>

text \<open>
  The free slots form a chain from \<open>next_index\<close> through the empty slots, ending one past the index.
\<close>

fun free_chain :: "slab_slot list \<Rightarrow> nat \<Rightarrow> nat list \<Rightarrow> bool" where
  "free_chain ix n [] \<longleftrightarrow> n = length ix"
| "free_chain ix n (j # js) \<longleftrightarrow> n = j \<and> j < length ix \<and> (\<exists>m. ix ! j = Empty m \<and> free_chain ix m js)"

definition is_free :: "slab_slot \<Rightarrow> bool" where
  "is_free s = (case s of Empty _ \<Rightarrow> True | Full _ \<Rightarrow> False)"

lemma is_free_simps [simp]: "is_free (Empty n)" "\<not> is_free (Full n)"
  by (simp_all add: is_free_def)

lemma not_free_iff: "\<not> is_free s \<longleftrightarrow> (\<exists>v. s = Full v)"
  by (cases s) auto

definition linked :: "'a heap \<Rightarrow> bool" where
  "linked h \<longleftrightarrow>
     (\<forall>i < length (items h). snd (items h ! i) < length (index h) \<and> index h ! snd (items h ! i) = Full i) \<and>
     (\<forall>j < length (index h). \<forall>i. index h ! j = Full i \<longrightarrow> i < length (items h) \<and> snd (items h ! i) = j) \<and>
     (\<exists>fl. free_chain (index h) (next_index h) fl \<and> distinct fl \<and> set fl = {j. j < length (index h) \<and> is_free (index h ! j)})"

text \<open>What the heap stands for: the element of each slot.\<close>

definition look :: "'a heap \<Rightarrow> nat \<rightharpoonup> 'a" where
  "look h j = (if j < length (index h)
     then (case index h ! j of Full i \<Rightarrow> Some (fst (items h ! i)) | Empty _ \<Rightarrow> None) else None)"

lemma linkedD:
  assumes "linked h"
  shows "i < length (items h) \<Longrightarrow> snd (items h ! i) < length (index h) \<and> index h ! snd (items h ! i) = Full i"
    and "j < length (index h) \<Longrightarrow> index h ! j = Full i \<Longrightarrow> i < length (items h) \<and> snd (items h ! i) = j"
  using assms unfolding linked_def by blast+

lemma slots_distinct:
  assumes "linked h" "i < length (items h)" "j < length (items h)" "snd (items h ! i) = snd (items h ! j)"
  shows "i = j"
  by (metis linkedD(1) [OF assms(1,2)] linkedD(1) [OF assms(1,3)] assms(4) slab_slot.inject(2))

lemma look_item: "linked h \<Longrightarrow> i < length (items h) \<Longrightarrow> look h (snd (items h ! i)) = Some (fst (items h ! i))"
  using linkedD(1) [of h i] by (simp add: look_def)

lemma look_SomeD:
  assumes "linked h" "look h j = Some x"
  obtains i where "i < length (items h)" "items h ! i = (x, j)"
proof -
  from assms(2) obtain i where "j < length (index h)" "index h ! j = Full i" "fst (items h ! i) = x"
    by (auto simp: look_def split: if_splits slab_slot.splits)
  then show thesis using that linkedD(2) [OF assms(1), of j i] by (metis prod.collapse)
qed

text \<open>Overwriting full slots leaves the chain of free ones alone.\<close>

lemma free_chain_update:
  "free_chain ix n fl \<Longrightarrow> j \<notin> set fl \<Longrightarrow> free_chain (ix[j := s]) n fl"
  by (induction fl arbitrary: n) auto

lemma nth_swap:
  assumes "a < length xs" "b < length xs" "i < length xs"
  shows "xs[a := xs ! b, b := xs ! a] ! i = (if i = a then xs ! b else if i = b then xs ! a else xs ! i)"
  using assms by (auto simp: nth_list_update)

lemma heap_swap_ok:
  assumes l: "linked h" and a: "a < length (items h)" and b: "b < length (items h)" and ab: "a \<noteq> b"
  obtains h' where "heap_swap h a b = Some h'" "linked h'" "look h' = look h"
    "items h' = (items h)[a := items h ! b, b := items h ! a]"
proof -
  let ?xs = "items h" and ?ix = "index h"
  let ?its = "?xs[a := ?xs ! b, b := ?xs ! a]"
  define sa where "sa = snd (?xs ! a)"
  define sb where "sb = snd (?xs ! b)"
  have ia: "sa < length ?ix" "?ix ! sa = Full a" using linkedD(1) [OF l a] by (simp_all add: sa_def)
  have ib: "sb < length ?ix" "?ix ! sb = Full b" using linkedD(1) [OF l b] by (simp_all add: sb_def)
  have ne: "sa \<noteq> sb" using ia(2) ib(2) ab by auto
  define h' where "h' = h\<lparr>items := ?its, index := ?ix[sb := Full a, sa := Full b]\<rparr>"
  have call: "heap_swap h a b = Some h'"
    using a b ab ia ib ne by (simp add: heap_swap_def set_index_def h'_def sa_def sb_def Let_def nth_list_update)
  obtain fl where fl: "free_chain ?ix (next_index h) fl" "distinct fl" "set fl = {j. j < length ?ix \<and> is_free (?ix ! j)}"
    using l unfolding linked_def by blast
  have nf: "sa \<notin> set fl" "sb \<notin> set fl" using fl(3) ia(2) ib(2) by auto
  have lk: "look h' = look h"
  proof
    fix j
    show "look h' j = look h j"
    proof (cases "j = sa \<or> j = sb")
      case True
      then show ?thesis using ia ib ne a b ab by (auto simp: look_def h'_def nth_list_update)
    next
      case False
      have "i \<noteq> a \<and> i \<noteq> b" if "j < length ?ix" "?ix ! j = Full i" for i
        using linkedD(2) [OF l that] False by (auto simp: sa_def sb_def)
      then show ?thesis using False by (auto simp: look_def h'_def nth_list_update split: slab_slot.split)
    qed
  qed
  have "linked h'"
    unfolding linked_def
  proof (intro conjI allI impI)
    fix i assume "i < length (items h')"
    then have i: "i < length ?xs" by (simp add: h'_def)
    have "snd (?xs ! i) \<noteq> sa" if "i \<noteq> a" using slots_distinct [OF l i a] that by (auto simp: sa_def)
    moreover have "snd (?xs ! i) \<noteq> sb" if "i \<noteq> b" using slots_distinct [OF l i b] that by (auto simp: sb_def)
    ultimately show "snd (items h' ! i) < length (index h')" "index h' ! snd (items h' ! i) = Full i"
      using linkedD(1) [OF l i] ia ib ne a b i by (auto simp: h'_def nth_swap sa_def sb_def nth_list_update)
  next
    fix j i assume j: "j < length (index h')" "index h' ! j = Full i"
    show "i < length (items h')" "snd (items h' ! i) = j"
    proof -
      consider "j = sa" "i = b" | "j = sb" "i = a" | "j \<noteq> sa" "j \<noteq> sb" "?ix ! j = Full i" "j < length ?ix"
        using j ne ia ib by (auto simp: h'_def nth_list_update split: if_splits)
      then have "i < length ?xs \<and> snd (?its ! i) = j"
      proof cases
        case 3
        then have "i < length ?xs" "snd (?xs ! i) = j" using linkedD(2) [OF l] by blast+
        then show ?thesis using 3 a b by (auto simp: nth_swap sa_def sb_def)
      qed (use a b ab in \<open>auto simp: nth_swap sa_def sb_def\<close>)
      then show "i < length (items h')" "snd (items h' ! i) = j" by (simp_all add: h'_def)
    qed
  next
    have "{j. j < length (index h') \<and> is_free (index h' ! j)} = {j. j < length ?ix \<and> is_free (?ix ! j)}"
      using ia ib by (auto simp: h'_def nth_list_update)
    then show "\<exists>fl. free_chain (index h') (next_index h') fl \<and> distinct fl \<and>
        set fl = {j. j < length (index h') \<and> is_free (index h' ! j)}"
      using fl nf by (intro exI [of _ fl]) (simp add: h'_def free_chain_update)
  qed
  then show thesis using that call lk by (simp add: h'_def)
qed

section \<open>Heap order\<close>

text \<open>
  The order of the keys, and the two weaker orders that hold while an element at \<open>i\<close> moves up or down.
\<close>

definition parent :: "nat \<Rightarrow> nat" where
  "parent j = (j - 1) div 2"

lemma parent_less [simp]: "0 < j \<Longrightarrow> parent j < j"
  by (simp add: parent_def)

lemma parent_iff: "0 < j \<Longrightarrow> parent j = i \<longleftrightarrow> j = 2 * i + 1 \<or> j = 2 * i + 2"
  unfolding parent_def by arith

definition heap_order :: "(nat \<Rightarrow> 'k::linorder) \<Rightarrow> nat \<Rightarrow> bool" where
  "heap_order k n \<longleftrightarrow> (\<forall>j. 0 < j \<and> j < n \<longrightarrow> k (parent j) \<le> k j)"

definition up_order :: "(nat \<Rightarrow> 'k::linorder) \<Rightarrow> nat \<Rightarrow> nat \<Rightarrow> bool" where
  "up_order k n i \<longleftrightarrow> (\<forall>j. 0 < j \<and> j < n \<and> j \<noteq> i \<longrightarrow> k (parent j) \<le> k j) \<and>
     (\<forall>j. 0 < j \<and> j < n \<and> 0 < i \<and> parent j = i \<longrightarrow> k (parent i) \<le> k j)"

definition down_order :: "(nat \<Rightarrow> 'k::linorder) \<Rightarrow> nat \<Rightarrow> nat \<Rightarrow> bool" where
  "down_order k n i \<longleftrightarrow> (\<forall>j. 0 < j \<and> j < n \<and> parent j \<noteq> i \<longrightarrow> k (parent j) \<le> k j) \<and>
     (\<forall>j. 0 < j \<and> j < n \<and> 0 < i \<and> parent j = i \<longrightarrow> k (parent i) \<le> k j)"

definition swapped :: "(nat \<Rightarrow> 'k) \<Rightarrow> nat \<Rightarrow> nat \<Rightarrow> nat \<Rightarrow> 'k" where
  "swapped k a b j = (if j = a then k b else if j = b then k a else k j)"

lemma up_step:
  assumes "up_order k n i" "0 < i" "i < n" "k i < k (parent i)"
  shows "up_order (swapped k (parent i) i) n (parent i)"
proof -
  have o: "k (parent j) \<le> k j" if "0 < j" "j < n" "j \<noteq> i" for j using assms(1) that unfolding up_order_def by blast
  have c: "k (parent i) \<le> k j" if "0 < j" "j < n" "parent j = i" for j
    using assms(1,2) that unfolding up_order_def by blast
  let ?p = "parent i"
  have p: "?p < i" using assms(2) by simp
  show ?thesis
    unfolding up_order_def
  proof (intro conjI allI impI; elim conjE)
    fix j assume j: "0 < j" "j < n" "j \<noteq> ?p"
    show "swapped k ?p i (parent j) \<le> swapped k ?p i j"
    proof (cases "j = i")
      case True then show ?thesis using assms(4) p by (simp add: swapped_def)
    next
      case False
      then show ?thesis using j o [of j] c [of j] assms(4) p by (auto simp: swapped_def)
    qed
  next
    fix j assume j: "0 < j" "j < n" "0 < ?p" "parent j = ?p"
    have "k (parent ?p) \<le> k ?p" using o [of ?p] j(3) p assms(3) by simp
    then show "swapped k ?p i (parent ?p) \<le> swapped k ?p i j"
      using j p o [of j] parent_less [OF j(3)] parent_less [OF j(1)] by (auto simp: swapped_def intro: order.trans)
  qed
qed

lemma up_done: "up_order k n i \<Longrightarrow> i = 0 \<or> k (parent i) \<le> k i \<Longrightarrow> heap_order k n"
  unfolding up_order_def heap_order_def by blast

lemma down_step:
  assumes "down_order k n i" "0 < c" "c < n" "parent c = i" "k c < k i"
    and least: "\<And>j. 0 < j \<Longrightarrow> j < n \<Longrightarrow> parent j = i \<Longrightarrow> k c \<le> k j"
  shows "down_order (swapped k i c) n c"
proof -
  have o: "k (parent j) \<le> k j" if "0 < j" "j < n" "parent j \<noteq> i" for j
    using assms(1) that unfolding down_order_def by blast
  have g: "k (parent i) \<le> k c" if "0 < i" using assms(1-4) that unfolding down_order_def by blast
  have ic: "i < c" using parent_less [OF assms(2)] assms(4) by simp
  show ?thesis
    unfolding down_order_def
  proof (intro conjI allI impI; elim conjE)
    fix j assume j: "0 < j" "j < n" "parent j \<noteq> c"
    consider "j = c" | "j = i" | "parent j = i" "j \<noteq> c" | "parent j \<noteq> i" "j \<noteq> c" "j \<noteq> i" by blast
    then show "swapped k i c (parent j) \<le> swapped k i c j"
    proof cases
      case 1 then show ?thesis using assms(4,5) ic by (simp add: swapped_def)
    next
      case 2 then show ?thesis using g j parent_less [OF j(1)] by (auto simp: swapped_def)
    next
      case 3 then show ?thesis using least [of j] j parent_less [OF j(1)] by (auto simp: swapped_def)
    next
      case 4 then show ?thesis using o [of j] j by (auto simp: swapped_def)
    qed
  next
    fix j assume j: "0 < j" "j < n" "0 < c" "parent j = c"
    then have "k c \<le> k j" using o [of j] ic by auto
    then show "swapped k i c (parent c) \<le> swapped k i c j"
      using j ic assms(4) parent_less [OF j(1)] by (auto simp: swapped_def)
  qed
qed

lemma down_done:
  "down_order k n i \<Longrightarrow> (\<And>j. 0 < j \<Longrightarrow> j < n \<Longrightarrow> parent j = i \<Longrightarrow> k i \<le> k j) \<Longrightarrow> heap_order k n"
  unfolding down_order_def heap_order_def by metis

lemma heap_order_root: "heap_order k n \<Longrightarrow> i < n \<Longrightarrow> k 0 \<le> k i"
proof (induction i rule: less_induct)
  case (less i)
  show ?case
  proof (cases "i = 0")
    case False
    then have "parent i < i" "k (parent i) \<le> k i" using less.prems by (auto simp: heap_order_def)
    then show ?thesis using less.IH [of "parent i"] less.prems by (auto intro: order.trans)
  qed simp
qed

definition keys :: "('a \<Rightarrow> 'k) \<Rightarrow> 'a heap \<Rightarrow> nat \<Rightarrow> 'k" where
  "keys key h i = key (fst (items h ! i))"

text \<open>The invariant of the heap: linked and ordered.\<close>

definition heap_wf :: "('a \<Rightarrow> 'k::linorder) \<Rightarrow> 'a heap \<Rightarrow> bool" where
  "heap_wf key h \<longleftrightarrow> linked h \<and> heap_order (keys key h) (length (items h))"

lemma order_cong:
  assumes "\<And>j. j < n \<Longrightarrow> k j = k' j"
  shows "heap_order k n = heap_order k' n" "i < n \<Longrightarrow> up_order k n i = up_order k' n i"
    "i < n \<Longrightarrow> down_order k n i = down_order k' n i"
proof -
  have p: "k (parent j) = k' (parent j)" if "0 < j" "j < n" for j
    by (rule assms [OF order.strict_trans [OF parent_less [OF that(1)] that(2)]])
  show "heap_order k n = heap_order k' n" unfolding heap_order_def using p assms by auto
  show "up_order k n i = up_order k' n i" if "i < n" using that unfolding up_order_def by (auto simp: p assms)
  show "down_order k n i = down_order k' n i" if "i < n" using that unfolding down_order_def by (auto simp: p assms)
qed

lemma keys_swap:
  assumes "items h' = (items h)[a := items h ! b, b := items h ! a]" "a < length (items h)" "b < length (items h)"
    "j < length (items h)"
  shows "keys key h' j = swapped (keys key h) a b j"
  using assms by (simp add: keys_def swapped_def nth_swap)

lemma keys_swap_order:
  assumes "items h' = (items h)[a := items h ! b, b := items h ! a]" "a < length (items h)" "b < length (items h)"
    "i < length (items h)"
  shows "up_order (keys key h') (length (items h)) i = up_order (swapped (keys key h) a b) (length (items h)) i"
    and "down_order (keys key h') (length (items h)) i = down_order (swapped (keys key h) a b) (length (items h)) i"
  using order_cong(2,3) [of "length (items h)" "keys key h'" "swapped (keys key h) a b" i] keys_swap [OF assms(1-3)] assms(4)
  by blast+

lemma percolate_up_ok:
  assumes "linked h" "up_order (keys key h) (length (items h)) idx" "idx < length (items h)"
  shows "\<exists>i h'. percolate_up key idx h = Some (i, h') \<and> heap_wf key h' \<and> look h' = look h \<and>
    length (items h') = length (items h)"
  using assms
proof (induction key idx h rule: percolate_up.induct)
  case (1 key idx h)
  let ?p = "(idx - 1) div 2"
  show ?case
  proof (cases "idx = 0 \<or> key (fst (items h ! ?p)) \<le> key (fst (items h ! idx))")
    case True
    then have "idx = 0 \<or> keys key h (parent idx) \<le> keys key h idx" by (simp add: keys_def parent_def)
    from up_done [OF 1(3) this] have "heap_order (keys key h) (length (items h))" .
    then show ?thesis using True 1(2,4) by (subst percolate_up.simps) (auto simp: heap_wf_def Let_def)
  next
    case False
    have pi: "?p < length (items h)" "?p \<noteq> idx" using False 1(4) by auto
    obtain h' where h': "heap_swap h ?p idx = Some h'" "linked h'" "look h' = look h"
      "items h' = (items h)[?p := items h ! idx, idx := items h ! ?p]"
      using heap_swap_ok [OF 1(2) pi(1) 1(4) pi(2)] .
    have "keys key h idx < keys key h (parent idx)" "0 < idx" using False by (simp_all add: keys_def parent_def not_le)
    from up_step [OF 1(3) this(2) 1(4) this(1)]
    have "up_order (swapped (keys key h) ?p idx) (length (items h)) ?p" by (simp add: parent_def)
    then have "up_order (keys key h') (length (items h)) ?p"
      using keys_swap_order(1) [OF h'(4) pi(1) 1(4) pi(1)] by blast
    then have "up_order (keys key h') (length (items h')) ?p" by (simp add: h'(4))
    then show ?thesis using 1(1) [OF _ _ refl _ h'(1)] False 1(4) h' pi
      by (subst percolate_up.simps) (auto simp: Let_def)
  qed
qed

lemma swap_child_cases:
  "swap_child key i h = None \<Longrightarrow> 0 < j \<Longrightarrow> j < length (items h) \<Longrightarrow> parent j = i \<Longrightarrow> keys key h i \<le> keys key h j"
  "swap_child key i h = Some c \<Longrightarrow> 0 < c \<and> c < length (items h) \<and> parent c = i \<and> keys key h c < keys key h i"
  "swap_child key i h = Some c \<Longrightarrow> 0 < j \<Longrightarrow> j < length (items h) \<Longrightarrow> parent j = i \<Longrightarrow> keys key h c \<le> keys key h j"
  by (auto simp: swap_child_def keys_def parent_iff Let_def split: if_splits)

lemma percolate_down_ok:
  assumes "linked h" "down_order (keys key h) (length (items h)) idx" "idx < length (items h)"
  shows "\<exists>i h'. percolate_down key idx h = Some (i, h') \<and> heap_wf key h' \<and> look h' = look h \<and>
    length (items h') = length (items h)"
  using assms
proof (induction key idx h rule: percolate_down.induct)
  case (1 key idx h)
  show ?case
  proof (cases "swap_child key idx h")
    case None
    then have "heap_order (keys key h) (length (items h))"
      using down_done [OF 1(3)] swap_child_cases(1) [OF None] by blast
    then show ?thesis using None 1(2) by (subst percolate_down.simps) (simp add: heap_wf_def)
  next
    case (Some c)
    note c = swap_child_cases(2) [OF Some] and least = swap_child_cases(3) [OF Some]
    have ne: "idx \<noteq> c" using c parent_less [of c] by auto
    obtain h' where h': "heap_swap h idx c = Some h'" "linked h'" "look h' = look h"
      "items h' = (items h)[idx := items h ! c, c := items h ! idx]"
      using heap_swap_ok [OF 1(2,4) _ ne] c by blast
    have "down_order (swapped (keys key h) idx c) (length (items h)) c"
      using down_step [OF 1(3)] c least by blast
    moreover have cl: "c < length (items h)" using c by blast
    ultimately have "down_order (keys key h') (length (items h)) c"
      using keys_swap_order(2) [OF h'(4) 1(4) cl cl] by blast
    then have "down_order (keys key h') (length (items h')) c" by (simp add: h'(4))
    then show ?thesis using 1(1) [OF Some h'(1,2)] Some c h'
      by (subst percolate_down.simps) auto
  qed
qed

text \<open>Percolating keeps the number of items, whatever the state.\<close>

lemma percolate_length:
  "percolate_up key i h = Some (j, h') \<Longrightarrow> length (items h') = length (items h)"
  "percolate_down key i h = Some (j, h') \<Longrightarrow> length (items h') = length (items h)"
proof -
  show "percolate_up key i h = Some (j, h') \<Longrightarrow> length (items h') = length (items h)"
  proof (induction key i h rule: percolate_up.induct)
    case (1 key idx h)
    let ?p = "(idx - 1) div 2"
    show ?case
    proof (cases "idx = 0 \<or> length (items h) \<le> idx \<or> key (fst (items h ! ?p)) \<le> key (fst (items h ! idx))")
      case True
      then show ?thesis using 1(2) by (subst (asm) percolate_up.simps) (auto simp: Let_def split: if_splits)
    next
      case False
      then obtain h1 where "heap_swap h ?p idx = Some h1" "percolate_up key ?p h1 = Some (j, h')"
        using 1(2) by (subst (asm) percolate_up.simps) (auto simp: Let_def split: option.splits)
      then show ?thesis using 1(1) [OF _ _ refl] False heap_swap_fields [of h ?p idx h1] by auto
    qed
  qed
  show "percolate_down key i h = Some (j, h') \<Longrightarrow> length (items h') = length (items h)"
  proof (induction key i h rule: percolate_down.induct)
    case (1 key idx h)
    from 1(2) show ?case
      by (subst (asm) percolate_down.simps) (auto split: option.splits dest!: 1(1) dest: heap_swap_fields)
  qed
qed

section \<open>Pushing and removing\<close>

text \<open>Taking a slot and appending an item under it.\<close>

lemma append_linked:
  assumes l: "linked h" and h': "items h' = items h @ [(t, slot)]"
    and s: "slot < length (index h')" "index h' ! slot = Full (length (items h))"
    and len: "length (index h) \<le> length (index h')"
    and same: "\<And>j. j < length (index h') \<Longrightarrow> j \<noteq> slot \<Longrightarrow> j < length (index h) \<and> index h' ! j = index h ! j"
    and free: "slot < length (index h) \<Longrightarrow> is_free (index h ! slot)"
    and chain: "free_chain (index h') (next_index h') fl" "distinct fl"
      "set fl = {j. j < length (index h') \<and> is_free (index h' ! j)}"
  shows "linked h' \<and> look h' = (look h)(slot \<mapsto> t) \<and> look h slot = None"
proof (intro conjI)
  have old: "snd (items h ! i) \<noteq> slot \<and> snd (items h ! i) < length (index h') \<and> index h' ! snd (items h ! i) = Full i"
    if "i < length (items h)" for i
  proof -
    have i: "snd (items h ! i) < length (index h)" "index h ! snd (items h ! i) = Full i" using linkedD(1) [OF l that] by auto
    then have "snd (items h ! i) \<noteq> slot" using free by auto
    then show ?thesis using i same [of "snd (items h ! i)"] len by auto
  qed
  show "linked h'"
    unfolding linked_def
  proof (intro conjI allI impI)
    fix i assume i: "i < length (items h')"
    have "i < length (items h) \<or> i = length (items h)" using i by (auto simp: h')
    then have "snd (items h' ! i) < length (index h') \<and> index h' ! snd (items h' ! i) = Full i"
      using old [of i] s by (auto simp: nth_append h')
    then show "snd (items h' ! i) < length (index h')" "index h' ! snd (items h' ! i) = Full i" by blast+
  next
    fix j i assume j: "j < length (index h')" "index h' ! j = Full i"
    have "i < length (items h) \<and> snd (items h ! i) = j \<or> j = slot \<and> i = length (items h)"
    proof (cases "j = slot")
      case False
      then have "j < length (index h)" "index h ! j = Full i" using same [OF j(1) False] j(2) by auto
      then show ?thesis using linkedD(2) [OF l] by blast
    qed (use s j in auto)
    then show "i < length (items h')" "snd (items h' ! i) = j" by (auto simp: nth_append h')
  qed (use chain in blast)
  show "look h slot = None" using free by (cases "index h ! slot") (auto simp: look_def)
  show "look h' = (look h)(slot \<mapsto> t)"
  proof
    fix j
    show "look h' j = ((look h)(slot \<mapsto> t)) j"
    proof (cases "j = slot")
      case False
      have "look h' j = look h j" if "j < length (index h')"
        using same [OF that False] linkedD(2) [OF l, of j] len that
        by (cases "index h ! j") (auto simp: look_def nth_append h')
      then show ?thesis using False len by (cases "j < length (index h')") (auto simp: look_def)
    qed (use s in \<open>simp add: look_def h'\<close>)
  qed
qed

lemma heap_push_ok:
  assumes "heap_wf key h"
  shows "\<exists>slot h'. heap_push key h t = Some (slot, h') \<and> heap_wf key h' \<and> look h slot = None \<and>
    look h' = (look h)(slot \<mapsto> t) \<and> length (items h') = length (items h) + 1"
proof -
  let ?len = "length (items h)" and ?ix = "index h"
  have l: "linked h" and o: "heap_order (keys key h) ?len" using assms by (simp_all add: heap_wf_def)
  obtain fl where fl: "free_chain ?ix (next_index h) fl" "distinct fl" "set fl = {j. j < length ?ix \<and> is_free (?ix ! j)}"
    using l unfolding linked_def by blast
  have step: ?thesis
    if call: "heap_push key h t = (case percolate_up key ?len h2 of None \<Rightarrow> None | Some (_, h') \<Rightarrow> Some (slot, h'))"
      and h2: "linked h2 \<and> look h2 = (look h)(slot \<mapsto> t) \<and> look h slot = None" and it: "items h2 = items h @ [(t, slot)]"
    for h2 slot
  proof -
    have k: "keys key h2 j = keys key h j" if "j < ?len" for j using that by (simp add: keys_def nth_append it)
    have "up_order (keys key h2) (?len + 1) ?len"
      unfolding up_order_def
    proof (intro conjI allI impI; elim conjE)
      fix j assume j: "0 < j" "j < ?len + 1" "j \<noteq> ?len"
      then have "parent j < ?len" using parent_less [OF j(1)] by linarith
      then show "keys key h2 (parent j) \<le> keys key h2 j" using j o k [of j] k [of "parent j"] by (auto simp: heap_order_def)
    next
      fix j assume "0 < j" "j < ?len + 1" "parent j = ?len"
      then show "keys key h2 (parent ?len) \<le> keys key h2 j" using parent_less [of j] by linarith
    qed
    then show ?thesis using percolate_up_ok [of h2 key ?len] h2 by (auto simp: call it)
  qed
  show ?thesis
  proof (cases fl)
    case Nil
    then have n: "next_index h = length ?ix" using fl(1) by simp
    let ?h2 = "h\<lparr>next_index := length ?ix + 1, index := ?ix @ [Full ?len], items := items h @ [(t, length ?ix)]\<rparr>"
    have full: "{j. j < length (?ix @ [Full ?len]) \<and> is_free ((?ix @ [Full ?len]) ! j)} = {}"
      using fl(3) Nil by (auto simp: nth_append less_Suc_eq)
    have "linked ?h2 \<and> look ?h2 = (look h)(length ?ix \<mapsto> t) \<and> look h (length ?ix) = None"
      by (rule append_linked [OF l, where fl = "[]"]) (use full in \<open>auto simp: nth_append less_Suc_eq\<close>)
    then show ?thesis by (rule step [rotated]) (simp_all add: heap_push_def n Let_def)
  next
    case (Cons j js)
    then obtain m where m: "next_index h = j" "j < length ?ix" "?ix ! j = Empty m" "free_chain ?ix m js"
      using fl(1) by auto
    have js: "j \<notin> set js" "distinct js" using fl(2) Cons by auto
    let ?h2 = "h\<lparr>index := ?ix[j := Full ?len], next_index := m, items := items h @ [(t, j)]\<rparr>"
    have "set js = {i. i < length (?ix[j := Full ?len]) \<and> is_free (?ix[j := Full ?len] ! i)}"
    proof (rule set_eqI)
      fix i
      have "i = j \<or> i \<in> set js \<longleftrightarrow> i < length ?ix \<and> is_free (?ix ! i)"
        by (metis fl(3) Cons insert_iff list.set(2) mem_Collect_eq)
      then show "i \<in> set js \<longleftrightarrow> i \<in> {i. i < length (?ix[j := Full ?len]) \<and> is_free (?ix[j := Full ?len] ! i)}"
        using js(1) by (cases "i = j") auto
    qed
    then have "linked ?h2 \<and> look ?h2 = (look h)(j \<mapsto> t) \<and> look h j = None"
      by (intro append_linked [OF l, where fl = js]) (use m js free_chain_update [OF m(4) js(1)] in auto)
    then show ?thesis by (rule step [rotated]) (use m in \<open>simp_all add: heap_push_def Let_def\<close>)
  qed
qed

text \<open>
  Giving a slot back: its item leaves the vector, the last item takes its place, and the index follows the
  moved item. \<open>last\<close> is the slot of the moved item.
\<close>

lemma nth_swap_remove':
  "j < length xs - 1 \<Longrightarrow> swap_remove xs i ! j = (if j = i then xs ! (length xs - 1) else xs ! j)"
  by (cases xs rule: rev_cases) (auto simp: nth_swap_remove)

lemma remove_linked:
  assumes l: "linked h" and idx: "idx < length (items h)" and slot: "slot = snd (items h ! idx)"
    and L: "L = length (items h) - 1"
    and h': "items h' = swap_remove (items h) idx" "next_index h' = slot"
      "index h' = (let ix = (index h)[slot := Empty (next_index h)]
         in if idx < L then ix[snd (items h ! L) := Full idx] else ix)"
  shows "linked h'" "look h' = (look h)(slot := None)"
proof -
  let ?ix = "index h" and ?xs = "items h"
  define sl where "sl = snd (?xs ! L)"
  have Ll: "L < length ?xs" using idx L by simp
  have si: "slot < length ?ix" "?ix ! slot = Full idx" using linkedD(1) [OF l idx] by (simp_all add: slot)
  have li: "sl < length ?ix" "?ix ! sl = Full L" using linkedD(1) [OF l Ll] by (simp_all add: sl_def)
  have eq: "sl = slot \<longleftrightarrow> idx = L" using si(2) li(2) by (auto simp: sl_def slot)
  have len: "length (index h') = length ?ix" by (simp add: h'(3) Let_def)
  have lt: "idx < L \<longleftrightarrow> sl \<noteq> slot" using eq idx L by auto
  have ix': "index h' = (if idx < L then ?ix[slot := Empty (next_index h), sl := Full idx] else ?ix[slot := Empty (next_index h)])"
    by (simp add: h'(3) Let_def sl_def)
  have at: "index h' ! j = (if j = slot then Empty (next_index h) else if j = sl then Full idx else ?ix ! j)"
    if "j < length ?ix" for j
    using that lt unfolding ix' by (auto simp: nth_list_update)
  have it: "items h' ! i = (if i = idx then ?xs ! L else ?xs ! i)" if "i < L" for i
    using that L nth_swap_remove' [of i ?xs idx] by (simp add: h'(1))
  have ilen: "length (items h') = L" by (simp add: h'(1) L)
  obtain fl where fl: "free_chain ?ix (next_index h) fl" "distinct fl" "set fl = {j. j < length ?ix \<and> is_free (?ix ! j)}"
    using l unfolding linked_def by blast
  have nf: "slot \<notin> set fl" "sl \<notin> set fl" using fl(3) si li by auto
  have other: "i < L \<and> i \<noteq> idx" if "j < length ?ix" "?ix ! j = Full i" "j \<noteq> slot" "j \<noteq> sl" for i j
  proof -
    have i: "i < length ?xs" "snd (?xs ! i) = j" using linkedD(2) [OF l that(1,2)] by auto
    then have "i \<noteq> L" "i \<noteq> idx" using that(3,4) by (auto simp: sl_def slot)
    then show ?thesis using i(1) L by simp
  qed
  show "linked h'"
    unfolding linked_def len ilen
  proof (intro conjI allI impI)
    fix i assume i: "i < L"
    then have ix: "i < length ?xs" using L by simp
    have "snd (?xs ! i) \<noteq> sl" using slots_distinct [OF l ix Ll] i by (auto simp: sl_def)
    moreover have "snd (?xs ! i) \<noteq> slot" if "i \<noteq> idx" using slots_distinct [OF l ix idx] that by (auto simp: slot)
    ultimately show "snd (items h' ! i) < length ?ix" "index h' ! snd (items h' ! i) = Full i"
      using linkedD(1) [OF l ix] li eq i it [OF i] at by (auto simp: sl_def [symmetric])
  next
    fix j i assume j: "j < length ?ix" "index h' ! j = Full i"
    then consider "j = sl" "i = idx" "sl \<noteq> slot" | "j \<noteq> slot" "j \<noteq> sl" "?ix ! j = Full i"
      using at by (auto split: if_splits)
    then have "i < L \<and> snd (items h' ! i) = j"
    proof cases
      case 1
      then show ?thesis using eq idx L it [of idx] by (auto simp: sl_def)
    next
      case 2
      then show ?thesis using other [OF j(1) 2(3,1,2)] it [of i] linkedD(2) [OF l j(1) 2(3)] by simp
    qed
    then show "i < L" "snd (items h' ! i) = j" by blast+
  next
    have up: "index h' = ?ix[slot := Empty (next_index h)] \<or> index h' = ?ix[slot := Empty (next_index h), sl := Full idx]"
      by (auto simp: h'(3) Let_def sl_def)
    have "free_chain (index h') (next_index h) fl" using up fl(1) nf by (auto simp: free_chain_update)
    then have "free_chain (index h') (next_index h') (slot # fl)" using at [of slot] si len by (simp add: h'(2))
    moreover have "set (slot # fl) = {j. j < length ?ix \<and> is_free (index h' ! j)}"
    proof (rule set_eqI)
      fix j
      have "j \<in> set fl \<longleftrightarrow> j < length ?ix \<and> is_free (?ix ! j)" using fl(3) by blast
      then show "j \<in> set (slot # fl) \<longleftrightarrow> j \<in> {j. j < length ?ix \<and> is_free (index h' ! j)}"
        using at [of j] si nf(2) by (cases "j = sl") (auto split: if_splits)
    qed
    moreover have "distinct (slot # fl)" using fl(2) nf by simp
    ultimately show "\<exists>fl. free_chain (index h') (next_index h') fl \<and> distinct fl \<and>
        set fl = {j. j < length ?ix \<and> is_free (index h' ! j)}" by blast
  qed
  show "look h' = (look h)(slot := None)"
  proof
    fix j
    show "look h' j = ((look h)(slot := None)) j"
    proof (cases "j < length ?ix")
      case True
      have "look h' j = look h j" if "j \<noteq> slot"
      proof (cases "j = sl")
        case True
        then show ?thesis using that eq at [OF \<open>j < length ?ix\<close>] it [of idx] idx L li len by (auto simp: look_def)
      next
        case False
        then show ?thesis
          using that at [OF True] other [OF True _ that False] it True len by (cases "?ix ! j") (auto simp: look_def)
      qed
      then show ?thesis using at [OF True] si len by (cases "j = slot") (auto simp: look_def)
    qed (use si len in \<open>auto simp: look_def\<close>)
  qed
qed

text \<open>
  An element that replaces another at \<open>i\<close> can move up if it is smaller than what was there, down if
  it is not.
\<close>

lemma replaced_order:
  assumes o: "heap_order k (n + 1)" and i: "i < n" and same: "\<And>j. j < n \<Longrightarrow> j \<noteq> i \<Longrightarrow> k' j = k j"
  shows "k' i < k i \<Longrightarrow> up_order k' n i" "k i \<le> k' i \<Longrightarrow> down_order k' n i"
proof -
  have par: "k (parent j) \<le> k j" if "0 < j" "j < n" for j using o that by (simp add: heap_order_def)
  have grand: "k' (parent i) \<le> k' j" if "0 < i" "0 < j" "j < n" "parent j = i" for j
  proof -
    have "k (parent i) \<le> k i" "k i \<le> k j" using par [of i] par [of j] that i by auto
    moreover have "parent i < i" "i < j" using parent_less [OF that(1)] parent_less [OF that(2)] that(4) by simp_all
    ultimately show ?thesis using same [of j] same [of "parent i"] that(3) i by simp
  qed
  show "up_order k' n i" if "k' i < k i"
    unfolding up_order_def
  proof (intro conjI allI impI; elim conjE)
    fix j assume j: "0 < j" "j < n" "j \<noteq> i"
    then have "parent j < n" using parent_less [OF j(1)] by linarith
    then show "k' (parent j) \<le> k' j"
      using par [OF j(1,2)] same j that by (cases "parent j = i") (auto intro: order.trans less_imp_le)
  qed (use grand in blast)
  show "down_order k' n i" if "k i \<le> k' i"
    unfolding down_order_def
  proof (intro conjI allI impI; elim conjE)
    fix j assume j: "0 < j" "j < n" "parent j \<noteq> i"
    then have "parent j < n" using parent_less [OF j(1)] by linarith
    then show "k' (parent j) \<le> k' j"
      using par [OF j(1,2)] same j that by (cases "j = i") (auto intro: order.trans)
  qed (use grand in blast)
qed

lemma heap_order_less: "heap_order k n \<Longrightarrow> m \<le> n \<Longrightarrow> heap_order k m"
  by (auto simp: heap_order_def)

lemma heap_remove_ok:
  assumes "heap_wf key h" "look h slot = Some x"
  shows "\<exists>h'. heap_remove key h slot = Some (x, h') \<and> heap_wf key h' \<and> look h' = (look h)(slot := None) \<and>
    length (items h') + 1 = length (items h)"
proof -
  have l: "linked h" and o: "heap_order (keys key h) (length (items h))" using assms(1) by (simp_all add: heap_wf_def)
  obtain idx where idx: "idx < length (items h)" "items h ! idx = (x, slot)" using look_SomeD [OF l assms(2)] .
  define L where "L = length (items h) - 1"
  have n: "length (items h) = L + 1" using idx L_def by simp
  have si: "slot < length (index h)" "index h ! slot = Full idx" using linkedD(1) [OF l idx(1)] idx(2) by simp_all
  let ?h1 = "h\<lparr>index := (index h)[slot := Empty (next_index h)], next_index := slot, items := swap_remove (items h) idx\<rparr>"
  show ?thesis
  proof (cases "idx < L")
    case False
    have "linked ?h1 \<and> look ?h1 = (look h)(slot := None)"
      using remove_linked [OF l idx(1), of slot L ?h1] idx(2) False by (simp add: L_def Let_def)
    moreover have "keys key ?h1 j = keys key h j" if "j < L" for j
      using that False nth_swap_remove' [of j "items h" idx] n by (simp add: keys_def)
    then have "heap_order (keys key ?h1) L"
      using order_cong(1) [of L "keys key ?h1" "keys key h"] heap_order_less [OF o, of L] n by simp
    ultimately show ?thesis using False idx si n by (simp add: heap_remove_def heap_wf_def Let_def)
  next
    case True
    define sl where "sl = snd (items h ! L)"
    have Ll: "L < length (items h)" using n by simp
    have li: "sl < length (index h)" "index h ! sl = Full L" using linkedD(1) [OF l Ll] by (simp_all add: sl_def)
    have ne: "sl \<noteq> slot" using li(2) si(2) True by auto
    define h2 where "h2 = ?h1\<lparr>index := (index h)[slot := Empty (next_index h), sl := Full idx]\<rparr>"
    have lk: "linked h2" "look h2 = (look h)(slot := None)"
      using remove_linked [OF l idx(1), of slot L h2] idx(2) True by (simp_all add: h2_def L_def sl_def Let_def)
    have it: "items h2 ! j = (if j = idx then items h ! L else items h ! j)" if "j < L" for j
      using that nth_swap_remove' [of j "items h" idx] by (simp add: h2_def L_def)
    have len: "length (items h2) = L" by (simp add: h2_def L_def)
    have same: "keys key h2 j = keys key h j" if "j < L" "j \<noteq> idx" for j using it that by (simp add: keys_def)
    have moved: "swap_remove (items h) idx ! idx = items h ! L" using it [OF True] by (simp add: h2_def)
    have "set_index ((index h)[slot := Empty (next_index h)]) sl idx = Some (index h2)"
      using li ne by (simp add: set_index_def h2_def)
    then have call: "heap_remove key h slot = (case (if keys key h2 idx < key x then percolate_up key idx h2
        else percolate_down key idx h2) of None \<Rightarrow> None | Some (_, h') \<Rightarrow> Some (x, h'))"
      using True idx si n by (simp add: heap_remove_def Let_def moved keys_def h2_def flip: sl_def)
    have kx: "keys key h idx = key x" by (simp add: keys_def idx(2))
    have o': "heap_order (keys key h) (L + 1)" using o n by simp
    note ord = replaced_order [OF o' True, of "keys key h2", OF same]
    have "\<exists>i h'. (if keys key h2 idx < key x then percolate_up key idx h2 else percolate_down key idx h2) = Some (i, h') \<and>
        heap_wf key h' \<and> look h' = look h2 \<and> length (items h') = L"
      using percolate_up_ok [OF lk(1), of key idx] percolate_down_ok [OF lk(1), of key idx] True len kx ord
      by (simp add: not_less)
    then show ?thesis using lk(2) n by (auto simp: call)
  qed
qed

lemma heap_new_wf [simp, wf_intros]: "heap_wf key heap_new" "look heap_new = Map.empty"
  by (auto simp: heap_wf_def linked_def heap_order_def heap_new_def look_def intro: exI [of _ "[]"])

lemma look_items:
  assumes l: "linked h"
  shows "look h = Map.empty \<longleftrightarrow> items h = []"
proof
  show "look h = Map.empty \<Longrightarrow> items h = []" using look_item [OF l, of 0] by (cases "items h") auto
  assume "items h = []"
  then have "look h j \<noteq> Some x" for j x using l by (auto elim: look_SomeD)
  then show "look h = Map.empty" by (intro ext) (metis option.exhaust)
qed

lemma finite_look: "finite (dom (look h))"
  by (rule finite_subset [of _ "{..< length (index h)}"]) (auto simp: look_def split: if_splits)

lemma heap_pop_ok:
  assumes "heap_wf key h" "heap_peek h = Some x"
  shows "\<exists>s h'. heap_pop key h = Some (Some x, h') \<and> heap_wf key h' \<and> look h s = Some x \<and> look h' = (look h)(s := None)"
proof -
  obtain s its where i: "items h = (x, s) # its" using assms(2) by (auto simp: heap_peek_def split: list.splits)
  have "look h s = Some x" using look_item [of h 0] assms(1) i by (simp add: heap_wf_def)
  then show ?thesis using heap_remove_ok [OF assms(1), of s x] i by (auto simp: heap_pop_def)
qed

lemma heap_pop_less: "heap_pop key h = Some (Some x, h') \<Longrightarrow> length (items h') < length (items h)"
  by (auto simp: heap_pop_def heap_remove_def Let_def percolate_length
      split: if_splits option.splits slab_slot.splits dest!: percolate_length)

interpretation timer_queue: slot_queue "heap_wf key" look "heap_push key" "heap_remove key" "heap_pop key" heap_peek key
  for key :: "'a \<Rightarrow> 'k::linorder"
proof
  fix q :: "'a heap" and x y :: 'a and s :: nat
  assume wf: "heap_wf key q"
  then have l: "linked q" and o: "heap_order (keys key q) (length (items q))" by (simp_all add: heap_wf_def)
  show "finite (dom (look q))" by (rule finite_look)
  show "\<exists>s q'. heap_push key q x = Some (s, q') \<and> heap_wf key q' \<and> look q s = None \<and> look q' = (look q)(s \<mapsto> x)"
    using heap_push_ok [OF wf, of x] by blast
  show "\<exists>q'. heap_remove key q s = Some (x, q') \<and> heap_wf key q' \<and> look q' = (look q)(s := None)" if "look q s = Some x"
    using heap_remove_ok [OF wf that] by blast
  show "heap_peek q = None \<longleftrightarrow> look q = Map.empty"
    using look_items [OF l] by (auto simp: heap_peek_def split: list.split)
  show "heap_pop key q = Some (None, q)" if "heap_peek q = None"
    using that by (auto simp: heap_peek_def heap_pop_def split: list.splits)
  show "\<exists>s q'. heap_pop key q = Some (Some x, q') \<and> heap_wf key q' \<and> look q s = Some x \<and> look q' = (look q)(s := None)"
    if "heap_peek q = Some x" using heap_pop_ok [OF wf that] .
  show "key x \<le> key y" if hd: "heap_peek q = Some x" and y: "look q s = Some y"
  proof -
    obtain i where i: "i < length (items q)" "items q ! i = (y, s)" using look_SomeD [OF l y] .
    have "keys key q 0 \<le> keys key q i" using heap_order_root [OF o i(1)] .
    then show ?thesis using hd i(2) by (auto simp: keys_def heap_peek_def split: list.splits)
  qed
qed

text \<open>
  C20: A well-formed heap never panics. Pushing takes a slot that was free and changes no other slot; removing a slot
  that is in use gives back the element that was pushed under it and frees only that slot, wherever the percolations
  have moved it; popping gives an element with the least key; and all three keep the heap well formed.
\<close>

theorem heap_slots_exact:
  assumes "heap_wf key h"
  shows "(\<exists>s h'. heap_push key h x = Some (s, h') \<and> heap_wf key h' \<and> look h s = None \<and> look h' = (look h)(s \<mapsto> x)) \<and>
    (\<forall>s y. look h s = Some y \<longrightarrow>
      (\<exists>h'. heap_remove key h s = Some (y, h') \<and> heap_wf key h' \<and> look h' = (look h)(s := None))) \<and>
    (case heap_pop key h of
       None \<Rightarrow> False
     | Some (None, h') \<Rightarrow> h' = h \<and> look h = Map.empty
     | Some (Some y, h') \<Rightarrow> heap_wf key h' \<and> (\<exists>s. look h s = Some y \<and> look h' = (look h)(s := None)) \<and>
         (\<forall>s z. look h s = Some z \<longrightarrow> key y \<le> key z))"
proof (intro conjI)
  show "case heap_pop key h of
       None \<Rightarrow> False
     | Some (None, h') \<Rightarrow> h' = h \<and> look h = Map.empty
     | Some (Some y, h') \<Rightarrow> heap_wf key h' \<and> (\<exists>s. look h s = Some y \<and> look h' = (look h)(s := None)) \<and>
         (\<forall>s z. look h s = Some z \<longrightarrow> key y \<le> key z)"
  proof (cases "heap_peek h")
    case None
    then show ?thesis using timer_queue.pop_None [OF assms None] timer_queue.head_None [OF assms] by simp
  next
    case (Some y)
    obtain s h' where "heap_pop key h = Some (Some y, h')" "heap_wf key h'" "look h s = Some y" "look h' = (look h)(s := None)"
      using timer_queue.pop_Some [OF assms Some] by blast
    then show ?thesis using timer_queue.head_least [OF assms Some] by auto
  qed
qed (use timer_queue.push_ok [OF assms] timer_queue.rem_ok [OF assms] in blast)+

theorem heap_slots_exact_witness:
  "\<exists>s h'. heap_push id (heap_new :: nat heap) 7 = Some (s, h') \<and> look h' s = Some 7"
  using heap_slots_exact [OF heap_new_wf(1), of "id :: nat \<Rightarrow> nat" 7] by auto

end
