(* ===== verification/Futures_Timer.thy ===== *)
theory Futures_Timer
  imports Timer_Heap
begin

text \<open>
  The timer of the futures-timer shim on its heap (\<^verbatim>\<open>shims/futures-timer/src/native/timer.rs\<close>,
  \<^verbatim>\<open>heap_timer.rs\<close>): nodes with their atomic state word, adding, moving and removing their deadlines, firing what
  is due, and the drop that invalidates every node. Nodes are named by numbers; waking a node's task is recorded
  in the order it happens. Panics are \<open>None\<close>.
\<close>

record heap_timer =
  ht_at :: nat
  ht_gen :: nat
  ht_node :: nat

text \<open>
  The state word: bit 0 says the timer has fired, bit 1 that it was invalidated, the rest is the
  generation.
\<close>

record timer_node =
  tn_state :: nat
  tn_at :: "nat option"
  tn_slot :: "nat option"

record ftimer =
  ft_heap :: "heap_timer heap"
  ft_nodes :: "nat \<Rightarrow> timer_node"
  ft_woken :: "nat list"

definition set_node :: "nat \<Rightarrow> (timer_node \<Rightarrow> timer_node) \<Rightarrow> ftimer \<Rightarrow> ftimer" where
  "set_node n f t = t\<lparr>ft_nodes := (ft_nodes t)(n := f (ft_nodes t n))\<rparr>"

definition timer_new :: "(nat \<Rightarrow> timer_node) \<Rightarrow> ftimer" where
  "timer_new nodes = \<lparr>ft_heap = heap_new, ft_nodes = nodes, ft_woken = []\<rparr>"

definition next_event :: "ftimer \<Rightarrow> nat option" where
  "next_event t = map_option ht_at (heap_peek (ft_heap t))"

text \<open>
  Firing one timer: the node's slot is cleared, and the state word is compared and exchanged, so only a
  timer of the current generation that has neither fired nor been invalidated wakes its task.
\<close>

definition fire :: "heap_timer \<Rightarrow> ftimer \<Rightarrow> ftimer" where
  "fire ht t =
     (let n = ht_node ht;
          t1 = set_node n (\<lambda>nd. nd\<lparr>tn_slot := None\<rparr>) t;
          bits = (ht_gen ht * 4) mod 2 ^ 64
      in if tn_state (ft_nodes t1 n) = bits
         then (set_node n (\<lambda>nd. nd\<lparr>tn_state := or bits 1\<rparr>) t1)\<lparr>ft_woken := ft_woken t1 @ [n]\<rparr>
         else t1)"

lemma fire_heap [simp]: "ft_heap (fire ht t) = ft_heap t"
  by (simp add: fire_def set_node_def Let_def)

function advance_to :: "nat \<Rightarrow> ftimer \<Rightarrow> ftimer option" where
  "advance_to now t =
     (case heap_peek (ft_heap t) of
        None \<Rightarrow> Some t
      | Some x \<Rightarrow>
          (if ht_at x \<le> now
           then (case heap_pop ht_at (ft_heap t) of
                   Some (Some ht, h) \<Rightarrow> advance_to now (fire ht (t\<lparr>ft_heap := h\<rparr>))
                 | _ \<Rightarrow> None)
           else Some t))"
  by pat_completeness auto
termination by (relation "measure (\<lambda>(_, t). length (items (ft_heap t)))") (auto dest: heap_pop_less)

declare advance_to.simps [simp del]

definition timer_remove :: "ftimer \<Rightarrow> nat \<Rightarrow> ftimer option" where
  "timer_remove t n =
     (case tn_slot (ft_nodes t n) of
        None \<Rightarrow> Some t
      | Some s \<Rightarrow>
          (case heap_remove ht_at (ft_heap t) s of
             None \<Rightarrow> None
           | Some (_, h) \<Rightarrow> Some ((set_node n (\<lambda>nd. nd\<lparr>tn_slot := None\<rparr>) t)\<lparr>ft_heap := h\<rparr>)))"

definition update_or_add :: "ftimer \<Rightarrow> nat \<Rightarrow> nat \<Rightarrow> ftimer option" where
  "update_or_add t at' n =
     (let gen = tn_state (ft_nodes t n) div 4
      in case timer_remove t n of
           None \<Rightarrow> None
         | Some t1 \<Rightarrow>
             (case heap_push ht_at (ft_heap t1) \<lparr>ht_at = at', ht_gen = gen, ht_node = n\<rparr> of
                None \<Rightarrow> None
              | Some (s, h) \<Rightarrow> Some ((set_node n (\<lambda>nd. nd\<lparr>tn_slot := Some s\<rparr>) t1)\<lparr>ft_heap := h\<rparr>)))"

text \<open>One poll works off the updates taken from the list, in the order they are popped.\<close>

primrec timer_poll :: "ftimer \<Rightarrow> nat list \<Rightarrow> ftimer option" where
  "timer_poll t [] = Some t"
| "timer_poll t (n # ns) =
     (case (case tn_at (ft_nodes t n) of Some at' \<Rightarrow> update_or_add t at' n | None \<Rightarrow> timer_remove t n) of
        None \<Rightarrow> None
      | Some t' \<Rightarrow> timer_poll t' ns)"

definition invalidate :: "nat \<Rightarrow> ftimer \<Rightarrow> ftimer" where
  "invalidate n t =
     (set_node n (\<lambda>nd. nd\<lparr>tn_state := or (tn_state nd) 2\<rparr>) t)\<lparr>ft_woken := ft_woken t @ [n]\<rparr>"

lemma invalidate_heap [simp]: "ft_heap (invalidate n t) = ft_heap t"
  by (simp add: invalidate_def set_node_def)

function drain_heap :: "ftimer \<Rightarrow> ftimer option" where
  "drain_heap t =
     (case heap_pop ht_at (ft_heap t) of
        None \<Rightarrow> None
      | Some (None, h) \<Rightarrow> Some (t\<lparr>ft_heap := h\<rparr>)
      | Some (Some ht, h) \<Rightarrow> drain_heap (invalidate (ht_node ht) (t\<lparr>ft_heap := h\<rparr>)))"
  by pat_completeness auto
termination by (relation "measure (\<lambda>t. length (items (ft_heap t)))") (auto dest: heap_pop_less)

declare drain_heap.simps [simp del]

definition timer_drop :: "ftimer \<Rightarrow> nat list \<Rightarrow> ftimer option" where
  "timer_drop t ns = drain_heap (fold invalidate ns t)"

section \<open>Nodes and heap agree\<close>

definition timer_wf :: "ftimer \<Rightarrow> bool" where
  "timer_wf t \<longleftrightarrow> heap_wf ht_at (ft_heap t) \<and>
     (\<forall>n s. tn_slot (ft_nodes t n) = Some s \<longleftrightarrow> (\<exists>x. look (ft_heap t) s = Some x \<and> ht_node x = n))"

lemma timer_wfD:
  assumes "timer_wf t"
  shows "heap_wf ht_at (ft_heap t)"
    and "tn_slot (ft_nodes t n) = Some s \<longleftrightarrow> (\<exists>x. look (ft_heap t) s = Some x \<and> ht_node x = n)"
  using assms by (auto simp: timer_wf_def)

lemma timer_new_wf: "(\<And>n. tn_slot (nodes n) = None) \<Longrightarrow> timer_wf (timer_new nodes)"
  by (simp add: timer_wf_def timer_new_def)

text \<open>The deadline and generation each node waits for.\<close>

definition waiting :: "ftimer \<Rightarrow> nat \<rightharpoonup> heap_timer" where
  "waiting t n = (case tn_slot (ft_nodes t n) of None \<Rightarrow> None | Some s \<Rightarrow> look (ft_heap t) s)"

lemma waiting_node: "timer_wf t \<Longrightarrow> waiting t n = Some x \<Longrightarrow> ht_node x = n"
  using timer_wfD(2) by (fastforce simp: waiting_def split: option.splits)

lemma timer_remove_ok:
  assumes "timer_wf t"
  shows "\<exists>t'. timer_remove t n = Some t' \<and> timer_wf t' \<and> waiting t' = (waiting t)(n := None) \<and>
    (\<forall>m. tn_state (ft_nodes t' m) = tn_state (ft_nodes t m) \<and> tn_at (ft_nodes t' m) = tn_at (ft_nodes t m)) \<and>
    ft_woken t' = ft_woken t \<and> tn_slot (ft_nodes t' n) = None"
proof (cases "tn_slot (ft_nodes t n)")
  case None
  then show ?thesis using assms by (auto simp: timer_remove_def waiting_def fun_eq_iff)
next
  case (Some s)
  obtain x where x: "look (ft_heap t) s = Some x" "ht_node x = n" using timer_wfD(2) [OF assms] Some by blast
  obtain h where h: "heap_remove ht_at (ft_heap t) s = Some (x, h)" "heap_wf ht_at h" "look h = (look (ft_heap t))(s := None)"
    using timer_queue.rem_ok [OF timer_wfD(1) [OF assms] x(1)] by blast
  let ?t = "(set_node n (\<lambda>nd. nd\<lparr>tn_slot := None\<rparr>) t)\<lparr>ft_heap := h\<rparr>"
  have inj: "m = n" if "tn_slot (ft_nodes t m) = Some s" for m using timer_wfD(2) [OF assms, of m s] that x by auto
  have slots: "tn_slot (ft_nodes ?t m) = (if m = n then None else tn_slot (ft_nodes t m))" for m
    by (simp add: set_node_def)
  have "timer_wf ?t"
    unfolding timer_wf_def slots
  proof (intro conjI allI)
    fix m r
    show "(if m = n then None else tn_slot (ft_nodes t m)) = Some r \<longleftrightarrow> (\<exists>x. look (ft_heap ?t) r = Some x \<and> ht_node x = m)"
    proof (cases "m = n")
      case True
      have "r = s" if "look (ft_heap t) r = Some x'" "ht_node x' = n" for x'
        using timer_wfD(2) [OF assms, of n r] that Some by auto
      then show ?thesis using True h(3) by auto
    next
      case False
      then have "tn_slot (ft_nodes t m) \<noteq> Some s" using inj by blast
      then show ?thesis using False timer_wfD(2) [OF assms, of m r] h(3) by (cases "r = s") auto
    qed
  qed (simp add: h(2))
  moreover have "waiting ?t m = ((waiting t)(n := None)) m" for m
    using inj [of m] slots [of m] h(3) by (auto simp: waiting_def set_node_def split: option.split)
  ultimately show ?thesis using Some h(1) slots by (auto simp: timer_remove_def set_node_def fun_eq_iff)
qed

lemma update_or_add_ok:
  assumes "timer_wf t"
  shows "\<exists>t'. update_or_add t at' n = Some t' \<and> timer_wf t' \<and>
    waiting t' = (waiting t)(n \<mapsto> \<lparr>ht_at = at', ht_gen = tn_state (ft_nodes t n) div 4, ht_node = n\<rparr>) \<and>
    (\<forall>m. tn_state (ft_nodes t' m) = tn_state (ft_nodes t m) \<and> tn_at (ft_nodes t' m) = tn_at (ft_nodes t m)) \<and>
    ft_woken t' = ft_woken t"
proof -
  let ?x = "\<lparr>ht_at = at', ht_gen = tn_state (ft_nodes t n) div 4, ht_node = n\<rparr>"
  obtain t1 where t1: "timer_remove t n = Some t1" "timer_wf t1" "waiting t1 = (waiting t)(n := None)"
    "\<forall>m. tn_state (ft_nodes t1 m) = tn_state (ft_nodes t m) \<and> tn_at (ft_nodes t1 m) = tn_at (ft_nodes t m)" "ft_woken t1 = ft_woken t" "tn_slot (ft_nodes t1 n) = None"
    using timer_remove_ok [OF assms] by blast
  obtain s h where h: "heap_push ht_at (ft_heap t1) ?x = Some (s, h)" "heap_wf ht_at h" "look (ft_heap t1) s = None"
    "look h = (look (ft_heap t1))(s \<mapsto> ?x)"
    using timer_queue.push_ok [OF timer_wfD(1) [OF t1(2)], of ?x] by blast
  let ?t = "(set_node n (\<lambda>nd. nd\<lparr>tn_slot := Some s\<rparr>) t1)\<lparr>ft_heap := h\<rparr>"
  have slots: "tn_slot (ft_nodes ?t m) = (if m = n then Some s else tn_slot (ft_nodes t1 m))" for m
    by (simp add: set_node_def)
  have free: "tn_slot (ft_nodes t1 m) \<noteq> Some s" for m using timer_wfD(2) [OF t1(2), of m s] h(3) by simp
  have none: "look (ft_heap t1) r = Some x \<Longrightarrow> ht_node x \<noteq> n" for r x using timer_wfD(2) [OF t1(2), of n r] t1(6) by auto
  have "timer_wf ?t"
    unfolding timer_wf_def slots
  proof (intro conjI allI)
    fix m r
    show "(if m = n then Some s else tn_slot (ft_nodes t1 m)) = Some r \<longleftrightarrow> (\<exists>x. look (ft_heap ?t) r = Some x \<and> ht_node x = m)"
      using timer_wfD(2) [OF t1(2), of m r] free [of m] none [of r] h(4) by auto
  qed (simp add: h(2))
  moreover have "waiting ?t m = ((waiting t)(n \<mapsto> ?x)) m" for m
  proof (cases "m = n")
    case False
    then have "waiting ?t m = waiting t1 m"
      using slots [of m] h(4) free [of m] by (auto simp: waiting_def split: option.split)
    then show ?thesis using t1(3) False by simp
  qed (use slots h(4) in \<open>simp add: waiting_def\<close>)
  ultimately show ?thesis using t1 h(1) by (auto simp: update_or_add_def set_node_def fun_eq_iff)
qed

section \<open>Firing what is due\<close>

text \<open>The loop of \<^verbatim>\<open>advance_to\<close> is the client loop of the queue contract, firing each timer it pops.\<close>

lemma advance_to_pops:
  assumes "timer_queue.pops ht_at now h xs h'" "h = ft_heap t"
  shows "advance_to now t = Some ((fold fire xs t)\<lparr>ft_heap := h'\<rparr>)"
  using assms
proof (induction arbitrary: t rule: timer_queue.pops.induct)
  case (pops_stop q)
  then show ?case by (subst advance_to.simps) (auto split: option.split)
next
  case (pops_step q x q1 xs q')
  have swap: "fire y (u\<lparr>ft_heap := g\<rparr>) = (fire y u)\<lparr>ft_heap := g\<rparr>" for y u g
    by (simp add: fire_def set_node_def Let_def)
  have "fold fire ys (u\<lparr>ft_heap := g\<rparr>) = (fold fire ys u)\<lparr>ft_heap := g\<rparr>" for ys u g
    by (induction ys arbitrary: u) (simp_all add: swap)
  then show ?case using pops_step by (subst advance_to.simps) (simp add: swap)
qed

lemma fire_node:
  "ft_nodes (fire x t) m = (if m = ht_node x
     then (ft_nodes t m)\<lparr>tn_slot := None, tn_state := if tn_state (ft_nodes t m) = (ht_gen x * 4) mod 2 ^ 64
       then or (tn_state (ft_nodes t m)) 1 else tn_state (ft_nodes t m)\<rparr>
     else ft_nodes t m)"
  by (auto simp: fire_def set_node_def Let_def)

lemma fire_woken:
  "ft_woken (fire x t) = ft_woken t @ (if tn_state (ft_nodes t (ht_node x)) = (ht_gen x * 4) mod 2 ^ 64 then [ht_node x] else [])"
  by (simp add: fire_def set_node_def Let_def)

text \<open>Firing timers of different nodes, one after the other.\<close>

lemma fold_fire:
  assumes "distinct (map ht_node xs)"
  shows "(\<forall>m. ft_nodes (fold fire xs t) m =
      (case List.find (\<lambda>x. ht_node x = m) xs of None \<Rightarrow> ft_nodes t m | Some x \<Rightarrow> ft_nodes (fire x t) m)) \<and>
    ft_woken (fold fire xs t) = ft_woken t @
      map ht_node (filter (\<lambda>x. tn_state (ft_nodes t (ht_node x)) = (ht_gen x * 4) mod 2 ^ 64) xs)"
  using assms
proof (induction xs arbitrary: t)
  case (Cons x xs)
  note IH = Cons.IH [of "fire x t"]
  have ne: "ht_node y \<noteq> ht_node x" if "y \<in> set xs" for y
    using Cons.prems that by (metis distinct.simps(2) image_eqI list.set_map list.simps(9))
  have other: "ft_nodes (fire x t) (ht_node y) = ft_nodes t (ht_node y)" if "y \<in> set xs" for y
    using ne [OF that] by (simp add: fire_node)
  have none: "List.find (\<lambda>y. ht_node y = ht_node x) xs = None" using ne by (auto simp: find_None_iff)
  have "ft_nodes (fold fire (x # xs) t) m =
      (case List.find (\<lambda>x. ht_node x = m) (x # xs) of None \<Rightarrow> ft_nodes t m | Some x \<Rightarrow> ft_nodes (fire x t) m)" for m
  proof (cases "m = ht_node x")
    case True
    then show ?thesis using IH Cons.prems none by simp
  next
    case False
    then have "ft_nodes (fire y (fire x t)) m = ft_nodes (fire y t) m" "ft_nodes (fire x t) m = ft_nodes t m" for y
      by (simp_all add: fire_node)
    then show ?thesis using IH Cons.prems False by (simp split: option.split)
  qed
  moreover have "filter (\<lambda>y. tn_state (ft_nodes (fire x t) (ht_node y)) = (ht_gen y * 4) mod 2 ^ 64) xs =
      filter (\<lambda>y. tn_state (ft_nodes t (ht_node y)) = (ht_gen y * 4) mod 2 ^ 64) xs"
    by (intro filter_cong refl) (simp only: other)
  ultimately show ?case using IH Cons.prems by (simp add: fire_woken)
qed simp

lemma waiting_iff:
  assumes "timer_wf t"
  shows "waiting t n = Some x \<longleftrightarrow> (\<exists>s. look (ft_heap t) s = Some x \<and> ht_node x = n)"
proof (cases "tn_slot (ft_nodes t n)")
  case None
  then show ?thesis using timer_wfD(2) [OF assms, of n] by (auto simp: waiting_def)
next
  case (Some s)
  then obtain y where "look (ft_heap t) s = Some y" "ht_node y = n" using timer_wfD(2) [OF assms] by blast
  moreover have "r = s" if "look (ft_heap t) r = Some x" "ht_node x = n" for r
    using timer_wfD(2) [OF assms, of n r] that Some by auto
  ultimately show ?thesis using Some by (auto simp: waiting_def)
qed

text \<open>What popping everything due takes from the heap of a well-formed timer.\<close>

lemma popped_nodes:
  assumes wf: "timer_wf t" and ss: "distinct ss" "set ss = {s. \<exists>x. look (ft_heap t) s = Some x \<and> ht_at x \<le> now}"
    "map (look (ft_heap t)) ss = map Some xs"
  shows "distinct (map ht_node xs)"
    and "List.find (\<lambda>x. ht_node x = n) xs = (case waiting t n of Some x \<Rightarrow> if ht_at x \<le> now then Some x else None | None \<Rightarrow> None)"
    and "x \<in> set xs \<longleftrightarrow> waiting t (ht_node x) = Some x \<and> ht_at x \<le> now"
proof -
  let ?lk = "look (ft_heap t)"
  have len: "length ss = length xs" using ss(3) by (metis length_map)
  have at: "?lk (ss ! i) = Some (xs ! i)" if "i < length xs" for i
    using that len ss(3) by (metis nth_map)
  have slot: "tn_slot (ft_nodes t (ht_node (xs ! i))) = Some (ss ! i)" if "i < length xs" for i
    using timer_wfD(2) [OF wf] at [OF that] by blast
  show dist: "distinct (map ht_node xs)"
    unfolding distinct_conv_nth
  proof (intro allI impI)
    fix i j assume ij: "i < length (map ht_node xs)" "j < length (map ht_node xs)" "i \<noteq> j"
    then have "ss ! i \<noteq> ss ! j" using ss(1) len by (simp add: nth_eq_iff_index_eq)
    then show "map ht_node xs ! i \<noteq> map ht_node xs ! j" using slot [of i] slot [of j] ij by auto
  qed
  show mem: "x \<in> set xs \<longleftrightarrow> waiting t (ht_node x) = Some x \<and> ht_at x \<le> now" for x
  proof -
    have "x \<in> set xs \<longleftrightarrow> Some x \<in> set (map ?lk ss)" using ss(3) by auto
    also have "\<dots> \<longleftrightarrow> (\<exists>s \<in> set ss. ?lk s = Some x)" by force
    also have "\<dots> \<longleftrightarrow> (\<exists>s. ?lk s = Some x \<and> ht_at x \<le> now)" unfolding ss(2) by auto
    finally show ?thesis using waiting_iff [OF wf] by blast
  qed
  show "List.find (\<lambda>x. ht_node x = n) xs = (case waiting t n of Some x \<Rightarrow> if ht_at x \<le> now then Some x else None | None \<Rightarrow> None)"
  proof (cases "List.find (\<lambda>x. ht_node x = n) xs")
    case None
    then have "x \<notin> set xs" if "waiting t n = Some x" for x using waiting_node [OF wf that] by (auto simp: find_None_iff)
    then show ?thesis using None mem waiting_node [OF wf] by (auto split: option.split)
  next
    case (Some x)
    then have "x \<in> set xs" "ht_node x = n" using find_SomeD by fastforce+
    then show ?thesis using Some mem [of x] by simp
  qed
qed

text \<open>
  C21: Advancing a timer heap always returns. It fires exactly the nodes whose deadline has come and leaves every
  other node waiting as before; a fired node whose state word still is that of the generation that was
  queued is marked fired and woken once, and no other node's state word changes or task is woken. The node
  and heap invariant is kept.
\<close>

theorem advance_to_exact:
  assumes "timer_wf t"
  shows "\<exists>t'. advance_to now t = Some t' \<and> timer_wf t' \<and>
    waiting t' = (\<lambda>n. case waiting t n of Some x \<Rightarrow> if ht_at x \<le> now then None else Some x | None \<Rightarrow> None) \<and>
    (\<forall>n. tn_state (ft_nodes t' n) = (case waiting t n of
       Some x \<Rightarrow> if ht_at x \<le> now \<and> tn_state (ft_nodes t n) = (ht_gen x * 4) mod 2 ^ 64
                 then or (tn_state (ft_nodes t n)) 1 else tn_state (ft_nodes t n)
     | None \<Rightarrow> tn_state (ft_nodes t n))) \<and>
    (\<exists>ws. ft_woken t' = ft_woken t @ ws \<and> distinct ws \<and>
      set ws = {n. \<exists>x. waiting t n = Some x \<and> ht_at x \<le> now \<and> tn_state (ft_nodes t n) = (ht_gen x * 4) mod 2 ^ 64})"
proof -
  note h = timer_wfD(1) [OF assms]
  let ?lk = "look (ft_heap t)"
  let ?due = "\<lambda>n. case waiting t n of Some x \<Rightarrow> if ht_at x \<le> now then Some x else None | None \<Rightarrow> None"
  obtain xs h' where p: "timer_queue.pops ht_at now (ft_heap t) xs h'" using timer_queue.pops_total [OF h] by blast
  obtain ss where wf': "heap_wf ht_at h'"
    and look': "look h' = (\<lambda>s. case ?lk s of Some x \<Rightarrow> if ht_at x \<le> now then None else Some x | None \<Rightarrow> None)"
    and ss: "distinct ss" "set ss = {s. \<exists>x. ?lk s = Some x \<and> ht_at x \<le> now}" "map ?lk ss = map Some xs"
    using timer_queue.pops_exact [OF p h] by blast
  note pn = popped_nodes [OF assms ss]
  define t' where "t' = (fold fire xs t)\<lparr>ft_heap := h'\<rparr>"
  have nodes: "ft_nodes t' n = (case ?due n of None \<Rightarrow> ft_nodes t n | Some x \<Rightarrow> ft_nodes (fire x t) n)" for n
    using fold_fire [OF pn(1), of t] pn(2) by (simp add: t'_def)
  have due: "ht_node x = n" if "?due n = Some x" for n x
    using that waiting_node [OF assms] by (auto split: option.splits if_splits)
  have slots: "tn_slot (ft_nodes t' n) = (if ?due n = None then tn_slot (ft_nodes t n) else None)" for n
    using nodes [of n] due [of n] by (auto simp: fire_node split: option.split)
  have look_wait: "?lk s = Some x \<Longrightarrow> waiting t (ht_node x) = Some x" for s x using waiting_iff [OF assms] by blast
  have wf: "timer_wf t'"
    unfolding timer_wf_def slots
  proof (intro conjI allI)
    fix n s
    have "(\<exists>x. look h' s = Some x \<and> ht_node x = n) \<longleftrightarrow> (\<exists>x. ?lk s = Some x \<and> ht_node x = n) \<and> ?due n = None"
      unfolding look' using look_wait [of s] by (auto split: option.splits)
    then show "(if ?due n = None then tn_slot (ft_nodes t n) else None) = Some s \<longleftrightarrow>
        (\<exists>x. look (ft_heap t') s = Some x \<and> ht_node x = n)"
      using timer_wfD(2) [OF assms, of n s] by (auto simp: t'_def)
  qed (simp add: t'_def wf')
  have "waiting t' n = Some x \<longleftrightarrow> waiting t n = Some x \<and> now < ht_at x" for n x
    unfolding waiting_iff [OF wf] waiting_iff [OF assms] by (auto simp: t'_def look' split: option.splits if_splits)
  then have "waiting t' = (\<lambda>n. case waiting t n of Some x \<Rightarrow> if ht_at x \<le> now then None else Some x | None \<Rightarrow> None)"
    by (intro ext option_eqI) (auto split: option.split)
  moreover have "tn_state (ft_nodes t' n) = (case waiting t n of
       Some x \<Rightarrow> if ht_at x \<le> now \<and> tn_state (ft_nodes t n) = (ht_gen x * 4) mod 2 ^ 64
                 then or (tn_state (ft_nodes t n)) 1 else tn_state (ft_nodes t n)
     | None \<Rightarrow> tn_state (ft_nodes t n))" for n
    using nodes [of n] due [of n] by (auto simp: fire_node split: option.splits if_splits)
  moreover have "ft_woken t' = ft_woken t @
      map ht_node (filter (\<lambda>x. tn_state (ft_nodes t (ht_node x)) = (ht_gen x * 4) mod 2 ^ 64) xs)"
    using fold_fire [OF pn(1), of t] by (simp add: t'_def)
  moreover have "set (map ht_node (filter (\<lambda>x. tn_state (ft_nodes t (ht_node x)) = (ht_gen x * 4) mod 2 ^ 64) xs)) =
      {n. \<exists>x. waiting t n = Some x \<and> ht_at x \<le> now \<and> tn_state (ft_nodes t n) = (ht_gen x * 4) mod 2 ^ 64}"
  proof -
    have "n \<in> ht_node ` set (filter (\<lambda>x. tn_state (ft_nodes t (ht_node x)) = (ht_gen x * 4) mod 2 ^ 64) xs) \<longleftrightarrow>
      (\<exists>x. waiting t n = Some x \<and> ht_at x \<le> now \<and> tn_state (ft_nodes t n) = (ht_gen x * 4) mod 2 ^ 64)" for n
      unfolding image_iff set_filter mem_Collect_eq Bex_def pn(3) using waiting_node [OF assms] by metis
    then show ?thesis by (auto simp only: set_map set_eq_iff mem_Collect_eq)
  qed
  ultimately show ?thesis
    using advance_to_pops [OF p refl] wf pn(1) by (intro exI [of _ t']) (auto simp: t'_def distinct_map_filter)
qed

theorem advance_to_exact_witness:
  "\<exists>t t'. update_or_add (timer_new (\<lambda>_. \<lparr>tn_state = 0, tn_at = None, tn_slot = None\<rparr>)) 5 3 = Some t \<and>
    advance_to 10 t = Some t' \<and> waiting t' 3 = None \<and> tn_state (ft_nodes t' 3) = 1 \<and> ft_woken t' = [3]"
proof -
  let ?t0 = "timer_new (\<lambda>_. \<lparr>tn_state = 0, tn_at = None, tn_slot = None\<rparr>)"
  have w0: "timer_wf ?t0" by (rule timer_new_wf) simp
  have s0: "tn_state (ft_nodes ?t0 n) = 0" "waiting ?t0 n = None" "ft_woken ?t0 = []" for n
    by (simp_all add: timer_new_def waiting_def)
  obtain t where t: "update_or_add ?t0 5 3 = Some t" "timer_wf t"
    "waiting t = (waiting ?t0)(3 \<mapsto> \<lparr>ht_at = 5, ht_gen = 0, ht_node = 3\<rparr>)"
    "\<forall>m. tn_state (ft_nodes t m) = 0" "ft_woken t = []"
    using update_or_add_ok [OF w0, of 5 3] by (auto simp: s0)
  have wt: "waiting t n = (if n = 3 then Some \<lparr>ht_at = 5, ht_gen = 0, ht_node = 3\<rparr> else None)" for n by (simp add: t(3) s0)
  obtain t' ws where "advance_to 10 t = Some t'" "waiting t' 3 = None" "tn_state (ft_nodes t' 3) = or 0 1"
    "ft_woken t' = ws" "distinct ws" "set ws = {3}"
    using advance_to_exact [OF t(2), of 10] by (auto simp: wt t(4,5))
  then show ?thesis using t(1) distinct_singleton [of ws 3] by auto
qed

text \<open>
  C22: Working off the update list always returns and leaves each listed node waiting for the deadline it has, with the
  generation its state word has, or not waiting when it has none; no other node is touched, no state word changes
  and nothing is woken.
\<close>

theorem timer_poll_exact:
  assumes "timer_wf t"
  shows "\<exists>t'. timer_poll t ns = Some t' \<and> timer_wf t' \<and> ft_woken t' = ft_woken t \<and>
    (\<forall>n. tn_state (ft_nodes t' n) = tn_state (ft_nodes t n)) \<and>
    waiting t' = (\<lambda>n. if n \<in> set ns
      then map_option (\<lambda>at'. \<lparr>ht_at = at', ht_gen = tn_state (ft_nodes t n) div 4, ht_node = n\<rparr>) (tn_at (ft_nodes t n))
      else waiting t n)"
  using assms
proof (induction ns arbitrary: t)
  case (Cons n ns)
  let ?new = "\<lambda>m. map_option (\<lambda>at'. \<lparr>ht_at = at', ht_gen = tn_state (ft_nodes t m) div 4, ht_node = m\<rparr>) (tn_at (ft_nodes t m))"
  obtain t1 where call: "(case tn_at (ft_nodes t n) of Some at' \<Rightarrow> update_or_add t at' n | None \<Rightarrow> timer_remove t n) = Some t1"
    and wf: "timer_wf t1" and w: "ft_woken t1 = ft_woken t" and wait: "waiting t1 = (waiting t)(n := ?new n)"
    and same: "\<forall>m. tn_state (ft_nodes t1 m) = tn_state (ft_nodes t m) \<and> tn_at (ft_nodes t1 m) = tn_at (ft_nodes t m)"
  proof (cases "tn_at (ft_nodes t n)")
    case None
    then show thesis using that timer_remove_ok [OF Cons.prems, of n] by auto
  next
    case (Some at')
    then show thesis using that update_or_add_ok [OF Cons.prems, of at' n] by auto
  qed
  show ?case using Cons.IH [OF wf] by (auto simp: call w wait same fun_eq_iff)
qed auto

theorem timer_poll_exact_witness:
  "\<exists>t. timer_poll (timer_new (\<lambda>n. \<lparr>tn_state = 8, tn_at = Some (Suc n), tn_slot = None\<rparr>)) [4, 2] = Some t \<and>
    waiting t 4 = Some \<lparr>ht_at = 5, ht_gen = 2, ht_node = 4\<rparr> \<and> waiting t 3 = None"
proof -
  let ?t0 = "timer_new (\<lambda>n. \<lparr>tn_state = 8, tn_at = Some (Suc n), tn_slot = None\<rparr>)"
  have w0: "timer_wf ?t0" by (rule timer_new_wf) simp
  have s0: "ft_nodes ?t0 n = \<lparr>tn_state = 8, tn_at = Some (Suc n), tn_slot = None\<rparr>" "waiting ?t0 n = None" for n
    by (simp_all add: timer_new_def waiting_def)
  obtain t where "timer_poll ?t0 [4, 2] = Some t" "waiting t = (\<lambda>n. if n \<in> set [4, 2]
      then map_option (\<lambda>at'. \<lparr>ht_at = at', ht_gen = tn_state (ft_nodes ?t0 n) div 4, ht_node = n\<rparr>) (tn_at (ft_nodes ?t0 n))
      else waiting ?t0 n)"
    using timer_poll_exact [OF w0, of "[4, 2]"] by blast
  then show ?thesis by (intro exI [of _ t]) (simp add: s0 del: timer_poll.simps)
qed

end
