(* ===== verification/Civil_Date.thy ===== *)
theory Civil_Date
  imports Prelude
begin

text \<open>
  The proleptic Gregorian calendar of the local-time code (\<^verbatim>\<open>crates/snare-interpose/src/os/tz.rs\<close>):
  days since 1970-01-01 and back. Years and days are far from the limits of \<^verbatim>\<open>i64\<close> (\<^verbatim>\<open>break_down\<close> refuses
  times beyond \<open>2 ^ 56\<close> seconds), so they are integers here. The conversions are shown to be inverse to each
  other and to follow the calendar day by day.
\<close>

definition is_leap :: "int \<Rightarrow> bool" where
  "is_leap year = (year mod 4 = 0 \<and> (year mod 100 \<noteq> 0 \<or> year mod 400 = 0))"

definition month_length :: "int \<Rightarrow> int \<Rightarrow> int" where
  "month_length year month =
     (if month = 2 then (if is_leap year then 29 else 28)
      else if month = 4 \<or> month = 6 \<or> month = 9 \<or> month = 11 then 30 else 31)"

definition days_from_civil :: "int \<Rightarrow> int \<Rightarrow> int \<Rightarrow> int" where
  "days_from_civil year month day =
     (let y = (if month \<le> 2 then year - 1 else year);
          era = y div 400;
          yoe = y - era * 400;
          mp = (month + 9) mod 12;
          doy = (153 * mp + 2) div 5 + day - 1;
          doe = yoe * 365 + yoe div 4 - yoe div 100 + doy
      in era * 146097 + doe - 719468)"

definition civil_from_days :: "int \<Rightarrow> int \<times> int \<times> int" where
  "civil_from_days days =
     (let z = days + 719468;
          era = z div 146097;
          doe = z - era * 146097;
          yoe = (doe - doe div 1460 + doe div 36524 - doe div 146096) div 365;
          doy = doe - (365 * yoe + yoe div 4 - yoe div 100);
          mp = (5 * doy + 2) div 153;
          day = doy - (153 * mp + 2) div 5 + 1;
          month = (if mp < 10 then mp + 3 else mp - 9)
      in (yoe + era * 400 + (if month \<le> 2 then 1 else 0), month, day))"

section \<open>The calendar itself\<close>

text \<open>A date of the calendar, and the date of the next day: the reference the day count is compared with.\<close>

definition valid_date :: "int \<Rightarrow> int \<Rightarrow> int \<Rightarrow> bool" where
  "valid_date y m d \<longleftrightarrow> 1 \<le> m \<and> m \<le> 12 \<and> 1 \<le> d \<and> d \<le> month_length y m"

definition next_date :: "int \<times> int \<times> int \<Rightarrow> int \<times> int \<times> int" where
  "next_date dt = (case dt of (y, m, d) \<Rightarrow>
     if d < month_length y m then (y, m, d + 1)
     else if m < 12 then (y, m + 1, 1) else (y + 1, 1, 1))"

text \<open>The day count without the split into eras: the year starts in March.\<close>

lemma days_linear:
  "days_from_civil y m d =
     (let Y = (if m \<le> 2 then y - 1 else y)
      in 365 * Y + Y div 4 - Y div 100 + Y div 400 + (153 * ((m + 9) mod 12) + 2) div 5 + d - 719469)"
proof -
  define Y where "Y = (if m \<le> 2 then y - 1 else y)"
  obtain e r where e: "Y div 400 = e" "Y = 400 * e + r" "0 \<le> r" "r < 400"
    using that [of "Y div 400" "Y mod 400"] by simp
  have "Y div 4 = 100 * e + r div 4" "Y div 100 = 4 * e + r div 100" using e(3,4) unfolding e(2) by auto
  then show ?thesis
    unfolding days_from_civil_def Let_def Y_def [symmetric] e(1) using e(2) by simp
qed

lemma div_step:
  fixes y k :: int
  assumes "0 < k"
  shows "y div k = (y - 1) div k + (if y mod k = 0 then 1 else 0)"
proof (cases "y mod k = 0")
  case True
  then have "y - 1 = k * (y div k - 1) + (k - 1)" using mult_div_mod_eq [of k y] by (simp add: algebra_simps)
  then have "(y - 1) div k = y div k - 1" using int_div_pos_eq [of "y - 1" k "y div k - 1" "k - 1"] assms by simp
  then show ?thesis using True by simp
next
  case False
  have "y - 1 = k * (y div k) + (y mod k - 1)" using mult_div_mod_eq [of k y] by simp
  moreover have "0 \<le> y mod k - 1" "y mod k - 1 < k" using False pos_mod_sign [OF assms, of y] pos_mod_bound [OF assms, of y] by linarith+
  ultimately have "(y - 1) div k = y div k" by (rule int_div_pos_eq)
  then show ?thesis using False by simp
qed

lemma leap_count:
  "y div 4 - y div 100 + y div 400 = (y - 1) div 4 - (y - 1) div 100 + (y - 1) div 400 + (if is_leap y then 1 else 0)"
proof -
  have "100 dvd y \<Longrightarrow> 4 dvd y" "400 dvd y \<Longrightarrow> 100 dvd y" by (auto elim: dvd_trans [rotated])
  then have m: "y mod 100 \<noteq> 0 \<or> y mod 4 = 0" "y mod 400 \<noteq> 0 \<or> y mod 100 = 0" by (auto simp: dvd_eq_mod_eq_0)
  have d: "y div 4 = (y - 1) div 4 + (if y mod 4 = 0 then 1 else 0)"
    "y div 100 = (y - 1) div 100 + (if y mod 100 = 0 then 1 else 0)"
    "y div 400 = (y - 1) div 400 + (if y mod 400 = 0 then 1 else 0)" by (rule div_step, simp)+
  show ?thesis
    using m unfolding is_leap_def d(1) d(2) d(3)
    by (cases "y mod 4 = 0"; cases "y mod 100 = 0"; cases "y mod 400 = 0") simp_all
qed

text \<open>The day count goes up by one from each date to the next.\<close>

lemma days_next:
  assumes "valid_date y m d"
  shows "(case next_date (y, m, d) of (y', m', d') \<Rightarrow> valid_date y' m' d' \<and>
    days_from_civil y' m' d' = days_from_civil y m d + 1)"
proof -
  have m: "m = 1 \<or> m = 2 \<or> m = 3 \<or> m = 4 \<or> m = 5 \<or> m = 6 \<or> m = 7 \<or> m = 8 \<or> m = 9 \<or> m = 10 \<or> m = 11 \<or> m = 12"
    using assms unfolding valid_date_def by arith
  show ?thesis
  proof (cases "d < month_length y m")
    case True
    then show ?thesis using assms by (simp add: next_date_def valid_date_def days_linear Let_def)
  next
    case False
    then have d: "d = month_length y m" using assms by (simp add: valid_date_def)
    define c where "c = (\<lambda>y :: int. y div 4 - y div 100 + y div 400)"
    have lin: "days_from_civil y' m' d' = (let Y = (if m' \<le> 2 then y' - 1 else y')
        in 365 * Y + c Y + (153 * ((m' + 9) mod 12) + 2) div 5 + d' - 719469)" for y' m' d'
      by (simp add: days_linear c_def Let_def)
    have "c y = c (y - 1) + (if is_leap y then 1 else 0)" unfolding c_def by (rule leap_count)
    with m show ?thesis
      unfolding d by (elim disjE) (simp_all add: next_date_def valid_date_def lin Let_def month_length_def)
  qed
qed

lemma days_prev:
  assumes "valid_date y m d"
  obtains y' m' d' where "valid_date y' m' d'" "days_from_civil y' m' d' = days_from_civil y m d - 1"
proof -
  define p where "p = (if 1 < d then (y, m, d - 1) else if 1 < m then (y, m - 1, month_length y (m - 1)) else (y - 1, 12, 31))"
  obtain y' m' d' where p: "p = (y', m', d')" by (cases p)
  have l: "1 \<le> month_length y k" "month_length y k \<le> 31" for k by (auto simp: month_length_def)
  have "month_length (y - 1) 12 = 31" by (simp add: month_length_def)
  then have "valid_date y' m' d' \<and> next_date (y', m', d') = (y, m, d)"
    using assms p l by (auto simp: p_def valid_date_def next_date_def split: if_splits)
  then show thesis using that [of y' m' d'] days_next [of y' m' d'] by simp
qed

lemma date_exists: "\<exists>y m d. valid_date y m d \<and> days_from_civil y m d = n"
proof (induction n rule: int_induct [where k = 0])
  case base
  have "valid_date 1970 1 1 \<and> days_from_civil 1970 1 1 = 0"
    by (simp add: valid_date_def month_length_def days_from_civil_def Let_def)
  then show ?case by blast
next
  case (step1 n)
  then obtain y m d where "valid_date y m d" "days_from_civil y m d = n" by blast
  then show ?case using days_next [of y m d] by (cases "next_date (y, m, d)") auto
next
  case (step2 n)
  then obtain y m d where "valid_date y m d" "days_from_civil y m d = n" by blast
  then show ?case using days_prev [of y m d] by metis
qed

section \<open>The two conversions are inverse\<close>

text \<open>The year of an era from the day of the era.\<close>

lemma year_of_era:
  fixes c q r doy :: int
  assumes "0 \<le> c" "c \<le> 3" "0 \<le> q" "q \<le> 24" "0 \<le> r" "r \<le> 3" "0 \<le> doy"
    and last: "doy \<le> 364 \<or> doy = 365 \<and> r = 3 \<and> (q \<noteq> 24 \<or> c = 3)"
    and doe: "doe = 36524 * c + 1461 * q + 365 * r + doy"
  shows "(doe - doe div 1460 + doe div 36524 - doe div 146096) div 365 = 100 * c + 4 * q + r"
proof -
  define x where "x = 24 * c + q + 365 * r + doy"
  define e :: int where "e = (if 1460 \<le> x then 1 else 0)"
  have b: "0 \<le> doy - e" "doy - e < 365" using assms(1-7) last unfolding e_def x_def by (auto split: if_splits)
  have x: "0 \<le> x - 1460 * e" "x - 1460 * e < 1460" using assms(1-7) last unfolding e_def x_def by (auto split: if_splits)
  have d1: "doe div 1460 = 25 * c + q + e"
    by (rule int_div_pos_eq [of _ _ _ "x - 1460 * e"]) (use x in \<open>simp_all add: doe x_def\<close>)
  show ?thesis
  proof (cases "c = 3 \<and> q = 24 \<and> r = 3 \<and> doy = 365")
    case True
    then show ?thesis by (simp add: doe)
  next
    case False
    have lt: "1461 * q + 365 * r + doy < 36524" using assms(1-7) last False by auto
    have d2: "doe div 36524 = c"
      by (rule int_div_pos_eq [of _ _ _ "1461 * q + 365 * r + doy"]) (use lt assms(1-7) in \<open>simp_all add: doe\<close>)
    have d3: "doe div 146096 = 0"
      by (rule div_pos_pos_trivial) (use lt assms(1-7) in \<open>simp_all add: doe\<close>)
    show ?thesis
      unfolding d1 d2 d3 by (rule int_div_pos_eq [of _ _ _ "doy - e"]) (use b in \<open>simp_all add: doe\<close>)
  qed
qed

text \<open>The month of a March-based year from the day of that year.\<close>

lemma month_of_year:
  fixes mp d :: int
  assumes "0 \<le> mp" "mp \<le> 11" "1 \<le> d" "d \<le> (153 * (mp + 1) + 2) div 5 - (153 * mp + 2) div 5"
  shows "(5 * ((153 * mp + 2) div 5 + d - 1) + 2) div 153 = mp"
proof -
  define s where "s = (153 * mp + 2) div 5"
  define s' where "s' = (153 * (mp + 1) + 2) div 5"
  have "5 * s \<le> 153 * mp + 2" "153 * mp + 2 < 5 * s + 5" unfolding s_def by linarith+
  moreover have "5 * s' \<le> 153 * (mp + 1) + 2" unfolding s'_def by linarith
  moreover have "d \<le> s' - s" using assms(4) by (simp add: s_def s'_def)
  ultimately have "0 \<le> 5 * (s + d - 1) + 2 - 153 * mp \<and> 5 * (s + d - 1) + 2 - 153 * mp < 153"
    using assms(3) by auto
  then show ?thesis unfolding s_def [symmetric]
    by (intro int_div_pos_eq [of _ _ _ "5 * (s + d - 1) + 2 - 153 * mp"]) simp_all
qed

text \<open>The place of a leap year in its era: the last of four years, and of a century only the fourth.\<close>

lemma leap_place:
  fixes c q r :: int
  assumes "y = 400 * era + 100 * c + 4 * q + r + 1" "0 \<le> c" "c \<le> 3" "0 \<le> r" "r \<le> 3" "is_leap y"
  shows "r = 3 \<and> (q \<noteq> 24 \<or> c = 3)"
proof -
  have y: "y = 4 * (100 * era + 25 * c + q) + (r + 1)" "y = 100 * (4 * era + c) + (4 * q + r + 1)"
    "y = 400 * era + (100 * c + 4 * q + r + 1)" using assms(1) by simp_all
  have mods: "y mod 4 = (r + 1) mod 4" "y mod 100 = (4 * q + r + 1) mod 100"
    "y mod 400 = (100 * c + 4 * q + r + 1) mod 400"
    by (subst y(1) y(2) y(3), rule mod_mult_self4)+
  have rs: "r = 0 \<or> r = 1 \<or> r = 2 \<or> r = 3" and cs: "c = 0 \<or> c = 1 \<or> c = 2 \<or> c = 3"
    using assms(2-5) by arith+
  have "(r + 1) mod 4 = 0" using assms(6) unfolding is_leap_def mods by simp
  with rs have r: "r = 3" by (elim disjE) simp_all
  have "c = 3" if "q = 24"
    using assms(6) cs unfolding is_leap_def mods that r by (elim disjE) simp_all
  then show ?thesis using r by blast
qed

lemma civil_of_days:
  assumes "valid_date y m d"
  shows "civil_from_days (days_from_civil y m d) = (y, m, d)"
proof -
  define Y where "Y = (if m \<le> 2 then y - 1 else y)"
  define mp where "mp = (m + 9) mod 12"
  have mp: "0 \<le> mp" "mp \<le> 11" "m = (if mp < 10 then mp + 3 else mp - 9)" "m \<le> 2 \<longleftrightarrow> 10 \<le> mp"
    using assms unfolding mp_def valid_date_def by (auto simp: mod_pos_pos_trivial) presburger+
  obtain era yoe where e: "Y div 400 = era" "Y = 400 * era + yoe" "0 \<le> yoe" "yoe < 400"
    using that [of "Y div 400" "Y mod 400"] by simp
  obtain c v where cv: "yoe div 100 = c" "yoe = 100 * c + v" "0 \<le> v" "v < 100"
    using that [of "yoe div 100" "yoe mod 100"] by simp
  obtain q r where qr: "v = 4 * q + r" "0 \<le> r" "r \<le> 3"
    using that [of "v div 4" "v mod 4"] by simp
  have cqr: "0 \<le> c" "c \<le> 3" "0 \<le> q" "q \<le> 24" "0 \<le> r" "r \<le> 3" "yoe = 100 * c + 4 * q + r"
    using e(3,4) cv(2-4) qr by simp_all
  define doy where "doy = (153 * mp + 2) div 5 + d - 1"
  define doe where "doe = 36524 * c + 1461 * q + 365 * r + doy"
  have mps: "mp = 0 \<or> mp = 1 \<or> mp = 2 \<or> mp = 3 \<or> mp = 4 \<or> mp = 5 \<or> mp = 6 \<or> mp = 7 \<or> mp = 8 \<or> mp = 9 \<or> mp = 10 \<or> mp = 11"
    using mp(1,2) by arith
  have len: "month_length y m \<le> (153 * (mp + 1) + 2) div 5 - (153 * mp + 2) div 5"
    using mps unfolding mp(3) by (elim disjE) (simp_all add: month_length_def)
  have feb: "r = 3 \<and> (q \<noteq> 24 \<or> c = 3)" if "is_leap y" "m = 2"
    using e(2) cqr(7) that(2) unfolding Y_def by (intro leap_place [of y era, OF _ cqr(1,2,5,6) that(1)]) simp
  have doy: "0 \<le> doy" "doy \<le> 364 \<or> doy = 365 \<and> r = 3 \<and> (q \<noteq> 24 \<or> c = 3)"
    using mps assms feb unfolding doy_def valid_date_def mp(3)
    by (elim disjE; auto simp: month_length_def split: if_splits)+
  have yoe4: "yoe div 4 = 25 * c + q" using cqr(5-7) by (intro int_div_pos_eq [of _ _ _ r]) simp_all
  have Yy: "Y - era * 400 = yoe" using e(2) by simp
  have days: "days_from_civil y m d + 719468 = 146097 * era + doe"
    unfolding days_from_civil_def Let_def Y_def [symmetric] e(1) mp_def [symmetric] Yy yoe4 cv(1)
    unfolding doe_def doy_def cqr(7) by simp
  have "doe < 146097" "0 \<le> doe" using cqr doy unfolding doe_def by auto
  then have era: "(days_from_civil y m d + 719468) div 146097 = era"
    unfolding days by (intro int_div_pos_eq [of _ _ _ doe]) simp_all
  have yr: "(doe - doe div 1460 + doe div 36524 - doe div 146096) div 365 = yoe"
    using year_of_era [OF cqr(1-6) doy doe_def] cqr(7) by simp
  have rest: "doe - (365 * yoe + yoe div 4 - yoe div 100) = doy"
    unfolding yoe4 cv(1) unfolding doe_def cqr(7) by simp
  have month: "(5 * doy + 2) div 153 = mp"
    unfolding doy_def using month_of_year [OF mp(1,2)] assms len by (simp add: valid_date_def)
  have de: "days_from_civil y m d + 719468 - era * 146097 = doe" using days by simp
  show ?thesis
    unfolding civil_from_days_def Let_def era de yr rest month mp(3) [symmetric]
    using e(2) unfolding doy_def Y_def by (simp split: if_splits)
qed

section \<open>The conversions follow the calendar\<close>

lemma days_of_civil:
  assumes "civil_from_days n = (y, m, d)"
  shows "valid_date y m d" "days_from_civil y m d = n"
proof -
  obtain y' m' d' where "valid_date y' m' d'" "days_from_civil y' m' d' = n" using date_exists by blast
  moreover then have "civil_from_days n = (y', m', d')" using civil_of_days by blast
  ultimately show "valid_date y m d" "days_from_civil y m d = n" using assms by simp_all
qed

section \<open>The days of a year\<close>

lemma month_length_ge: "28 \<le> month_length y m" "month_length y m \<le> 31"
  by (simp_all add: month_length_def)

lemma days_from_civil_day: "days_from_civil y m (1 + k) = days_from_civil y m 1 + k"
  by (simp add: days_linear Let_def)

text \<open>The days of a year before a date, as in 1970 but for the leap day.\<close>

lemma year_day:
  assumes "1 \<le> m" "m \<le> 12"
  shows "days_from_civil y m d - days_from_civil y 1 1 =
    days_from_civil 1970 m d + (if is_leap y \<and> 2 < m then 1 else 0)"
proof -
  define L :: "int \<Rightarrow> int" where "L k = k div 4 - k div 100 + k div 400" for k
  define S where "S = (153 * ((m + 9) mod 12) + 2) div 5"
  have lin: "days_from_civil z m d = (if m \<le> 2 then 365 * (z - 1) + L (z - 1) else 365 * z + L z) + S + d - 719469"
    for z unfolding days_linear L_def S_def Let_def by simp
  have jan: "days_from_civil y 1 1 = 365 * (y - 1) + L (y - 1) + 306 + 1 - 719469"
    unfolding days_linear L_def Let_def by simp
  have "L 1969 = 477" "L 1970 = 477" by (simp_all add: L_def)
  moreover have "L y = L (y - 1) + (if is_leap y then 1 else 0)" unfolding L_def by (rule leap_count)
  ultimately show ?thesis unfolding lin jan by (simp split: if_splits)
qed

lemma jan1_step: "days_from_civil (y + 1) 1 1 = days_from_civil y 1 1 + 365 + (if is_leap y then 1 else 0)"
  using days_next [of y 12 31] year_day [of 12 y 31]
  by (simp add: valid_date_def month_length_def next_date_def days_linear Let_def)

lemma jan1_mono: "a \<le> b \<Longrightarrow> days_from_civil a 1 1 + 365 * (b - a) \<le> days_from_civil b 1 1"
proof (induction rule: int_ge_induct)
  case (step b)
  then show ?case using jan1_step [of b] by (simp split: if_splits)
qed simp

lemma jan1_le: "a \<le> b \<Longrightarrow> days_from_civil b 1 1 \<le> days_from_civil a 1 1 + 366 * (b - a)"
proof (induction rule: int_ge_induct)
  case (step b)
  then show ?case using jan1_step [of b] by (simp split: if_splits)
qed simp

lemma months: "1 \<le> (m::int) \<and> m \<le> 12 \<longleftrightarrow>
    m = 1 \<or> m = 2 \<or> m = 3 \<or> m = 4 \<or> m = 5 \<or> m = 6 \<or> m = 7 \<or> m = 8 \<or> m = 9 \<or> m = 10 \<or> m = 11 \<or> m = 12"
  by presburger

lemma month_starts:
  "days_from_civil 1970 1 d = d - 1" "days_from_civil 1970 2 d = d + 30" "days_from_civil 1970 3 d = d + 58"
  "days_from_civil 1970 4 d = d + 89" "days_from_civil 1970 5 d = d + 119" "days_from_civil 1970 6 d = d + 150"
  "days_from_civil 1970 7 d = d + 180" "days_from_civil 1970 8 d = d + 211" "days_from_civil 1970 9 d = d + 242"
  "days_from_civil 1970 10 d = d + 272" "days_from_civil 1970 11 d = d + 303" "days_from_civil 1970 12 d = d + 333"
  by (simp_all add: days_linear Let_def)

lemma year_bounds:
  assumes "valid_date y m d"
  shows "days_from_civil y 1 1 \<le> days_from_civil y m d" "days_from_civil y m d < days_from_civil (y + 1) 1 1"
proof -
  have m: "m = 1 \<or> m = 2 \<or> m = 3 \<or> m = 4 \<or> m = 5 \<or> m = 6 \<or> m = 7 \<or> m = 8 \<or> m = 9 \<or> m = 10 \<or> m = 11 \<or> m = 12"
    using assms months [of m] by (simp add: valid_date_def)
  have "0 \<le> days_from_civil y m d - days_from_civil y 1 1 \<and>
    days_from_civil y m d - days_from_civil y 1 1 < 365 + (if is_leap y then 1 else 0)"
    using m assms year_day [of m y d]
    by (elim disjE) (simp_all add: month_starts valid_date_def month_length_def split: if_splits)
  then show "days_from_civil y 1 1 \<le> days_from_civil y m d" "days_from_civil y m d < days_from_civil (y + 1) 1 1"
    using jan1_step [of y] by simp_all
qed

lemma year_unique:
  assumes "days_from_civil y 1 1 \<le> k" "k < days_from_civil (y + 1) 1 1"
  shows "fst (civil_from_days k) = y"
proof -
  obtain a m d where c: "civil_from_days k = (a, m, d)" by (cases "civil_from_days k") auto
  have "days_from_civil a 1 1 \<le> k" "k < days_from_civil (a + 1) 1 1"
    using year_bounds [OF days_of_civil(1) [OF c]] days_of_civil(2) [OF c] by simp_all
  then have "\<not> a + 1 \<le> y" "\<not> y + 1 \<le> a" using jan1_mono [of "a + 1" y] jan1_mono [of "y + 1" a] assms by auto
  then show ?thesis using c by simp
qed

text \<open>The date of a day counted without February 29.\<close>

lemma julian_date:
  assumes "0 \<le> n" "n < 365"
  shows "\<exists>m d. civil_from_days n = (1970, m, d) \<and>
    civil_from_days (days_from_civil y 1 1 + n + (if is_leap y \<and> n \<ge> 59 then 1 else 0)) = (y, m, d)"
proof -
  obtain a m d where c: "civil_from_days n = (a, m, d)" by (cases "civil_from_days n") auto
  have "a = 1970"
    using year_unique [of 1970 n] assms c by (simp add: days_linear Let_def)
  then have v: "valid_date 1970 m d" "days_from_civil 1970 m d = n" using days_of_civil [OF c] by simp_all
  then have m: "m = 1 \<or> m = 2 \<or> m = 3 \<or> m = 4 \<or> m = 5 \<or> m = 6 \<or> m = 7 \<or> m = 8 \<or> m = 9 \<or> m = 10 \<or> m = 11 \<or> m = 12"
    using months [of m] by (simp add: valid_date_def)
  have late: "2 < m \<longleftrightarrow> 59 \<le> n"
    using m v by (elim disjE) (simp_all add: month_starts valid_date_def month_length_def is_leap_def)
  have "days_from_civil y m d = days_from_civil y 1 1 + n + (if is_leap y \<and> n \<ge> 59 then 1 else 0)"
    using year_day [of m y d] v late by (simp add: valid_date_def split: if_splits)
  moreover have "valid_date y m d"
    using v(1) m by (elim disjE) (simp_all add: valid_date_def month_length_def is_leap_def)
  ultimately show ?thesis using civil_of_days [of y m d] c \<open>a = 1970\<close> by auto
qed

text \<open>
  C19: The two conversions are inverse: a day number converts to a date exactly when the date is one of the
  calendar and converts back to that number. Day 0 is 1970-01-01, and the next day number is the next date of the
  calendar, so every date the code computes is the right one.
\<close>

theorem calendar_exact:
  "(civil_from_days n = (y, m, d) \<longleftrightarrow> valid_date y m d \<and> days_from_civil y m d = n) \<and>
   civil_from_days 0 = (1970, 1, 1) \<and> civil_from_days (n + 1) = next_date (civil_from_days n)"
proof -
  obtain a b c where c: "civil_from_days n = (a, b, c)" by (cases "civil_from_days n") auto
  obtain a' b' c' where n: "next_date (a, b, c) = (a', b', c')" by (cases "next_date (a, b, c)") auto
  have "civil_from_days (n + 1) = next_date (civil_from_days n)"
    using days_next [OF days_of_civil(1) [OF c]] civil_of_days [of a' b' c'] days_of_civil(2) [OF c]
    by (simp add: c n)
  moreover have "civil_from_days 0 = (1970, 1, 1)"
    using civil_of_days [of 1970 1 1] by (simp add: valid_date_def month_length_def days_from_civil_def Let_def)
  ultimately show ?thesis using days_of_civil [of n y m d] civil_of_days [of y m d] by blast
qed

end
