(* ===== verification/Signed_Arith.thy ===== *)
theory Signed_Arith
  imports Prelude
begin

text \<open>
  Rust's signed arithmetic on \<^verbatim>\<open>i32\<close> and \<^verbatim>\<open>i64\<close> over the integers: the ranges, the saturating, checked
  and wrapping results, and division that rounds toward zero with the remainder that goes with it.
\<close>

definition in_i32 :: "int \<Rightarrow> bool" where
  "in_i32 x \<longleftrightarrow> - (2 ^ 31) \<le> x \<and> x < 2 ^ 31"

definition in_i64 :: "int \<Rightarrow> bool" where
  "in_i64 x \<longleftrightarrow> - (2 ^ 63) \<le> x \<and> x < 2 ^ 63"

definition sat_i64 :: "int \<Rightarrow> int" where
  "sat_i64 x = max (- (2 ^ 63)) (min x (2 ^ 63 - 1))"

definition checked_i64 :: "int \<Rightarrow> int option" where
  "checked_i64 x = (if in_i64 x then Some x else None)"

definition wrap_i32 :: "int \<Rightarrow> int" where
  "wrap_i32 x = (x + 2 ^ 31) mod 2 ^ 32 - 2 ^ 31"

definition wrap_i64 :: "int \<Rightarrow> int" where
  "wrap_i64 x = (x + 2 ^ 63) mod 2 ^ 64 - 2 ^ 63"

text \<open>The operators \<^verbatim>\<open>/\<close> and \<^verbatim>\<open>%\<close>.\<close>

definition quot :: "int \<Rightarrow> int \<Rightarrow> int" where
  "quot a b = sgn a * sgn b * (\<bar>a\<bar> div \<bar>b\<bar>)"

definition rmd :: "int \<Rightarrow> int \<Rightarrow> int" where
  "rmd a b = a - quot a b * b"

lemma wrap_i32_id: "in_i32 x \<Longrightarrow> wrap_i32 x = x"
  by (simp add: in_i32_def wrap_i32_def)

lemma wrap_i64_id: "in_i64 x \<Longrightarrow> wrap_i64 x = x"
  by (simp add: in_i64_def wrap_i64_def)

lemma wrap_i32_range: "in_i32 (wrap_i32 x)"
  using pos_mod_bound [of "2 ^ 32" "x + 2 ^ 31"] pos_mod_sign [of "2 ^ 32" "x + 2 ^ 31"]
  by (simp add: in_i32_def wrap_i32_def)

lemma wrap_i64_range: "in_i64 (wrap_i64 x)"
  using pos_mod_bound [of "2 ^ 64" "x + 2 ^ 63"] pos_mod_sign [of "2 ^ 64" "x + 2 ^ 63"]
  by (simp add: in_i64_def wrap_i64_def)

lemma sat_i64_id: "in_i64 x \<Longrightarrow> sat_i64 x = x"
  by (simp add: in_i64_def sat_i64_def)

lemma quot_nonneg: "0 \<le> a \<Longrightarrow> 0 < b \<Longrightarrow> quot a b = a div b"
  by (cases "a = 0") (simp_all add: quot_def)

lemma quot_neg: "a < 0 \<Longrightarrow> 0 < b \<Longrightarrow> quot a b = - (- a div b)"
  by (simp add: quot_def)

lemma rmd_nonneg: "0 \<le> a \<Longrightarrow> 0 < b \<Longrightarrow> rmd a b = a mod b"
  by (simp add: rmd_def quot_nonneg minus_div_mult_eq_mod)

lemma rmd_neg: "a < 0 \<Longrightarrow> 0 < b \<Longrightarrow> rmd a b = - (- a mod b)"
  by (simp add: rmd_def quot_neg minus_div_mult_eq_mod [symmetric])

text \<open>Rounding toward zero, corrected when the remainder is negative, is rounding down.\<close>

lemma quot_floor:
  assumes "0 < b"
  shows "quot a b - (if rmd a b < 0 then 1 else 0) = a div b"
    and "rmd a b + (if rmd a b < 0 then b else 0) = a mod b"
proof -
  have "rmd a b + (if rmd a b < 0 then b else 0) = a mod b \<and>
    quot a b - (if rmd a b < 0 then 1 else 0) = a div b"
  proof (cases "0 \<le> a")
    case True
    then show ?thesis using assms by (simp add: quot_nonneg rmd_nonneg not_less)
  next
    case False
    then have a: "a < 0" by simp
    have m: "0 \<le> - a mod b" "- a mod b < b" using assms by simp_all
    show ?thesis
    proof (cases "- a mod b = 0")
      case True
      then have "b dvd a" by (metis dvd_minus_iff mod_0_imp_dvd)
      then show ?thesis using a assms True by (auto simp: quot_neg rmd_neg dvd_eq_mod_eq_0 zdiv_zminus1_eq_if)
    next
      case False
      then show ?thesis using a assms m
        by (simp add: quot_neg rmd_neg zdiv_zminus1_eq_if zmod_zminus1_eq_if split: if_splits)
    qed
  qed
  then show "quot a b - (if rmd a b < 0 then 1 else 0) = a div b"
    and "rmd a b + (if rmd a b < 0 then b else 0) = a mod b" by blast+
qed

end
