(* ===== verification/Tz_Rule.thy ===== *)
theory Tz_Rule
  imports Civil_Date Signed_Arith
begin

text \<open>
  The zones of the local-time code (\<^verbatim>\<open>crates/snare-interpose/src/os/tz.rs\<close>): the rules of POSIX TZ strings,
  the local time type in effect at a time, the names tzset(3) and conversions leave, and the breaking down
  of a time. Fields of \<^verbatim>\<open>i32\<close>, \<^verbatim>\<open>u16\<close> and \<^verbatim>\<open>u8\<close> are integers with the source's saturation and checks written
  out; an index out of range, where the code panics, is \<open>None\<close>. Abbreviations are strings.
\<close>

section \<open>Data\<close>

record local_type =
  utoff :: int
  isdst :: bool
  abbr :: string

datatype day = Julian int | Ordinal int | Month int int int

type_synonym change_at = "day \<times> int"

record rule =
  std :: local_type
  dst :: "(local_type \<times> change_at \<times> change_at) option"

datatype quirk = NoQuirk | Untyped | Unparsed

record zone =
  transitions :: "int list"
  indices :: "nat list"
  types :: "local_type list"
  zrule :: "rule option"
  posix :: bool
  zquirk :: quirk

definition from_rule :: "rule \<Rightarrow> zone" where
  "from_rule r = \<lparr>transitions = [], indices = [], types = [std r], zrule = Some r, posix = True, zquirk = NoQuirk\<rparr>"

section \<open>The changes of a rule\<close>

text \<open>The loop of \<^verbatim>\<open>day_of\<close> that brings the fifth week back into the month.\<close>

function back_into :: "int \<Rightarrow> int \<Rightarrow> int" where
  "back_into day len = (if day \<ge> len then back_into (day - 7) len else day)"
  by auto
termination
  by (relation "measure (\<lambda>(day, len). nat (day - len + 1))") auto

declare back_into.simps [simp del]

fun day_of :: "int \<Rightarrow> day \<Rightarrow> int" where
  "day_of year (Julian n) =
     (let n = n - 1 in days_from_civil year 1 1 + n + (if is_leap year \<and> n \<ge> 59 then 1 else 0))"
| "day_of year (Ordinal n) = days_from_civil year 1 1 + n"
| "day_of year (Month month week weekday) =
     (let first = days_from_civil year month 1;
          first_weekday = (first + 4) mod 7;
          day = (weekday - first_weekday) mod 7 + 7 * (week - 1)
      in first + back_into day (month_length year month))"

definition change :: "target_os \<Rightarrow> int \<Rightarrow> change_at \<Rightarrow> int \<Rightarrow> int" where
  "change os year ch off =
     (let jan1 = days_from_civil year 1 1;
          base = (if os = Linux \<and> year \<le> 1970 then 0 else jan1)
      in sat_i64 (sat_i64 ((base + day_of year (fst ch) - jan1) * 86400) + (snd ch - off)))"

definition rule_at :: "target_os \<Rightarrow> rule \<Rightarrow> int \<Rightarrow> local_type" where
  "rule_at os r t =
     (case dst r of
        None \<Rightarrow> std r
      | Some (d, start, finish) \<Rightarrow>
          (let year = fst (civil_from_days (t div 86400));
               start = change os year start (utoff (std r));
               finish = change os year finish (utoff d);
               in_dst = (if start < finish then start \<le> t \<and> t < finish else \<not> (finish \<le> t \<and> t < start))
           in if in_dst then d else std r))"

definition first_change :: "target_os \<Rightarrow> rule \<Rightarrow> int option" where
  "first_change os r =
     (case dst r of
        None \<Rightarrow> None
      | Some (d, start, finish) \<Rightarrow>
          Some (min (change os 1970 start (utoff (std r))) (change os 1970 finish (utoff d))))"

section \<open>The type in effect\<close>

text \<open>Indexing a vector, \<open>None\<close> where the code panics, and \<^verbatim>\<open>partition_point\<close> of a sorted vector.\<close>

definition at_index :: "'a list \<Rightarrow> nat \<Rightarrow> 'a option" where
  "at_index xs i = (if i < length xs then Some (xs ! i) else None)"

definition partition_point :: "('a \<Rightarrow> bool) \<Rightarrow> 'a list \<Rightarrow> nat" where
  "partition_point P xs = length (takeWhile P xs)"

definition type_of :: "zone \<Rightarrow> nat \<Rightarrow> local_type option" where
  "type_of z i = Option.bind (at_index (indices z) i) (at_index (types z))"

definition zone_at :: "target_os \<Rightarrow> zone \<Rightarrow> int \<Rightarrow> local_type option" where
  "zone_at os z t =
     (let after = partition_point (\<lambda>x. x \<le> t) (transitions z);
          early = (os = MacOS \<and> transitions z = [] \<and>
            (case zrule z of None \<Rightarrow> False
             | Some r \<Rightarrow> (case first_change os r of None \<Rightarrow> False | Some first \<Rightarrow> t < first)))
      in case zrule z of
           Some r \<Rightarrow>
             (if early then Some (std r)
              else if after = length (transitions z) then Some (rule_at os r t)
              else if after = 0 then at_index (types z) 0 else type_of z (after - 1))
         | None \<Rightarrow> if after = 0 then at_index (types z) 0 else type_of z (after - 1))"

definition standard :: "zone \<Rightarrow> local_type option" where
  "standard z = (case zrule z of None \<Rightarrow> at_index (types z) 0 | Some r \<Rightarrow> Some (std r))"

definition push_new :: "local_type list \<Rightarrow> local_type \<Rightarrow> local_type list" where
  "push_new out ty = (if ty \<in> set out then out else out @ [ty])"

definition rule_types :: "rule \<Rightarrow> local_type list" where
  "rule_types r = (case dst r of None \<Rightarrow> [] | Some d \<Rightarrow> [fst d]) @ [std r]"

definition recent_types :: "zone \<Rightarrow> local_type list option" where
  "recent_types z =
     map_option
       (\<lambda>tys. foldl push_new [] ((case zrule z of None \<Rightarrow> [] | Some r \<Rightarrow> rule_types r) @ tys))
       (those (map (at_index (types z)) (rev (indices z))))"

section \<open>The day of a rule\<close>

lemma back_into_spec:
  assumes "len - 7 \<le> day \<or> 0 \<le> day" "28 \<le> len"
  shows "back_into day len < len \<and> (7::int) dvd day - back_into day len \<and>
    (if day < len then back_into day len = day else len - 7 \<le> back_into day len)"
  using assms
proof (induction day len rule: back_into.induct)
  case (1 day len)
  show ?case
  proof (cases "day \<ge> len")
    case True
    then have r: "back_into day len = back_into (day - 7) len" by (simp add: back_into.simps)
    have "back_into (day - 7) len < len \<and> 7 dvd (day - 7) - back_into (day - 7) len \<and>
      (if day - 7 < len then back_into (day - 7) len = day - 7 else len - 7 \<le> back_into (day - 7) len)"
      using 1 True by simp
    moreover have "7 dvd day - 7 - b \<longleftrightarrow> 7 dvd day - b" for b by presburger
    ultimately show ?thesis using True unfolding r by (auto split: if_splits)
  qed (simp add: back_into.simps)
qed

text \<open>
  C30: The day of a rule \<^verbatim>\<open>Mm.w.d\<close> is in month m of the year, falls on weekday d, and is the w-th such day of the
  month, or the last for week 5. The day of a rule \<^verbatim>\<open>Jn\<close> is the same date in every year, that of day n of 1970:
  February 29 is never counted.
\<close>

theorem rule_day_exact:
  assumes "1 \<le> month" "month \<le> 12" "1 \<le> week" "week \<le> 5" "0 \<le> weekday" "weekday \<le> 6" "1 \<le> n" "n \<le> 365"
  shows "(\<exists>d. civil_from_days (day_of y (Month month week weekday)) = (y, month, d) \<and>
      (day_of y (Month month week weekday) + 4) mod 7 = weekday \<and>
      (if week \<le> 4 then 7 * (week - 1) < d \<and> d \<le> 7 * week else month_length y month - 7 < d)) \<and>
    (\<exists>m d. civil_from_days (n - 1) = (1970, m, d) \<and> civil_from_days (day_of y (Julian n)) = (y, m, d))"
proof
  define f where "f = days_from_civil y month 1"
  define k where "k = (weekday - (f + 4) mod 7) mod 7 + 7 * (week - 1)"
  define len where "len = month_length y month"
  define b where "b = back_into k len"
  have len: "28 \<le> len" "len \<le> 31" unfolding len_def by (rule month_length_ge)+
  have k: "7 * (week - 1) \<le> k" "k < 7 * week"
    using pos_mod_sign [of 7] pos_mod_bound [of 7 "weekday - (f + 4) mod 7"] unfolding k_def by simp_all
  have b: "b < len" "7 dvd k - b" "if k < len then b = k else len - 7 \<le> b"
    using back_into_spec [of len k] k len assms(3) unfolding b_def by auto
  have day: "day_of y (Month month week weekday) = f + b"
    by (simp add: f_def b_def k_def len_def Let_def)
  have "valid_date y month (1 + b)"
    using b k len assms unfolding valid_date_def len_def [symmetric] by (auto split: if_splits)
  then have "civil_from_days (f + b) = (y, month, 1 + b)"
    using civil_of_days [of y month "1 + b"] by (simp add: f_def days_from_civil_day)
  moreover have "(f + b + 4) mod 7 = weekday"
  proof -
    have "(f + b + 4) mod 7 = (f + k + 4) mod 7"
      using b(2) by (metis (no_types, lifting) mod_eq_dvd_iff add_diff_cancel_right add_diff_cancel_left dvd_minus_iff minus_diff_eq)
    also have "f + k + 4 = weekday + 7 * ((f + 4) div 7 - (weekday - (f + 4) mod 7) div 7 + (week - 1))"
      unfolding k_def by (simp add: minus_mult_div_eq_mod [symmetric] algebra_simps)
    also have "\<dots> mod 7 = weekday" using assms(5,6) by (subst mod_mult_self2) simp
    finally show ?thesis .
  qed
  moreover have "if week \<le> 4 then 7 * (week - 1) < 1 + b \<and> 1 + b \<le> 7 * week else len - 7 < 1 + b"
    using b k len assms(4) by (auto split: if_splits)
  ultimately show "\<exists>d. civil_from_days (day_of y (Month month week weekday)) = (y, month, d) \<and>
      (day_of y (Month month week weekday) + 4) mod 7 = weekday \<and>
      (if week \<le> 4 then 7 * (week - 1) < d \<and> d \<le> 7 * week else month_length y month - 7 < d)"
    unfolding day len_def by blast
  show "\<exists>m d. civil_from_days (n - 1) = (1970, m, d) \<and> civil_from_days (day_of y (Julian n)) = (y, m, d)"
    using julian_date [of "n - 1" y] assms(7,8) by simp
qed

theorem rule_day_exact_witness:
  "(\<exists>d. civil_from_days (day_of 2023 (Month 3 2 0)) = (2023, 3, d) \<and> 7 < d \<and> d \<le> 14) \<and>
   (\<exists>m d. civil_from_days 59 = (1970, m, d) \<and> civil_from_days (day_of 2024 (Julian 60)) = (2024, m, d))"
  using rule_day_exact [of 3 2 0 60 2023] rule_day_exact [of 3 2 0 60 2024] by auto

section \<open>Finding the type\<close>

text \<open>What a zone needs for its indices and offsets to be in range.\<close>

definition zone_types :: "zone \<Rightarrow> local_type list" where
  "zone_types z = types z @ (case zrule z of None \<Rightarrow> [] | Some r \<Rightarrow> rule_types r)"

definition zone_wf :: "zone \<Rightarrow> bool" where
  "zone_wf z \<longleftrightarrow> types z \<noteq> [] \<and> length (indices z) = length (transitions z) \<and>
     (\<forall>i \<in> set (indices z). i < length (types z)) \<and> (\<forall>ty \<in> set (zone_types z). in_i32 (utoff ty))"

lemma from_rule_wf [wf_intros]: "\<forall>ty \<in> set (rule_types r). in_i32 (utoff ty) \<Longrightarrow> zone_wf (from_rule r)"
  by (auto simp: zone_wf_def from_rule_def zone_types_def rule_types_def)

lemma rule_at_types: "rule_at os r t \<in> set (rule_types r)"
  by (auto simp: rule_at_def rule_types_def Let_def split: option.splits)

lemma partition_point_le: "partition_point P xs \<le> length xs"
  by (simp add: partition_point_def length_takeWhile_le)

lemma type_of_total: "zone_wf z \<Longrightarrow> i < length (transitions z) \<Longrightarrow> type_of z i = Some (types z ! (indices z ! i))"
  by (simp add: type_of_def at_index_def zone_wf_def)

lemma zone_at_total:
  assumes "zone_wf z"
  obtains ty where "zone_at os z t = Some ty"
proof -
  have "types z \<noteq> []" using assms by (simp add: zone_wf_def)
  then have "zone_at os z t \<noteq> None"
    using partition_point_le [of "\<lambda>x. x \<le> t" "transitions z"] type_of_total [OF assms]
    by (auto simp: zone_at_def Let_def at_index_def split: option.splits if_splits)
  then show thesis using that by auto
qed

lemma zone_at_types:
  assumes "zone_at os z t = Some ty"
  shows "ty \<in> set (zone_types z)"
proof -
  have "at_index (types z) i = Some ty \<Longrightarrow> ty \<in> set (zone_types z)" for i
    by (auto simp: at_index_def zone_types_def split: if_splits)
  moreover have "type_of z i = Some ty \<Longrightarrow> ty \<in> set (zone_types z)" for i
    by (auto simp: type_of_def at_index_def zone_types_def split: if_splits bind_splits)
  ultimately show ?thesis
    using assms rule_at_types
    by (auto simp: zone_at_def Let_def zone_types_def rule_types_def split: option.splits if_splits)
qed

lemma partition_point_eq:
  assumes "sorted xs" "n \<le> length xs" "\<And>i. i < n \<Longrightarrow> xs ! i \<le> t" "n < length xs \<Longrightarrow> t < xs ! n"
  shows "partition_point (\<lambda>x. x \<le> t) xs = n"
proof -
  have "takeWhile (\<lambda>x. x \<le> t) xs = take n xs"
    using assms(2-4) by (intro takeWhile_eq_take_P_nth) auto
  then show ?thesis using assms(2) by (simp add: partition_point_def)
qed

lemma zone_at_point:
  assumes "transitions z \<noteq> []"
  shows "zone_at os z t =
    (let p = partition_point (\<lambda>x. x \<le> t) (transitions z); rest = (if p = 0 then at_index (types z) 0 else type_of z (p - 1))
     in case zrule z of Some r \<Rightarrow> if p = length (transitions z) then Some (rule_at os r t) else rest | None \<Rightarrow> rest)"
  using assms by (simp add: zone_at_def Let_def split: option.split)

lemma point_first: "xs \<noteq> [] \<Longrightarrow> partition_point (\<lambda>x. x \<le> t) xs = 0 \<longleftrightarrow> t < xs ! 0"
  for t :: "'a :: linorder"
  by (cases xs) (auto simp: partition_point_def)

lemma point_last:
  fixes t :: "'a :: linorder"
  assumes "sorted xs" "xs \<noteq> []"
  shows "partition_point (\<lambda>x. x \<le> t) xs = length xs \<longleftrightarrow> last xs \<le> t"
proof
  assume "partition_point (\<lambda>x. x \<le> t) xs = length xs"
  then have "takeWhile (\<lambda>x. x \<le> t) xs = xs"
    using takeWhile_eq_take [of "\<lambda>x. x \<le> t" xs] by (simp add: partition_point_def)
  then show "last xs \<le> t" using assms(2) by (simp add: takeWhile_eq_all_conv)
next
  assume l: "last xs \<le> t"
  have "x \<le> t" if mem: "x \<in> set xs" for x
  proof -
    obtain i where i: "i < length xs" "xs ! i = x" using mem by (auto simp: in_set_conv_nth)
    then have "x \<le> last xs" using sorted_nth_mono [OF assms(1), of i "length xs - 1"] assms(2) by (simp add: last_conv_nth)
    then show ?thesis using l by simp
  qed
  then have "takeWhile (\<lambda>x. x \<le> t) xs = xs" by (simp add: takeWhile_eq_all_conv)
  then show "partition_point (\<lambda>x. x \<le> t) xs = length xs" unfolding partition_point_def by (rule arg_cong)
qed

text \<open>
  C31: The type in effect at a time, in a zone with transitions in order: between two transitions that of the
  first of them, before the first transition the first type of the file, and from the last one on the type its
  rule gives, or without a rule that of the last transition. No index is out of range.
\<close>

theorem zone_at_exact:
  assumes "zone_wf z" "sorted (transitions z)" "transitions z \<noteq> []"
  shows "(t < transitions z ! 0 \<longrightarrow> zone_at os z t = Some (types z ! 0)) \<and>
    (last (transitions z) \<le> t \<longrightarrow> zone_at os z t =
       Some (case zrule z of Some r \<Rightarrow> rule_at os r t | None \<Rightarrow> types z ! last (indices z))) \<and>
    (\<forall>i. Suc i < length (transitions z) \<longrightarrow> transitions z ! i \<le> t \<longrightarrow> t < transitions z ! Suc i \<longrightarrow>
       zone_at os z t = Some (types z ! (indices z ! i)))"
proof -
  let ?p = "partition_point (\<lambda>x. x \<le> t) (transitions z)" and ?n = "length (transitions z)"
  have wf: "types z \<noteq> []" "length (indices z) = ?n" using assms(1) by (simp_all add: zone_wf_def)
  then have ne: "indices z \<noteq> []" using assms(3) by auto
  note at = zone_at_point [OF assms(3), of os t, unfolded Let_def]
  have "?p = Suc i" if "Suc i < ?n" "transitions z ! i \<le> t" "t < transitions z ! Suc i" for i
    using that assms(2) sorted_nth_mono [OF assms(2), of _ i]
    by (intro partition_point_eq) (fastforce simp: less_Suc_eq_le)+
  then have "zone_at os z t = Some (types z ! (indices z ! i))"
    if "Suc i < ?n" "transitions z ! i \<le> t" "t < transitions z ! Suc i" for i
    using that type_of_total [OF assms(1), of i] unfolding at by (simp split: option.split)
  moreover have "zone_at os z t = Some (case zrule z of Some r \<Rightarrow> rule_at os r t | None \<Rightarrow> types z ! last (indices z))"
    if "last (transitions z) \<le> t"
    using point_last [OF assms(2,3), of t] that assms(3) last_conv_nth [OF ne] wf(2) type_of_total [OF assms(1), of "?n - 1"]
    unfolding at by (simp split: option.split)
  moreover have "zone_at os z t = Some (types z ! 0)" if "t < transitions z ! 0"
    using point_first [OF assms(3), of t] that assms(3) wf(1) unfolding at by (simp add: at_index_def split: option.split)
  ultimately show ?thesis by blast
qed

definition demo_zone :: zone where
  "demo_zone =
     \<lparr>transitions = [0, 100], indices = [1, 0],
      types = [\<lparr>utoff = 3600, isdst = False, abbr = ''CET''\<rparr>, \<lparr>utoff = 7200, isdst = True, abbr = ''CEST''\<rparr>],
      zrule = None, posix = False, zquirk = NoQuirk\<rparr>"

theorem zone_at_exact_witness:
  "zone_at Linux demo_zone (-1) = Some \<lparr>utoff = 3600, isdst = False, abbr = ''CET''\<rparr> \<and>
   zone_at Linux demo_zone 50 = Some \<lparr>utoff = 7200, isdst = True, abbr = ''CEST''\<rparr> \<and>
   zone_at Linux demo_zone 100 = Some \<lparr>utoff = 3600, isdst = False, abbr = ''CET''\<rparr>"
  using zone_at_exact [of demo_zone "-1" Linux] zone_at_exact [of demo_zone 100 Linux]
    zone_at_exact [of demo_zone 50 Linux, THEN conjunct2, THEN conjunct2, THEN spec, of 0]
  by (simp add: demo_zone_def zone_wf_def zone_types_def in_i32_def)

end
