(* ===== verification/Local_Time.thy ===== *)
theory Local_Time
  imports Tz_Rule
begin

text \<open>
  Breaking a time down into local time (\<^verbatim>\<open>break_down\<close> of \<^verbatim>\<open>crates/snare-interpose/src/os/tz.rs\<close> and \<^verbatim>\<open>convert\<close> of
  \<^verbatim>\<open>tz_mktime.rs\<close>), and the names a sim's \<^verbatim>\<open>tzname\<close> holds: those tzset(3) leaves and those a conversion
  leaves. The outer option is a panic, the inner one the failure of localtime_r(3). The table of interned
  abbreviations only gives equal strings equal addresses, so an abbreviation is its string.
\<close>

section \<open>Broken-down time\<close>

record tm =
  tm_sec :: int
  tm_min :: int
  tm_hour :: int
  tm_mday :: int
  tm_mon :: int
  tm_year :: int
  tm_wday :: int
  tm_yday :: int
  tm_isdst :: int
  tm_gmtoff :: int
  tm_zone :: "string option"

definition broken :: "int \<Rightarrow> local_type \<Rightarrow> tm" where
  "broken local ty =
     (let days = local div 86400;
          secs = local mod 86400;
          (year, month, day) = civil_from_days days
      in \<lparr>tm_sec = secs mod 60, tm_min = secs div 60 mod 60, tm_hour = secs div 3600,
          tm_mday = day, tm_mon = month - 1, tm_year = year - 1900,
          tm_wday = (days + 4) mod 7, tm_yday = days - days_from_civil year 1 1,
          tm_isdst = (if isdst ty then 1 else 0), tm_gmtoff = utoff ty, tm_zone = Some (abbr ty)\<rparr>)"

definition break_down :: "target_os \<Rightarrow> zone \<Rightarrow> int \<Rightarrow> tm option option" where
  "break_down os z t =
     (if 2 ^ 56 \<le> \<bar>t\<bar> then Some None
      else case zone_at os z t of
        None \<Rightarrow> None
      | Some ty \<Rightarrow>
          (case checked_i64 (t + utoff ty) of
             None \<Rightarrow> Some None
           | Some local \<Rightarrow>
               if in_i32 (fst (civil_from_days (local div 86400)) - 1900) then Some (Some (broken local ty))
               else Some None))"

text \<open>The seconds from 1970-01-01 00:00:00 to the date and time of day of a broken-down time.\<close>

definition wall :: "tm \<Rightarrow> int" where
  "wall x = days_from_civil (tm_year x + 1900) (tm_mon x + 1) (tm_mday x) * 86400 +
     tm_hour x * 3600 + tm_min x * 60 + tm_sec x"

definition normal :: "tm \<Rightarrow> bool" where
  "normal x \<longleftrightarrow> valid_date (tm_year x + 1900) (tm_mon x + 1) (tm_mday x) \<and> 0 \<le> tm_hour x \<and> tm_hour x < 24 \<and>
     0 \<le> tm_min x \<and> tm_min x < 60 \<and> 0 \<le> tm_sec x \<and> tm_sec x < 60 \<and>
     tm_yday x = days_from_civil (tm_year x + 1900) (tm_mon x + 1) (tm_mday x) - days_from_civil (tm_year x + 1900) 1 1 \<and>
     tm_wday x = (days_from_civil (tm_year x + 1900) (tm_mon x + 1) (tm_mday x) + 4) mod 7"

lemma day_seconds:
  fixes s :: int
  assumes "0 \<le> s" "s < 86400"
  shows "s div 3600 * 3600 + s div 60 mod 60 * 60 + s mod 60 = s" "0 \<le> s div 3600" "s div 3600 < 24"
proof -
  have "s div 60 div 60 = s div 3600" by (simp add: div_mult2_eq [symmetric])
  then have "s div 3600 * 60 + s div 60 mod 60 = s div 60"
    using div_mult_mod_eq [of "s div 60" 60] by simp
  then have "(s div 3600 * 60 + s div 60 mod 60) * 60 + s mod 60 = s" using div_mult_mod_eq [of s 60] by simp
  then show "s div 3600 * 3600 + s div 60 mod 60 * 60 + s mod 60 = s" by (simp add: algebra_simps)
  show "0 \<le> s div 3600" "s div 3600 < 24" using assms by (simp_all add: div_less_iff_less_mult)
qed

lemma broken_normal: "normal (broken local ty)" "wall (broken local ty) = local"
proof -
  obtain y m d where c: "civil_from_days (local div 86400) = (y, m, d)" by (cases "civil_from_days (local div 86400)") auto
  note v = days_of_civil [OF c]
  have s: "0 \<le> local mod 86400" "local mod 86400 < 86400" by simp_all
  show "normal (broken local ty)"
    using v day_seconds [OF s] by (simp add: normal_def broken_def c Let_def)
  have "wall (broken local ty) = local div 86400 * 86400 + (local mod 86400 div 3600 * 3600 +
      local mod 86400 div 60 mod 60 * 60 + local mod 86400 mod 60)"
    unfolding wall_def broken_def Let_def c by (simp add: v(2))
  then show "wall (broken local ty) = local" unfolding day_seconds(1) [OF s] by simp
qed

text \<open>A year that fits \<^verbatim>\<open>tm_year\<close> lies within \<open>2 ^ 56\<close> seconds of the epoch.\<close>

lemma year_span:
  assumes "in_i32 (fst (civil_from_days ((t + off) div 86400)) - 1900)" "in_i32 off"
  shows "\<bar>t\<bar> < 2 ^ 56"
proof -
  define k where "k = (t + off) div 86400"
  obtain y m d where c: "civil_from_days k = (y, m, d)" by (cases "civil_from_days k") auto
  have k: "days_from_civil y 1 1 \<le> k" "k < days_from_civil (y + 1) 1 1"
    using year_bounds [OF days_of_civil(1) [OF c]] days_of_civil(2) [OF c] by simp_all
  have y: "- 2147483648 \<le> y - 1900" "y - 1900 < 2147483648"
    using assms(1) c by (simp_all add: in_i32_def k_def)
  have epoch: "days_from_civil 1970 1 1 = 0" by (simp add: month_starts)
  have hi: "k < 366 * 2147483648"
  proof (cases "1970 \<le> y + 1")
    case True
    then show ?thesis using jan1_le [of 1970 "y + 1"] epoch k(2) y by simp
  next
    case False
    then show ?thesis using jan1_mono [of "y + 1" 1970] epoch k(2) by simp
  qed
  have lo: "- (366 * 2147483718) \<le> k"
  proof (cases "1970 \<le> y")
    case True
    then show ?thesis using jan1_mono [of 1970 y] epoch k(1) by simp
  next
    case False
    then show ?thesis using jan1_le [of y 1970] epoch k(1) y by simp
  qed
  have "k * 86400 \<le> t + off" "t + off < (k + 1) * 86400"
    unfolding k_def using div_mult_mod_eq [of "t + off" 86400] pos_mod_sign [of 86400 "t + off"]
      pos_mod_bound [of 86400 "t + off"] by (simp_all add: algebra_simps del: div_mult_mod_eq)
  then show ?thesis using hi lo assms(2) unfolding in_i32_def by (auto simp: abs_less_iff)
qed

lemma break_down_eq:
  assumes "zone_wf z" "zone_at os z t = Some ty"
  shows "break_down os z t =
    Some (if in_i32 (fst (civil_from_days ((t + utoff ty) div 86400)) - 1900) then Some (broken (t + utoff ty) ty) else None)"
proof -
  have off: "in_i32 (utoff ty)" using zone_at_types [OF assms(2)] assms(1) by (simp add: zone_wf_def)
  define local where "local = t + utoff ty"
  let ?fits = "in_i32 (fst (civil_from_days (local div 86400)) - 1900)"
  have small: "\<bar>t\<bar> < 2 ^ 56" if ?fits using year_span [OF _ off] that by (simp add: local_def)
  have "in_i64 local" if "\<bar>t\<bar> < 2 ^ 56" using that off unfolding local_def in_i32_def in_i64_def by (auto simp: abs_less_iff)
  then show ?thesis using small assms(2) by (auto simp: break_down_def checked_i64_def local_def)
qed

lemma broken_fields:
  "tm_isdst (broken local ty) = (if isdst ty then 1 else 0)" "tm_gmtoff (broken local ty) = utoff ty"
  "tm_zone (broken local ty) = Some (abbr ty)" "tm_year (broken local ty) = fst (civil_from_days (local div 86400)) - 1900"
  by (simp_all add: broken_def Let_def split: prod.split)

text \<open>
  C27: A time breaks down to the local date and time of day its zone's offset gives, normalized, with the right
  weekday and day of the year and the type in effect; it fails only when the year does not fit \<^verbatim>\<open>tm_year\<close>,
  so the bound of \<open>2 ^ 56\<close> seconds the code checks first refuses no time it could convert, and it never panics.
\<close>

theorem break_down_exact:
  assumes "zone_wf z"
  shows "\<exists>ty. zone_at os z t = Some ty \<and>
    (if in_i32 (fst (civil_from_days ((t + utoff ty) div 86400)) - 1900)
     then \<exists>x. break_down os z t = Some (Some x) \<and> normal x \<and> wall x = t + utoff ty \<and>
       tm_isdst x = (if isdst ty then 1 else 0) \<and> tm_gmtoff x = utoff ty \<and> tm_zone x = Some (abbr ty) \<and> in_i32 (tm_year x)
     else break_down os z t = Some None)"
proof -
  obtain ty where ty: "zone_at os z t = Some ty" using zone_at_total [OF assms] .
  show ?thesis
    using ty break_down_eq [OF assms ty] broken_normal [of "t + utoff ty" ty] broken_fields [of "t + utoff ty" ty]
    by (intro exI [of _ ty]) simp
qed

theorem break_down_exact_witness:
  "\<exists>x. break_down Linux demo_zone 50 = Some (Some x) \<and> normal x \<and> wall x = 7250 \<and> tm_isdst x = 1"
proof -
  have z: "zone_wf demo_zone" by (simp add: demo_zone_def zone_wf_def zone_types_def in_i32_def)
  have at: "zone_at Linux demo_zone 50 = Some \<lparr>utoff = 7200, isdst = True, abbr = ''CEST''\<rparr>"
    by (simp add: demo_zone_def zone_at_def Let_def partition_point_def type_of_def at_index_def)
  have "civil_from_days 0 = (1970, 1, 1)" using civil_of_days [of 1970 1 1] by (simp add: month_starts valid_date_def month_length_def)
  then show ?thesis using break_down_exact [OF z, of Linux 50] by (auto simp: at in_i32_def)
qed

end
