(* ===== verification/Tz_Names.thy ===== *)
theory Tz_Names
  imports Local_Time
begin

text \<open>
  The names of a sim's \<^verbatim>\<open>tzname\<close> (\<^verbatim>\<open>crates/snare-interpose/src/os/tz.rs\<close>): the types tzset(3) leaves, the state
  a sim keeps for the zone it last used, and how a conversion moves it. The state of the calling sim is an
  argument, \<open>None\<close> off a sim; \<open>None\<close> as a result is a panic.
\<close>

section \<open>The types tzset leaves\<close>

type_synonym name_types = "local_type option \<times> local_type option"

definition slot_of :: "'a \<times> 'a \<Rightarrow> bool \<Rightarrow> 'a" where
  "slot_of ns d = (if d then snd ns else fst ns)"

definition put_slot :: "'a \<times> 'a \<Rightarrow> bool \<Rightarrow> 'a \<Rightarrow> 'a \<times> 'a" where
  "put_slot ns d v = (if d then (fst ns, v) else (v, snd ns))"

definition get_or_insert :: "name_types \<Rightarrow> local_type \<Rightarrow> name_types" where
  "get_or_insert ns ty = (if slot_of ns (isdst ty) = None then put_slot ns (isdst ty) (Some ty) else ns)"

definition both_named :: "name_types \<Rightarrow> bool" where
  "both_named ns \<longleftrightarrow> fst ns \<noteq> None \<and> snd ns \<noteq> None"

text \<open>The scan of \<^verbatim>\<open>tzset_types\<close> over the transitions' indices, from the last back.\<close>

fun scan_types :: "local_type list \<Rightarrow> nat list \<Rightarrow> name_types \<Rightarrow> name_types option" where
  "scan_types tys [] ns = Some ns"
| "scan_types tys (i # is) ns =
     (case at_index tys i of
        None \<Rightarrow> None
      | Some ty \<Rightarrow>
          (let ns = get_or_insert ns ty in if both_named ns then Some ns else scan_types tys is ns))"

definition or_else :: "'a option \<Rightarrow> 'a \<Rightarrow> 'a" where
  "or_else x y = (case x of None \<Rightarrow> y | Some v \<Rightarrow> v)"

definition tzset_types :: "target_os \<Rightarrow> zone \<Rightarrow> (local_type \<times> local_type) option" where
  "tzset_types os z =
     (case scan_types (types z) (rev (indices z)) (None, None) of
        None \<Rightarrow> None
      | Some ns \<Rightarrow>
          (let (s, d) =
             (case zrule z of
                Some r \<Rightarrow> if transitions z = [] then (Some (std r), map_option fst (dst r)) else ns
              | None \<Rightarrow> ns)
           in case at_index (types z) 0 of
                None \<Rightarrow> None
              | Some type0 \<Rightarrow>
                  (case (case indices z of [] \<Rightarrow> Some type0 | i # _ \<Rightarrow> at_index (types z) i) of
                     None \<Rightarrow> None
                   | Some first \<Rightarrow>
                       if os = MacOS
                       then (let wild = first\<lparr>abbr := ''   ''\<rparr>
                             in if zquirk z = Untyped then Some (wild, wild)
                                else Some (or_else s wild, or_else d wild))
                       else (let s = or_else s type0
                             in if zquirk z = Unparsed then Some (s, s\<lparr>abbr := ''''\<rparr>)
                                else Some (s, or_else d s)))))"

section \<open>The types around a time\<close>

text \<open>The names before the first transition.\<close>

definition early_names :: "zone \<Rightarrow> name_types option" where
  "early_names z =
     (let k = length (takeWhile isdst (types z));
          i = (if k = length (types z) then 0 else k)
      in case at_index (types z) i of
           None \<Rightarrow> None
         | Some ty \<Rightarrow>
             Some (Some ty, if 0 < k then Some (types z ! 0) else List.find isdst (drop i (types z))))"

text \<open>The loop over the later transitions.\<close>

fun later_names :: "zone \<Rightarrow> nat list \<Rightarrow> name_types \<Rightarrow> name_types option" where
  "later_names z [] ns = Some ns"
| "later_names z (j # js) ns =
     (case type_of z j of
        None \<Rightarrow> None
      | Some next \<Rightarrow>
          if slot_of ns (isdst next) = None
          then (let ns = put_slot ns (isdst next) (Some next)
                in if both_named ns then Some ns else later_names z js ns)
          else later_names z js ns)"

definition names_around :: "zone \<Rightarrow> int \<Rightarrow> name_types option" where
  "names_around z t =
     (let i = partition_point (\<lambda>x. x \<le> t) (transitions z)
      in if i = 0 then None
         else case type_of z (i - 1) of
           None \<Rightarrow> None
         | Some before \<Rightarrow>
             map_option (\<lambda>ns. if fst ns = None then (snd ns, snd ns) else ns)
               (later_names z [i..<length (transitions z)] (put_slot (None, None) (isdst before) (Some before))))"

text \<open>What a missing name takes.\<close>

definition fill_names :: "zone \<Rightarrow> name_types \<Rightarrow> (local_type \<times> local_type) option" where
  "fill_names z ns =
     map_option (\<lambda>type0. let s = or_else (fst ns) type0 in (s, or_else (snd ns) s)) (at_index (types z) 0)"

definition glibc_names_at :: "zone \<Rightarrow> int \<Rightarrow> (local_type \<times> local_type) option" where
  "glibc_names_at z t =
     (if transitions z = [] then None
      else if t < transitions z ! 0 then Option.bind (early_names z) (fill_names z)
      else case zrule z of
        Some r \<Rightarrow>
          if transitions z ! (length (transitions z) - 1) \<le> t
          then Some (std r, case dst r of None \<Rightarrow> std r | Some d \<Rightarrow> fst d)
          else Option.bind (names_around z t) (fill_names z)
      | None \<Rightarrow> Option.bind (names_around z t) (fill_names z))"

section \<open>The state of a sim\<close>

type_synonym zone_key = "string option \<times> string option"

record resolved =
  rzone :: zone
  rname :: "string option"
  rdata :: "string option"
  rkey :: zone_key

record tz_names =
  nkey :: zone_key
  names :: "string \<times> string"

definition tzset_names :: "target_os \<Rightarrow> resolved \<Rightarrow> (string \<times> string) option" where
  "tzset_names os res = map_option (\<lambda>(s, d). (abbr s, abbr d)) (tzset_types os (rzone res))"

text \<open>The names \<^verbatim>\<open>with_names\<close> hands to its operation; the state then holds what the operation left.\<close>

definition current_names :: "target_os \<Rightarrow> resolved \<Rightarrow> tz_names option \<Rightarrow> tz_names option" where
  "current_names os res st =
     (case st of
        Some n \<Rightarrow>
          if nkey n = rkey res then Some n
          else map_option (\<lambda>ns. \<lparr>nkey = rkey res, names = ns\<rparr>) (tzset_names os res)
      | None \<Rightarrow> map_option (\<lambda>ns. \<lparr>nkey = rkey res, names = ns\<rparr>) (tzset_names os res))"

definition tzname :: "target_os \<Rightarrow> resolved \<Rightarrow> tz_names option option \<Rightarrow> (string \<times> string) option" where
  "tzname os res sim =
     (case sim of
        Some st \<Rightarrow> map_option names (current_names os res st)
      | None \<Rightarrow> tzset_names os res)"

definition note_conversion ::
  "target_os \<Rightarrow> resolved \<Rightarrow> int \<Rightarrow> tz_names option option \<Rightarrow> tz_names option option option" where
  "note_conversion os res t sim =
     (case zone_at os (rzone res) t of
        None \<Rightarrow> None
      | Some ty \<Rightarrow>
          (case sim of
             None \<Rightarrow> Some None
           | Some st \<Rightarrow>
               (case current_names os res st of
                  None \<Rightarrow> None
                | Some n \<Rightarrow>
                    if os = MacOS
                    then Some (Some (Some (n\<lparr>names := put_slot (names n) (isdst ty) (abbr ty)\<rparr>)))
                    else if transitions (rzone res) \<noteq> []
                    then map_option (\<lambda>(s, d). Some (Some (n\<lparr>names := (abbr s, abbr d)\<rparr>)))
                           (glibc_names_at (rzone res) t)
                    else Some (Some (Some n)))))"

section \<open>The names of the type in effect\<close>

lemma at_index_Some: "i < length xs \<Longrightarrow> at_index xs i = Some (xs ! i)"
  by (simp add: at_index_def)

lemma scan_types_total: "\<forall>i \<in> set is. i < length tys \<Longrightarrow> \<exists>ns'. scan_types tys is ns = Some ns'"
  by (induction tys "is" ns rule: scan_types.induct) (auto simp: at_index_Some Let_def)

lemma tzset_types_total: "zone_wf z \<Longrightarrow> \<exists>p. tzset_types os z = Some p"
  using scan_types_total [of "rev (indices z)" "types z" "(None, None)"]
  by (auto simp: zone_wf_def tzset_types_def at_index_Some Let_def split: option.splits list.splits prod.splits)

lemma later_names_total:
  assumes "zone_wf z" "\<forall>j \<in> set js. j < length (transitions z)"
  shows "\<exists>ns'. later_names z js ns = Some ns' \<and> (\<forall>d v. slot_of ns d = Some v \<longrightarrow> slot_of ns' d = Some v)"
  using assms(2)
proof (induction js arbitrary: ns)
  case (Cons j js)
  have ty: "type_of z j = Some (types z ! (indices z ! j))" using Cons.prems type_of_total [OF assms(1)] by simp
  let ?d = "isdst (types z ! (indices z ! j))"
  have keep: "slot_of (put_slot ns ?d v) e = Some w" if "slot_of ns ?d = None" "slot_of ns e = Some w" for v e w
    using that by (auto simp: slot_of_def put_slot_def split: if_splits)
  have IH: "\<exists>ns''. later_names z js ns' = Some ns'' \<and> (\<forall>d v. slot_of ns' d = Some v \<longrightarrow> slot_of ns'' d = Some v)" for ns'
    using Cons by simp
  show ?case
  proof (cases "slot_of ns ?d = None")
    case True
    let ?ns = "put_slot ns ?d (Some (types z ! (indices z ! j)))"
    obtain ns'' where ns'': "later_names z js ?ns = Some ns''"
        "\<forall>d v. slot_of ?ns d = Some v \<longrightarrow> slot_of ns'' d = Some v"
      using IH [of ?ns] by blast
    have "later_names z (j # js) ns = Some (if both_named ?ns then ?ns else ns'')"
      using True ns''(1) by (simp add: ty Let_def)
    then show ?thesis using keep [OF True] ns''(2) by auto
  next
    case False
    then have "later_names z (j # js) ns = later_names z js ns" by (auto simp: ty)
    then show ?thesis using IH [of ns] by simp
  qed
qed simp

definition rule_flags :: "zone \<Rightarrow> bool" where
  "rule_flags z \<longleftrightarrow>
     (case zrule z of None \<Rightarrow> True | Some r \<Rightarrow> \<not> isdst (std r) \<and> (case dst r of None \<Rightarrow> True | Some d \<Rightarrow> isdst (fst d)))"

lemma early_names_type:
  assumes "types z \<noteq> []"
  shows "\<exists>ns. early_names z = Some ns \<and> slot_of ns (isdst (types z ! 0)) = Some (types z ! 0) \<and> fst ns \<noteq> None"
proof -
  obtain a l where a: "types z = a # l" using assms by (cases "types z") auto
  have "length (takeWhile isdst l) = length l \<or> length (takeWhile isdst l) < length l"
    using length_takeWhile_le [of isdst l] by linarith
  then show ?thesis by (cases "isdst a") (auto simp: early_names_def a at_index_def slot_of_def)
qed

lemma names_around_type:
  assumes "zone_wf z" "0 < p" "p = partition_point (\<lambda>x. x \<le> t) (transitions z)" "type_of z (p - 1) = Some ty"
  shows "\<exists>ns. names_around z t = Some ns \<and> slot_of ns (isdst ty) = Some ty \<and> fst ns \<noteq> None"
proof -
  let ?start = "put_slot (None, None) (isdst ty) (Some ty)"
  obtain ns where ns: "later_names z [p..<length (transitions z)] ?start = Some ns"
      "\<forall>d v. slot_of ?start d = Some v \<longrightarrow> slot_of ns d = Some v"
    using later_names_total [OF assms(1), of "[p..<length (transitions z)]" ?start] by auto
  have "slot_of ns (isdst ty) = Some ty" using ns(2) by (simp add: slot_of_def put_slot_def)
  then show ?thesis using assms(2,4) ns(1) unfolding names_around_def Let_def assms(3) [symmetric]
    by (cases "fst ns") (auto simp: slot_of_def split: if_splits)
qed

lemma glibc_names_type:
  assumes "zone_wf z" "transitions z \<noteq> []" "sorted (transitions z)" "rule_flags z" "zone_at os z t = Some ty"
  shows "\<exists>p. glibc_names_at z t = Some p \<and> slot_of p (isdst ty) = ty"
proof -
  let ?p = "partition_point (\<lambda>x. x \<le> t) (transitions z)" and ?n = "length (transitions z)"
  have ne: "types z \<noteq> []" using assms(1) by (simp add: zone_wf_def)
  have first: "?p = 0 \<longleftrightarrow> t < transitions z ! 0" by (rule point_first [OF assms(2)])
  have last: "?p = ?n \<longleftrightarrow> transitions z ! (?n - 1) \<le> t"
    using point_last [OF assms(3,2)] assms(2) by (simp add: last_conv_nth)
  note at = assms(5) [unfolded zone_at_point [OF assms(2)] Let_def]
  have fin: "\<exists>p. fill_names z ns = Some p \<and> slot_of p (isdst ty) = ty" if "slot_of ns (isdst ty) = Some ty" for ns
    using that ne by (auto simp: fill_names_def at_index_def Let_def or_else_def slot_of_def split: if_splits)
  consider (early) "?p = 0" | (late) r where "?p = ?n" "?p \<noteq> 0" "zrule z = Some r"
    | (mid) "?p \<noteq> 0" "?p \<noteq> ?n \<or> zrule z = None" by blast
  then show ?thesis
  proof cases
    case early
    then have "ty = types z ! 0" using at ne assms(2) by (simp add: at_index_def split: option.splits)
    then obtain ns where "early_names z = Some ns" "slot_of ns (isdst ty) = Some ty" using early_names_type [OF ne] by blast
    then show ?thesis using fin early first assms(2) by (simp add: glibc_names_at_def)
  next
    case late
    then have "ty = rule_at os r t" using at by simp
    then have "isdst ty \<and> (\<exists>d. dst r = Some d \<and> ty = fst d) \<or> \<not> isdst ty \<and> ty = std r"
      using rule_at_types [of os r t] assms(4) late(3)
      by (auto simp: rule_flags_def rule_types_def split: option.splits)
    moreover have "glibc_names_at z t = Some (std r, case dst r of None \<Rightarrow> std r | Some d \<Rightarrow> fst d)"
      using late first last assms(2) by (simp add: glibc_names_at_def)
    ultimately show ?thesis by (auto simp: slot_of_def)
  next
    case mid
    then have "type_of z (?p - 1) = Some ty" using at by (simp split: option.splits if_splits)
    then obtain ns where "names_around z t = Some ns" "slot_of ns (isdst ty) = Some ty"
      using names_around_type [OF assms(1) _ refl, of t ty] mid(1) by auto
    then show ?thesis using fin mid first last assms(2) by (auto simp: glibc_names_at_def split: option.splits)
  qed
qed



end
