(* ===== verification/Tz_Parse.thy ===== *)
theory Tz_Parse
  imports Tz_Names
begin

text \<open>
  The parsers of the local-time code (\<^verbatim>\<open>crates/snare-interpose/src/os/tz.rs\<close>): POSIX TZ strings and TZif files.
  Bytes are characters. The position of the \<^verbatim>\<open>Parser\<close> is the rest of its input, which every operation returns with
  its value; \<open>None\<close> is a failure. The sums and products of \<^verbatim>\<open>usize\<close> are of 32-bit counts and small factors
  and stay below \<open>2 ^ 64\<close>.
\<close>

section \<open>The parser\<close>

definition byte_of :: "char \<Rightarrow> nat" where
  "byte_of c = of_char c"

definition is_ascii_digit :: "char \<Rightarrow> bool" where
  "is_ascii_digit c \<longleftrightarrow> 48 \<le> byte_of c \<and> byte_of c \<le> 57"

definition is_ascii_alphabetic :: "char \<Rightarrow> bool" where
  "is_ascii_alphabetic c \<longleftrightarrow> 65 \<le> byte_of c \<and> byte_of c \<le> 90 \<or> 97 \<le> byte_of c \<and> byte_of c \<le> 122"

definition name_char :: "char \<Rightarrow> bool" where
  "name_char c \<longleftrightarrow> is_ascii_alphabetic c \<or> is_ascii_digit c \<or> c = CHR ''+'' \<or> c = CHR ''-''"

fun peek :: "string \<Rightarrow> char option" where
  "peek [] = None"
| "peek (c # _) = Some c"

definition at_end :: "string \<Rightarrow> bool" where
  "at_end s \<longleftrightarrow> s = []"

definition eat :: "char \<Rightarrow> string \<Rightarrow> string option" where
  "eat c s = (if peek s = Some c then Some (tl s) else None)"

definition zname :: "string \<Rightarrow> (string \<times> string) option" where
  "zname s =
     (case eat CHR ''<'' s of
        Some r \<Rightarrow>
          (let n = takeWhile name_char r
           in case eat CHR ''>'' (dropWhile name_char r) of
                None \<Rightarrow> None
              | Some r' \<Rightarrow> if 3 \<le> length n then Some (n, r') else None)
      | None \<Rightarrow>
          (let n = takeWhile is_ascii_alphabetic s
           in if 3 \<le> length n then Some (n, dropWhile is_ascii_alphabetic s) else None))"

text \<open>The digits of \<^verbatim>\<open>Parser::number\<close>, with the checked arithmetic of \<^verbatim>\<open>u32\<close>.\<close>

fun number_digits :: "nat \<Rightarrow> string \<Rightarrow> (nat \<times> string) option" where
  "number_digits n [] = Some (n, [])"
| "number_digits n (c # r) =
     (if is_ascii_digit c
      then if n * 10 < 2 ^ 32 \<and> n * 10 + (byte_of c - 48) < 2 ^ 32
           then number_digits (n * 10 + (byte_of c - 48)) r else None
      else Some (n, c # r))"

definition number :: "nat \<Rightarrow> string \<Rightarrow> (nat \<times> string) option" where
  "number most s =
     (case number_digits 0 s of
        None \<Rightarrow> None
      | Some (n, r) \<Rightarrow> if length r < length s \<and> n \<le> most then Some (n, r) else None)"

definition sign :: "string \<Rightarrow> int \<times> string" where
  "sign s =
     (case peek s of
        Some c \<Rightarrow> if c = CHR ''-'' then (-1, tl s) else if c = CHR ''+'' then (1, tl s) else (1, s)
      | None \<Rightarrow> (1, s))"

definition offset :: "nat \<Rightarrow> string \<Rightarrow> (int \<times> string) option" where
  "offset max_hours s =
     (let (sg, s) = sign s
      in case number max_hours s of
           None \<Rightarrow> None
         | Some (h, s) \<Rightarrow>
             (case eat CHR '':'' s of
                None \<Rightarrow> Some (sg * int (h * 3600), s)
              | Some s \<Rightarrow>
                  (case number 59 s of
                     None \<Rightarrow> None
                   | Some (m, s) \<Rightarrow>
                       (case eat CHR '':'' s of
                          None \<Rightarrow> Some (sg * int (h * 3600 + m * 60), s)
                        | Some s \<Rightarrow>
                            (case number 59 s of
                               None \<Rightarrow> None
                             | Some (x, s) \<Rightarrow> Some (sg * int (h * 3600 + m * 60 + x), s))))))"

definition number_from :: "nat \<Rightarrow> nat \<Rightarrow> string \<Rightarrow> (nat \<times> string) option" where
  "number_from least most s =
     (case number most s of Some (n, r) \<Rightarrow> if least \<le> n then Some (n, r) else None | None \<Rightarrow> None)"

text \<open>The date of \<^verbatim>\<open>Parser::change\<close>.\<close>

definition parse_day :: "string \<Rightarrow> (day \<times> string) option" where
  "parse_day s =
     (case peek s of
        None \<Rightarrow> None
      | Some c \<Rightarrow>
          if c = CHR ''J'' then map_option (\<lambda>(n, r). (Julian (int n), r)) (number_from 1 365 (tl s))
          else if c = CHR ''M''
          then (case number_from 1 12 (tl s) of
                  None \<Rightarrow> None
                | Some (month, s) \<Rightarrow>
                    (case Option.bind (eat CHR ''.'' s) (number_from 1 5) of
                       None \<Rightarrow> None
                     | Some (week, s) \<Rightarrow>
                         (case Option.bind (eat CHR ''.'' s) (number 6) of
                            None \<Rightarrow> None
                          | Some (weekday, s) \<Rightarrow> Some (Month (int month) (int week) (int weekday), s))))
          else map_option (\<lambda>(n, r). (Ordinal (int n), r)) (number 365 s))"

definition parse_change :: "string \<Rightarrow> (change_at \<times> string) option" where
  "parse_change s =
     (case parse_day s of
        None \<Rightarrow> None
      | Some (day, s) \<Rightarrow>
          (case eat CHR ''/'' s of
             Some s \<Rightarrow> map_option (\<lambda>(time, s). ((day, time), s)) (offset 167 s)
           | None \<Rightarrow> Some ((day, 7200), s)))"

section \<open>TZ strings\<close>

definition default_changes :: "change_at \<times> change_at" where
  "default_changes = ((Month 3 2 0, 7200), (Month 11 1 0, 7200))"

text \<open>The two changes and the end of the string.\<close>

definition parse_changes :: "string \<Rightarrow> (change_at \<times> change_at) option" where
  "parse_changes s =
     (if at_end s then Some default_changes
      else case Option.bind (eat CHR '','' s) parse_change of
             None \<Rightarrow> None
           | Some (start, s) \<Rightarrow>
               (case Option.bind (eat CHR '','' s) parse_change of
                  None \<Rightarrow> None
                | Some (finish, s) \<Rightarrow> if at_end s then Some (start, finish) else None))"

definition dst_offset :: "int \<Rightarrow> string \<Rightarrow> (int \<times> string) option" where
  "dst_offset std_utoff s =
     (if peek s = Some CHR '','' \<or> peek s = None then Some (std_utoff + 3600, s)
      else map_option (\<lambda>(x, r). (- x, r)) (offset 24 s))"

definition parse_posix :: "string \<Rightarrow> rule option" where
  "parse_posix s =
     (case zname s of
        None \<Rightarrow> None
      | Some (std_name, s) \<Rightarrow>
          (case offset 24 s of
             None \<Rightarrow> None
           | Some (x, s) \<Rightarrow>
               (let st = \<lparr>utoff = - x, isdst = False, abbr = std_name\<rparr>
                in if at_end s then Some \<lparr>std = st, dst = None\<rparr>
                   else case zname s of
                          None \<Rightarrow> None
                        | Some (dst_name, s) \<Rightarrow>
                            (case dst_offset (- x) s of
                               None \<Rightarrow> None
                             | Some (dst_utoff, s) \<Rightarrow>
                                 map_option
                                   (\<lambda>(start, finish).
                                      \<lparr>std = st, dst = Some (\<lparr>utoff = dst_utoff, isdst = True, abbr = dst_name\<rparr>, start, finish)\<rparr>)
                                   (parse_changes s)))))"

section \<open>Every accepted rule is in range\<close>

definition name_ok :: "string \<Rightarrow> bool" where
  "name_ok n \<longleftrightarrow> 3 \<le> length n \<and> (\<forall>c \<in> set n. name_char c)"

definition offset_ok :: "nat \<Rightarrow> int \<Rightarrow> bool" where
  "offset_ok max_hours x \<longleftrightarrow> \<bar>x\<bar> < int ((max_hours + 1) * 3600)"

fun day_ok :: "day \<Rightarrow> bool" where
  "day_ok (Julian n) \<longleftrightarrow> 1 \<le> n \<and> n \<le> 365"
| "day_ok (Ordinal n) \<longleftrightarrow> 0 \<le> n \<and> n \<le> 365"
| "day_ok (Month m w d) \<longleftrightarrow> 1 \<le> m \<and> m \<le> 12 \<and> 1 \<le> w \<and> w \<le> 5 \<and> 0 \<le> d \<and> d \<le> 6"

definition change_ok :: "change_at \<Rightarrow> bool" where
  "change_ok ch \<longleftrightarrow> day_ok (fst ch) \<and> offset_ok 167 (snd ch)"

definition rule_ok :: "rule \<Rightarrow> bool" where
  "rule_ok r \<longleftrightarrow> name_ok (abbr (std r)) \<and> \<not> isdst (std r) \<and> offset_ok 24 (utoff (std r)) \<and>
     (case dst r of None \<Rightarrow> True
      | Some (d, start, finish) \<Rightarrow> name_ok (abbr d) \<and> isdst d \<and>
          (offset_ok 24 (utoff d) \<or> utoff d = utoff (std r) + 3600) \<and> change_ok start \<and> change_ok finish)"

lemma zname_ok: "zname s = Some (n, r) \<Longrightarrow> name_ok n"
  by (auto simp: zname_def name_ok_def Let_def name_char_def dest: set_takeWhileD split: option.splits if_splits)

lemma number_le: "number most s = Some (n, r) \<Longrightarrow> n \<le> most"
  by (auto simp: number_def split: option.splits if_splits)

lemma number_from_le: "number_from least most s = Some (n, r) \<Longrightarrow> least \<le> n \<and> n \<le> most"
  by (auto simp: number_from_def dest: number_le split: option.splits if_splits)

lemma sign_unit: "sign s = (sg, r) \<Longrightarrow> sg = 1 \<or> sg = -1"
  by (auto simp: sign_def split: option.splits if_splits)

lemma offset_range:
  assumes "offset max_hours s = Some (x, r)"
  shows "offset_ok max_hours x"
proof -
  obtain sg s' where sg: "sign s = (sg, s')" by (cases "sign s") auto
  have "\<exists>k. x = sg * int k \<and> k < (max_hours + 1) * 3600"
    using assms unfolding offset_def sg Let_def prod.case
    by (auto dest!: number_le split: option.splits simp del: of_nat_add of_nat_mult) (rule exI, rule conjI, rule disjI2, rule refl, simp)+
  then show ?thesis using sign_unit [OF sg] by (auto simp: offset_ok_def)
qed

lemma offset_ok_neg: "offset_ok h (- x) = offset_ok h x"
  by (simp add: offset_ok_def)

lemma parse_day_ok: "parse_day s = Some (d, r) \<Longrightarrow> day_ok d"
  by (auto simp: parse_day_def dest!: number_le number_from_le split: option.splits if_splits bind_splits)

lemma parse_change_ok: "parse_change s = Some (ch, r) \<Longrightarrow> change_ok ch"
  unfolding parse_change_def
  by (auto dest!: parse_day_ok offset_range split: option.splits) (simp_all add: change_ok_def offset_ok_def)

lemma parse_changes_ok: "parse_changes s = Some (a, b) \<Longrightarrow> change_ok a \<and> change_ok b"
  unfolding parse_changes_def
  by (auto simp: default_changes_def dest!: parse_change_ok split: option.splits if_splits bind_splits)
     (simp_all add: change_ok_def offset_ok_def)

lemma dst_offset_ok: "dst_offset x s = Some (y, r) \<Longrightarrow> offset_ok 24 y \<or> y = x + 3600"
  by (auto simp: dst_offset_def offset_ok_neg dest: offset_range split: if_splits)

lemma parse_posix_ok: "parse_posix s = Some r \<Longrightarrow> rule_ok r"
  unfolding parse_posix_def
  by (auto simp: rule_ok_def Let_def offset_ok_neg
      dest!: zname_ok offset_range parse_changes_ok dst_offset_ok split: option.splits if_splits)

section \<open>Writing TZ strings\<close>

definition digit_char :: "nat \<Rightarrow> char" where
  "digit_char d = char_of (48 + d)"

fun show_nat :: "nat \<Rightarrow> string" where
  "show_nat n = (if n < 10 then [digit_char n] else show_nat (n div 10) @ [digit_char (n mod 10)])"

declare show_nat.simps [simp del]

definition print_offset :: "int \<Rightarrow> string" where
  "print_offset x =
     (if x < 0 then [CHR ''-''] else []) @ show_nat (nat \<bar>x\<bar> div 3600) @ CHR '':'' #
     show_nat (nat \<bar>x\<bar> div 60 mod 60) @ CHR '':'' # show_nat (nat \<bar>x\<bar> mod 60)"

fun print_day :: "day \<Rightarrow> string" where
  "print_day (Julian n) = CHR ''J'' # show_nat (nat n)"
| "print_day (Ordinal n) = show_nat (nat n)"
| "print_day (Month m w d) =
     CHR ''M'' # show_nat (nat m) @ CHR ''.'' # show_nat (nat w) @ CHR ''.'' # show_nat (nat d)"

definition print_change :: "change_at \<Rightarrow> string" where
  "print_change ch = print_day (fst ch) @ CHR ''/'' # print_offset (snd ch)"

definition print_name :: "string \<Rightarrow> string" where
  "print_name n = CHR ''<'' # n @ [CHR ''>'']"

definition print_rule :: "rule \<Rightarrow> string" where
  "print_rule r =
     print_name (abbr (std r)) @ print_offset (- utoff (std r)) @
     (case dst r of None \<Rightarrow> []
      | Some (d, start, finish) \<Rightarrow>
          print_name (abbr d) @ (if utoff d = utoff (std r) + 3600 then [] else print_offset (- utoff d)) @
          CHR '','' # print_change start @ CHR '','' # print_change finish)"

definition ends_number :: "string \<Rightarrow> bool" where
  "ends_number r \<longleftrightarrow> (case r of [] \<Rightarrow> True | c # _ \<Rightarrow> \<not> is_ascii_digit c)"

lemma ends_number_simps [simp]: "ends_number []" "ends_number (c # r) \<longleftrightarrow> \<not> is_ascii_digit c"
  by (simp_all add: ends_number_def)

lemma digit_char [simp]: "d < 10 \<Longrightarrow> byte_of (digit_char d) = 48 + d" "d < 10 \<Longrightarrow> is_ascii_digit (digit_char d)"
  by (simp_all add: byte_of_def digit_char_def is_ascii_digit_def)

lemma not_digit [simp]:
  "\<not> is_ascii_digit CHR ''<''" "\<not> is_ascii_digit CHR '':''" "\<not> is_ascii_digit CHR ''.''"
  "\<not> is_ascii_digit CHR ''/''" "\<not> is_ascii_digit CHR '',''" "\<not> is_ascii_digit CHR ''-''" "\<not> is_ascii_digit CHR ''+''"
  "\<not> is_ascii_digit CHR ''J''" "\<not> is_ascii_digit CHR ''M''"
  by (simp_all add: is_ascii_digit_def byte_of_def)

lemma number_digits_end: "ends_number r \<Longrightarrow> number_digits n r = Some (n, r)"
  by (cases r) auto

lemma number_digits_show: "n < 2 ^ 32 \<Longrightarrow> number_digits 0 (show_nat n @ r) = number_digits n r"
proof (induction n arbitrary: r rule: show_nat.induct)
  case (1 n)
  show ?case
  proof (cases "n < 10")
    case True
    then show ?thesis by (simp add: show_nat.simps [of n])
  next
    case False
    have "number_digits 0 (show_nat n @ r) = number_digits (n div 10) (digit_char (n mod 10) # r)"
      using 1 False by (simp add: show_nat.simps [of n])
    also have "\<dots> = number_digits (n div 10 * 10 + n mod 10) r"
    proof -
      have "n div 10 * 10 + n mod 10 < 2 ^ 32" using 1(2) by simp
      moreover from this have "n div 10 * 10 < 2 ^ 32" by linarith
      ultimately show ?thesis by simp
    qed
    also have "\<dots> = number_digits n r" by simp
    finally show ?thesis .
  qed
qed

lemma show_nat_head: obtains c cs where "show_nat n = c # cs" "is_ascii_digit c"
proof (induction n arbitrary: thesis rule: show_nat.induct)
  case (1 n)
  show ?case
  proof (cases "n < 10")
    case True
    then show ?thesis using 1(2) by (simp add: show_nat.simps [of n])
  next
    case False
    then obtain c cs where "show_nat (n div 10) = c # cs" "is_ascii_digit c" using 1(1) by blast
    then show ?thesis using 1(2) False by (simp add: show_nat.simps [of n])
  qed
qed

lemma number_show:
  assumes "n \<le> most" "most < 2 ^ 32" "ends_number r"
  shows "number most (show_nat n @ r) = Some (n, r)"
proof -
  obtain c cs where "show_nat n = c # cs" using show_nat_head by blast
  then have "length r < length (show_nat n @ r)" by simp
  then show ?thesis using assms by (simp add: number_def number_digits_show number_digits_end)
qed

lemma eat_Cons [simp]: "eat c (c # s) = Some s" "a \<noteq> c \<Longrightarrow> eat c (a # s) = None" "eat c [] = None"
  by (simp_all add: eat_def)

lemma sign_show: "sign (show_nat n @ r) = (1, show_nat n @ r)"
  by (rule show_nat_head [of n]) (auto simp: sign_def)

lemma sign_minus: "sign (CHR ''-'' # s) = (-1, s)"
  by (simp add: sign_def)

lemma offset_print:
  assumes "offset_ok h x" "h < 1000" "ends_number r"
  shows "offset h (print_offset x @ r) = Some (x, r)"
proof -
  define k where "k = nat \<bar>x\<bar>"
  have k: "k < (h + 1) * 3600" using assms(1) by (simp add: k_def offset_ok_def nat_less_iff)
  have sg: "sign (print_offset x @ r) = (if x < 0 then -1 else 1,
      show_nat (k div 3600) @ CHR '':'' # show_nat (k div 60 mod 60) @ CHR '':'' # show_nat (k mod 60) @ r)"
    by (cases "x < 0") (simp_all add: print_offset_def k_def sign_show sign_minus)
  have "k div 3600 \<le> h" using k by (simp add: div_less_iff_less_mult less_Suc_eq_le [symmetric])
  then have n: "number h (show_nat (k div 3600) @ CHR '':'' # t) = Some (k div 3600, CHR '':'' # t)" for t
    using assms(2) by (intro number_show) simp_all
  have m: "number 59 (show_nat (k div 60 mod 60) @ CHR '':'' # t) = Some (k div 60 mod 60, CHR '':'' # t)" for t
    by (intro number_show) (simp_all add: less_Suc_eq_le [symmetric])
  have s: "number 59 (show_nat (k mod 60) @ r) = Some (k mod 60, r)"
    using assms(3) by (intro number_show) (simp_all add: less_Suc_eq_le [symmetric])
  have "k div 3600 * 3600 + k div 60 mod 60 * 60 + k mod 60 = k"
  proof -
    have "k div 60 div 60 = k div 3600" by (simp add: div_mult2_eq [symmetric])
    then show ?thesis using div_mult_mod_eq [of k 60] div_mult_mod_eq [of "k div 60" 60] by linarith
  qed
  moreover have "(if x < 0 then -1 else 1) * int k = x" by (simp add: k_def)
  ultimately show ?thesis by (simp add: offset_def sg n m s del: of_nat_add of_nat_mult)
qed

lemma number_from_show:
  "least \<le> n \<Longrightarrow> n \<le> most \<Longrightarrow> most < 2 ^ 32 \<Longrightarrow> ends_number r \<Longrightarrow> number_from least most (show_nat n @ r) = Some (n, r)"
  by (simp add: number_from_def number_show)

lemma parse_day_print: "day_ok d \<Longrightarrow> ends_number r \<Longrightarrow> parse_day (print_day d @ r) = Some (d, r)"
proof (induction d rule: day_ok.induct)
  case (2 n)
  obtain c cs where c: "show_nat (nat n) = c # cs" "is_ascii_digit c" by (rule show_nat_head)
  have "c \<noteq> CHR ''J''" "c \<noteq> CHR ''M''" using c(2) not_digit by blast+
  moreover have "number 365 (show_nat (nat n) @ r) = Some (nat n, r)" using 2 by (intro number_show) auto
  ultimately show ?case using 2 by (simp add: parse_day_def c)
qed (simp_all add: parse_day_def number_from_show number_show nat_le_iff le_nat_iff)

lemma parse_change_print: "change_ok ch \<Longrightarrow> ends_number r \<Longrightarrow> parse_change (print_change ch @ r) = Some (ch, r)"
  by (simp add: parse_change_def print_change_def change_ok_def parse_day_print offset_print)

lemma zname_print: "name_ok n \<Longrightarrow> zname (print_name n @ r) = Some (n, r)"
proof -
  assume n: "name_ok n"
  have "\<not> name_char CHR ''>''"
    by (simp add: name_char_def is_ascii_alphabetic_def is_ascii_digit_def byte_of_def)
  then have "takeWhile name_char (n @ CHR ''>'' # r) = n" "dropWhile name_char (n @ CHR ''>'' # r) = CHR ''>'' # r"
    using n by (simp_all add: name_ok_def takeWhile_append2 dropWhile_append2)
  then show ?thesis using n by (simp add: zname_def print_name_def name_ok_def Let_def)
qed

lemma dst_offset_print:
  assumes "offset_ok 24 y \<or> y = x + 3600"
  shows "dst_offset x ((if y = x + 3600 then [] else print_offset (- y)) @ CHR '','' # r) = Some (y, CHR '','' # r)"
proof (cases "y = x + 3600")
  case False
  obtain c cs where c: "print_offset (- y) = c # cs" "c = CHR ''-'' \<or> is_ascii_digit c"
    by (rule show_nat_head [of "nat \<bar>y\<bar> div 3600"]; cases "0 < y") (auto simp: print_offset_def)
  then have "c \<noteq> CHR '',''" by auto
  then show ?thesis
    using False assms offset_print [of 24 "- y" "CHR '','' # r"] c(1) by (simp add: dst_offset_def offset_ok_neg)
qed (simp add: dst_offset_def)

lemma parse_changes_print:
  "change_ok a \<Longrightarrow> change_ok b \<Longrightarrow> parse_changes (CHR '','' # print_change a @ CHR '','' # print_change b) = Some (a, b)"
  using parse_change_print [of b "[]"] by (simp add: parse_changes_def at_end_def parse_change_print)

lemma parse_posix_print: "rule_ok r \<Longrightarrow> parse_posix (print_rule r) = Some r"
proof -
  assume r: "rule_ok r"
  let ?s = "std r"
  have std: "\<lparr>utoff = utoff ?s, isdst = False, abbr = abbr ?s\<rparr> = ?s" using r by (simp add: rule_ok_def)
  have zs: "zname (print_name (abbr ?s) @ t) = Some (abbr ?s, t)" for t using r by (simp add: rule_ok_def zname_print)
  have os: "ends_number t \<Longrightarrow> offset 24 (print_offset (- utoff ?s) @ t) = Some (- utoff ?s, t)" for t
    using r by (simp add: rule_ok_def offset_print offset_ok_neg)
  show ?thesis
  proof (cases "dst r")
    case None
    then show ?thesis using os [of "[]"] std by (simp add: parse_posix_def print_rule_def zs at_end_def)
  next
    case (Some x)
    obtain d a b where x: "x = (d, a, b)" by (cases x) auto
    have d: "name_ok (abbr d)" "isdst d" "offset_ok 24 (utoff d) \<or> utoff d = utoff ?s + 3600" "change_ok a" "change_ok b"
      using r Some x by (simp_all add: rule_ok_def)
    have dst: "\<lparr>utoff = utoff d, isdst = True, abbr = abbr d\<rparr> = d" using d(2) by simp
    have "\<not> at_end (print_name (abbr d) @ t)" "ends_number (print_name (abbr d) @ t)" for t
      by (simp_all add: at_end_def print_name_def)
    then show ?thesis
      using os dst_offset_print [OF d(3)] parse_changes_print [OF d(4,5)] std dst
      by (simp add: parse_posix_def print_rule_def Some x zs zname_print [OF d(1)])
  qed
qed

text \<open>
  C29: A rule parsed from a TZ string has names of three letters or more, offsets and times within the limits POSIX
  and RFC 8536 set, and days that exist, its types rightly marked; and every such rule is the parse of the string
  that writes it out. So the parser accepts exactly the rules in range.
\<close>

theorem posix_rules_exact:
  "(parse_posix s = Some r \<longrightarrow> rule_ok r) \<and> (rule_ok r \<longrightarrow> parse_posix (print_rule r) = Some r)"
  using parse_posix_ok parse_posix_print by blast

theorem posix_rules_exact_witness:
  "\<exists>r. parse_posix ''CST6CDT'' = Some r \<and> rule_ok r \<and> parse_posix (print_rule r) = Some r"
proof -
  have "parse_posix ''CST6CDT'' =
    Some \<lparr>std = \<lparr>utoff = -21600, isdst = False, abbr = ''CST''\<rparr>,
      dst = Some (\<lparr>utoff = -18000, isdst = True, abbr = ''CDT''\<rparr>, (Month 3 2 0, 7200), (Month 11 1 0, 7200))\<rparr>"
    by (simp add: parse_posix_def zname_def eat_def is_ascii_alphabetic_def is_ascii_digit_def byte_of_def offset_def
        sign_def number_def Let_def at_end_def dst_offset_def parse_changes_def default_changes_def)
  then show ?thesis using posix_rules_exact by blast
qed

end
