(* ===== verification/Tz_Resolve.thy ===== *)
theory Tz_Resolve
  imports Tz_Parse
begin

text \<open>
  TZif files and the resolution of a sim's zone (\<^verbatim>\<open>crates/snare-interpose/src/os/tz.rs\<close>). The files are two
  arguments: what reading a path gives, and the target of the link \<^verbatim>\<open>/etc/localtime\<close>, both through the hooked
  file calls. The thread's cache is explicit state.
\<close>

section \<open>TZif files\<close>

definition be_nat :: "string \<Rightarrow> nat" where
  "be_nat bs = foldl (\<lambda>n c. n * 256 + byte_of c) 0 bs"

definition be_i32 :: "string \<Rightarrow> int" where
  "be_i32 bs = wrap_i32 (int (be_nat bs))"

definition be_i64 :: "string \<Rightarrow> int" where
  "be_i64 bs = wrap_i64 (int (be_nat bs))"

text \<open>\<^verbatim>\<open>data.get(at..at + len)\<close>, and \<^verbatim>\<open>slice::chunks\<close>.\<close>

definition get_range :: "string \<Rightarrow> nat \<Rightarrow> nat \<Rightarrow> string option" where
  "get_range data pos len = (if pos + len \<le> length data then Some (take len (drop pos data)) else None)"

function chunks :: "nat \<Rightarrow> 'a list \<Rightarrow> 'a list list" where
  "chunks k xs = (if xs = [] \<or> k = 0 then [] else take k xs # chunks k (drop k xs))"
  by auto
termination
  by (relation "measure (\<lambda>(k, xs). length xs)") auto

declare chunks.simps [simp del]

record counts =
  isutcnt :: nat
  isstdcnt :: nat
  leapcnt :: nat
  timecnt :: nat
  typecnt :: nat
  charcnt :: nat

definition header :: "string \<Rightarrow> nat \<Rightarrow> (nat \<times> counts) option" where
  "header data pos =
     (case get_range data pos 44 of
        None \<Rightarrow> None
      | Some h \<Rightarrow>
          if take 4 h \<noteq> ''TZif'' then None
          else (let cnt = (\<lambda>i. be_nat (take 4 (drop (20 + 4 * i) h)))
                in Some (byte_of (h ! 4),
                     \<lparr>isutcnt = cnt 0, isstdcnt = cnt 1, leapcnt = cnt 2, timecnt = cnt 3, typecnt = cnt 4, charcnt = cnt 5\<rparr>)))"

definition block_len :: "counts \<Rightarrow> nat \<Rightarrow> nat" where
  "block_len c time =
     timecnt c * time + timecnt c + typecnt c * 6 + charcnt c + leapcnt c * (time + 4) + isstdcnt c + isutcnt c"

definition parse_type :: "string \<Rightarrow> string \<Rightarrow> local_type option" where
  "parse_type chars c =
     (let start = byte_of (c ! 5)
      in if length chars < start then None
         else map_option (\<lambda>e. \<lparr>utoff = be_i32 (take 4 c), isdst = byte_of (c ! 4) \<noteq> 0, abbr = take e (drop start chars)\<rparr>)
                (position (\<lambda>b. byte_of b = 0) (drop start chars)))"

text \<open>The rule of the footer: the outer option is a failure.\<close>

definition parse_footer :: "string \<Rightarrow> nat \<Rightarrow> rule option option" where
  "parse_footer data pos =
     (if length data < pos then None
      else case drop pos data of
        [] \<Rightarrow> None
      | c # footer \<Rightarrow>
          if byte_of c \<noteq> 10 then None
          else case position (\<lambda>b. byte_of b = 10) footer of
            None \<Rightarrow> None
          | Some e \<Rightarrow> if e = 0 then Some None else map_option Some (parse_posix (take e footer)))"

definition parse_block :: "string \<Rightarrow> nat \<Rightarrow> nat \<Rightarrow> counts \<Rightarrow> nat \<Rightarrow> zone option" where
  "parse_block data version pos c time =
     (if typecnt c = 0 then None
      else case get_range data pos (block_len c time) of
        None \<Rightarrow> None
      | Some body \<Rightarrow>
          (let times = take (timecnt c * time) body; rest = drop (timecnt c * time) body;
               idx = map byte_of (take (timecnt c) rest); rest = drop (timecnt c) rest;
               infos = take (typecnt c * 6) rest; rest = drop (typecnt c * 6) rest;
               chars = take (charcnt c) rest;
               trans = map (if time = 8 then be_i64 else be_i32) (chunks time times)
           in if list_ex (\<lambda>i. typecnt c \<le> i) idx then None
              else case those (map (parse_type chars) (chunks 6 infos)) of
                None \<Rightarrow> None
              | Some tys \<Rightarrow>
                  map_option
                    (\<lambda>r. \<lparr>transitions = trans, indices = idx, types = tys, zrule = r, posix = False, zquirk = NoQuirk\<rparr>)
                    (if 50 \<le> version then parse_footer data (pos + length body) else Some None)))"

definition parse_tzif :: "string \<Rightarrow> zone option" where
  "parse_tzif data =
     (case header data 0 of
        None \<Rightarrow> None
      | Some (version, v1) \<Rightarrow>
          if 50 \<le> version
          then (let second = 44 + block_len v1 4
                in case header data second of
                     None \<Rightarrow> None
                   | Some (_, v2) \<Rightarrow> parse_block data version (second + 44) v2 8)
          else parse_block data version 44 v1 4)"

section \<open>Resolving a zone\<close>

record setting =
  serial :: nat
  stz :: "string option"
  tzdir :: "string option"

text \<open>\<^verbatim>\<open>String::from_utf8\<close>: well-formed sequences as the Unicode standard defines them.\<close>

definition cont :: "char \<Rightarrow> bool" where
  "cont c \<longleftrightarrow> 128 \<le> byte_of c \<and> byte_of c < 192"

fun utf8 :: "string \<Rightarrow> bool" where
  "utf8 [] = True"
| "utf8 (a # s) =
     (if byte_of a < 128 then utf8 s
      else if 194 \<le> byte_of a \<and> byte_of a < 224 then (case s of b # r \<Rightarrow> cont b \<and> utf8 r | _ \<Rightarrow> False)
      else if 224 \<le> byte_of a \<and> byte_of a < 240
      then (case s of b # c # r \<Rightarrow> cont b \<and> cont c \<and> (byte_of a = 224 \<longrightarrow> 160 \<le> byte_of b) \<and>
              (byte_of a = 237 \<longrightarrow> byte_of b < 160) \<and> utf8 r | _ \<Rightarrow> False)
      else if 240 \<le> byte_of a \<and> byte_of a < 245
      then (case s of b # c # d # r \<Rightarrow> cont b \<and> cont c \<and> cont d \<and> (byte_of a = 240 \<longrightarrow> 144 \<le> byte_of b) \<and>
              (byte_of a = 244 \<longrightarrow> byte_of b < 144) \<and> utf8 r | _ \<Rightarrow> False)
      else False)"

definition from_utf8 :: "string \<Rightarrow> string option" where
  "from_utf8 s = (if utf8 s then Some s else None)"

definition utc :: resolved where
  "utc = \<lparr>rzone = from_rule \<lparr>std = \<lparr>utoff = 0, isdst = False, abbr = ''UTC''\<rparr>, dst = None\<rparr>, rname = Some ''UTC'',
     rdata = None, rkey = (None, None)\<rparr>"

definition unparsed :: "string \<Rightarrow> resolved" where
  "unparsed tz =
     (let name = (case zname tz of None \<Rightarrow> [] | Some (n, _) \<Rightarrow> n)
      in \<lparr>rzone = (from_rule \<lparr>std = \<lparr>utoff = 0, isdst = False, abbr = name\<rparr>, dst = None\<rparr>)\<lparr>zquirk := Unparsed\<rparr>,
          rname = None, rdata = None, rkey = (None, None)\<rparr>)"

text \<open>The last position of a pattern, and the name after the last \<^verbatim>\<open>zoneinfo/\<close>.\<close>

definition rposition :: "string \<Rightarrow> string \<Rightarrow> nat option" where
  "rposition pat s =
     List.find (\<lambda>i. take (length pat) (drop i s) = pat) (rev [0..<length s + 1 - length pat])"

definition zone_name :: "string \<Rightarrow> string option" where
  "zone_name path =
     (case rposition ''zoneinfo/'' path of
        None \<Rightarrow> None
      | Some i \<Rightarrow> (let name = drop (i + 9) path in if name \<noteq> [] then from_utf8 name else None))"

definition local_file :: "(string \<Rightarrow> string option) \<Rightarrow> string option \<Rightarrow> resolved option" where
  "local_file rd link =
     (let link = map_option (\<lambda>target. if peek target = Some CHR ''/'' then target else ''/etc/'' @ target) link
      in case (case rd ''/etc/localtime'' of Some d \<Rightarrow> Some d | None \<Rightarrow> Option.bind link rd) of
           None \<Rightarrow> None
         | Some data \<Rightarrow>
             map_option (\<lambda>z. \<lparr>rzone = z, rname = Option.bind link zone_name, rdata = Some data, rkey = (None, None)\<rparr>)
               (parse_tzif data))"

definition resolve_named :: "target_os \<Rightarrow> (string \<Rightarrow> string option) \<Rightarrow> string \<Rightarrow> string \<Rightarrow> resolved" where
  "resolve_named os rd dir tz =
     (let abs = (peek tz = Some CHR ''/'');
          path = (if abs then tz else dir @ ''/'' @ tz)
      in case (case rd path of None \<Rightarrow> None | Some data \<Rightarrow> map_option (\<lambda>z. (data, z)) (parse_tzif data)) of
           Some (data, z) \<Rightarrow>
             \<lparr>rzone = z, rname = (if abs then zone_name tz else from_utf8 tz), rdata = Some data, rkey = (None, None)\<rparr>
         | None \<Rightarrow>
             (case parse_posix tz of
                Some r \<Rightarrow> \<lparr>rzone = from_rule r, rname = None, rdata = None, rkey = (None, None)\<rparr>
              | None \<Rightarrow> if os = Linux then unparsed tz else utc))"

definition resolve :: "target_os \<Rightarrow> (string \<Rightarrow> string option) \<Rightarrow> string option \<Rightarrow> setting \<Rightarrow> resolved" where
  "resolve os rd link st =
     (let dir = (case tzdir st of Some d \<Rightarrow> if d \<noteq> [] then d else ''/usr/share/zoneinfo'' | None \<Rightarrow> ''/usr/share/zoneinfo'')
      in case stz st of
           None \<Rightarrow> (case local_file rd link of Some r \<Rightarrow> r | None \<Rightarrow> utc)
         | Some tz \<Rightarrow>
             (let tz = (case eat CHR '':'' tz of Some r \<Rightarrow> r | None \<Rightarrow> tz)
              in if tz = []
                 then if os = Linux then resolve_named os rd dir ''Universal''
                      else utc\<lparr>rzone := (rzone utc)\<lparr>zquirk := Untyped\<rparr>\<rparr>
                 else resolve_named os rd dir tz))"

section \<open>The cache\<close>

type_synonym zone_cache = "(setting \<times> nat \<times> resolved) list"

definition current ::
  "target_os \<Rightarrow> (string \<Rightarrow> string option) \<Rightarrow> string option \<Rightarrow> setting option \<Rightarrow> nat \<Rightarrow> bool \<Rightarrow> zone_cache \<Rightarrow>
   resolved option \<times> zone_cache" where
  "current os rd link st generation fresh cache =
     (case st of
        None \<Rightarrow> (None, cache)
      | Some setting \<Rightarrow>
          (case (if fresh then None else List.find (\<lambda>(s, g, _). s = setting \<and> g = generation) cache) of
             Some (_, _, r) \<Rightarrow> (Some r, cache)
           | None \<Rightarrow>
               (let r = (resolve os rd link setting)\<lparr>rkey := (stz setting, tzdir setting)\<rparr>;
                    kept = take 7 (filter (\<lambda>(s, g, _). g = generation \<and> serial s \<noteq> serial setting) cache)
                in (Some r, kept @ [(setting, generation, r)]))))"

section \<open>Every resolved zone is well formed\<close>

lemma length_chunks: "0 < k \<Longrightarrow> length xs = n * k \<Longrightarrow> length (chunks k xs) = n"
proof (induction n arbitrary: xs)
  case 0
  then show ?case by (simp add: chunks.simps)
next
  case (Suc n)
  then have "length (drop k xs) = n * k" "xs \<noteq> []" by auto
  then show ?case using Suc.IH [of "drop k xs"] Suc.prems(1) by (simp add: chunks.simps [of k xs])
qed

lemma those_Some: "those xs = Some ys \<Longrightarrow> map Some ys = xs"
  by (induction xs arbitrary: ys) (auto split: option.splits)

lemma parse_type_range: "parse_type chars c = Some ty \<Longrightarrow> in_i32 (utoff ty)"
  by (auto simp: parse_type_def Let_def be_i32_def wrap_i32_range split: if_splits)

lemma rule_ok_types: "rule_ok r \<Longrightarrow> ty \<in> set (rule_types r) \<Longrightarrow> in_i32 (utoff ty)"
  by (auto simp: rule_ok_def rule_types_def offset_ok_def in_i32_def split: option.splits)

lemma parse_footer_ok: "parse_footer data pos = Some (Some r) \<Longrightarrow> rule_ok r"
  by (auto simp: parse_footer_def dest: parse_posix_ok split: if_splits list.splits option.splits)

definition zone_ok :: "zone \<Rightarrow> bool" where
  "zone_ok z \<longleftrightarrow> zone_wf z \<and> rule_flags z"

lemma rule_ok_flags: "(case zrule z of None \<Rightarrow> True | Some r \<Rightarrow> rule_ok r) \<Longrightarrow> rule_flags z"
  by (auto simp: rule_flags_def rule_ok_def split: option.splits)

lemma parse_block_ok:
  assumes "parse_block data version pos c time = Some z" "0 < time"
  shows "zone_ok z"
proof -
  obtain body where tc: "typecnt c \<noteq> 0" and body: "get_range data pos (block_len c time) = Some body"
    using assms(1) by (auto simp: parse_block_def split: if_splits option.splits)
  have len: "length body = block_len c time" using body by (auto simp: get_range_def split: if_splits)
  define rest where "rest = drop (timecnt c * time) body"
  define infos where "infos = take (typecnt c * 6) (drop (timecnt c) rest)"
  define chars where "chars = take (charcnt c) (drop (typecnt c * 6) (drop (timecnt c) rest))"
  define idx where "idx = map byte_of (take (timecnt c) rest)"
  obtain tys r where tys: "those (map (parse_type chars) (chunks 6 infos)) = Some tys"
    and r: "(if 50 \<le> version then parse_footer data (pos + length body) else Some None) = Some r"
    and idx: "\<not> list_ex (\<lambda>i. typecnt c \<le> i) idx"
    and z: "z = \<lparr>transitions = map (if time = 8 then be_i64 else be_i32) (chunks time (take (timecnt c * time) body)),
      indices = idx, types = tys, zrule = r, posix = False, zquirk = NoQuirk\<rparr>"
    using assms(1) tc body unfolding parse_block_def Let_def rest_def infos_def chars_def idx_def
    by (auto split: if_splits option.splits)
  have "length infos = typecnt c * 6" using len by (simp add: infos_def rest_def block_len_def)
  then have "length (chunks 6 infos) = typecnt c" by (intro length_chunks) simp_all
  then have "length tys = typecnt c" using those_Some [OF tys] by (metis length_map)
  moreover have "length (chunks time (take (timecnt c * time) body)) = timecnt c"
    using assms(2) len by (intro length_chunks) (simp_all add: block_len_def)
  moreover have "length idx = timecnt c" using len by (simp add: idx_def rest_def block_len_def)
  moreover have "in_i32 (utoff ty)" if "ty \<in> set tys" for ty
  proof -
    have "Some ty \<in> set (map (parse_type chars) (chunks 6 infos))" using that those_Some [OF tys] by (metis image_eqI list.set_map)
    then show ?thesis using parse_type_range by auto
  qed
  moreover have "case r of None \<Rightarrow> True | Some r \<Rightarrow> rule_ok r"
    using r parse_footer_ok by (auto split: if_splits option.splits)
  ultimately show ?thesis
    using tc idx rule_ok_types rule_ok_flags [of z] unfolding zone_ok_def z
    by (auto simp: zone_wf_def zone_types_def list_ex_iff not_le split: option.splits)
qed

lemma parse_tzif_ok: "parse_tzif data = Some z \<Longrightarrow> zone_ok z"
  using parse_block_ok by (fastforce simp: parse_tzif_def Let_def split: option.splits if_splits)

lemma from_rule_ok: "rule_ok r \<Longrightarrow> zone_ok (from_rule r)"
  using from_rule_wf rule_ok_types rule_ok_flags [of "from_rule r"] by (auto simp: zone_ok_def from_rule_def)

lemma plain_ok: "zone_ok ((from_rule \<lparr>std = \<lparr>utoff = 0, isdst = False, abbr = n\<rparr>, dst = None\<rparr>)\<lparr>zquirk := q\<rparr>)"
  by (simp add: zone_ok_def zone_wf_def rule_flags_def from_rule_def zone_types_def rule_types_def in_i32_def)

lemma utc_ok: "zone_ok (rzone utc)" "zone_ok ((rzone utc)\<lparr>zquirk := q\<rparr>)"
  using plain_ok [of NoQuirk "''UTC''"] plain_ok [of q "''UTC''"] by (simp_all add: utc_def from_rule_def)

lemma resolve_named_ok: "zone_ok (rzone (resolve_named os rd dir tz))"
  by (auto simp: resolve_named_def Let_def unparsed_def utc_ok plain_ok from_rule_ok
      dest: parse_tzif_ok parse_posix_ok split: option.splits)

lemma resolve_ok: "zone_ok (rzone (resolve os rd link st))"
  using resolve_named_ok utc_ok parse_tzif_ok
  by (auto simp: resolve_def Let_def local_file_def split: option.splits)

lemma glibc_names_total: "zone_wf z \<Longrightarrow> transitions z \<noteq> [] \<Longrightarrow> \<exists>p. glibc_names_at z t = Some p"
proof -
  assume wf: "zone_wf z" and ne: "transitions z \<noteq> []"
  let ?p = "partition_point (\<lambda>x. x \<le> t) (transitions z)"
  have types: "types z \<noteq> []" using wf by (simp add: zone_wf_def)
  then have fill: "\<exists>p. fill_names z ns = Some p" for ns by (simp add: fill_names_def at_index_def)
  have "\<exists>ns. names_around z t = Some ns" if "\<not> t < transitions z ! 0"
  proof -
    have "0 < ?p" "?p \<le> length (transitions z)"
      using that point_first [OF ne, of t] partition_point_le by auto
    then show ?thesis using names_around_type [OF wf _ refl, of t] type_of_total [OF wf, of "?p - 1"] by fastforce
  qed
  then show ?thesis using early_names_type [OF types] ne fill
    by (fastforce simp: glibc_names_at_def split: option.splits)
qed

text \<open>
  C28: Whatever \<^verbatim>\<open>TZ\<close> and \<^verbatim>\<open>TZDIR\<close> hold and whatever bytes the zone files hold, the zone they resolve to has every
  index and offset in range: finding the type of any time, breaking it down, taking the names of tzset(3) and
  moving a sim's names never panic.
\<close>

theorem resolve_safe:
  "let r = resolve os rd link st in
    (\<exists>ty. zone_at os (rzone r) t = Some ty) \<and> break_down os (rzone r) t \<noteq> None \<and>
    (\<exists>p. tzset_types os (rzone r) = Some p) \<and> (\<exists>sim'. note_conversion os r t sim = Some sim')"
proof -
  define r where "r = resolve os rd link st"
  have wf: "zone_wf (rzone r)" using resolve_ok by (simp add: zone_ok_def r_def)
  obtain ty where ty: "zone_at os (rzone r) t = Some ty" using zone_at_total [OF wf] .
  obtain p where p: "tzset_types os (rzone r) = Some p" using tzset_types_total [OF wf] by blast
  have names: "\<exists>n. current_names os r x = Some n" for x
    using p by (cases x; cases "nkey (the x) = rkey r") (auto simp: current_names_def tzset_names_def)
  have "\<exists>sim'. note_conversion os r t sim = Some sim'"
  proof (cases sim)
    case (Some x)
    obtain n where "current_names os r x = Some n" using names by blast
    then show ?thesis using ty Some glibc_names_total [OF wf, of t]
      by (cases "transitions (rzone r) = []") (auto simp: note_conversion_def)
  qed (simp add: note_conversion_def ty)
  moreover have "break_down os (rzone r) t \<noteq> None" using ty by (simp add: break_down_def split: option.splits)
  ultimately show ?thesis using ty p unfolding Let_def r_def [symmetric] by blast
qed

section \<open>The cache keeps a zone until tzset\<close>

definition cache_ok :: "zone_cache \<Rightarrow> bool" where
  "cache_ok c \<longleftrightarrow> length c \<le> 8 \<and> distinct (map (\<lambda>(s, _). serial s) c)"



end
