(* ===== verification/Mktime_Glibc.thy ===== *)
theory Mktime_Glibc
  imports Tz_Resolve
begin

text \<open>
  mktime(3) as glibc computes it (module \<^verbatim>\<open>glibc\<close> of \<^verbatim>\<open>crates/snare-interpose/src/os/tz_mktime.rs\<close>). The search
  takes the conversion of a time in the zone as an argument, \<^verbatim>\<open>convert\<close>. The fields of a \<^verbatim>\<open>struct tm\<close> are 32-bit,
  so no sum here leaves 64 bits: a year of them is below \<open>2 ^ 57\<close> seconds from the epoch. The sums that the
  code checks or wraps are written out.
\<close>

section \<open>The search\<close>

definition convert :: "target_os \<Rightarrow> zone \<Rightarrow> int \<Rightarrow> tm option" where
  "convert os z t = (case break_down os z t of Some r \<Rightarrow> r | None \<Rightarrow> None)"

definition leapyear :: "int \<Rightarrow> bool" where
  "leapyear year \<longleftrightarrow> year AND 3 = 0 \<and> (rmd year 100 \<noteq> 0 \<or> quot year 100 AND 3 = - quot 1900 100 AND 3)"

definition MON_YDAY :: "bool \<Rightarrow> int list" where
  "MON_YDAY leap =
     (if leap then [0, 31, 60, 91, 121, 152, 182, 213, 244, 274, 305, 335, 366]
      else [0, 31, 59, 90, 120, 151, 181, 212, 243, 273, 304, 334, 365])"

definition isdst_differ :: "int \<Rightarrow> int \<Rightarrow> bool" where
  "isdst_differ a b \<longleftrightarrow> (a = 0) \<noteq> (b = 0) \<and> 0 \<le> a \<and> 0 \<le> b"

definition shr :: "int \<Rightarrow> nat \<Rightarrow> int" where
  "shr a b = drop_bit b a"

definition ydhms_diff :: "int \<Rightarrow> int \<Rightarrow> int \<Rightarrow> int \<Rightarrow> int \<Rightarrow> int \<Rightarrow> int \<Rightarrow> int \<Rightarrow> int \<Rightarrow> int \<Rightarrow> int" where
  "ydhms_diff year1 yday1 hour1 min1 sec1 year0 yday0 hour0 min0 sec0 =
     (let a4 = shr year1 2 + shr 1900 2 - (if year1 AND 3 = 0 then 1 else 0);
          b4 = shr year0 2 + shr 1900 2 - (if year0 AND 3 = 0 then 1 else 0);
          a100 = quot (a4 + (if a4 < 0 then 1 else 0)) 25 - (if a4 < 0 then 1 else 0);
          b100 = quot (b4 + (if b4 < 0 then 1 else 0)) 25 - (if b4 < 0 then 1 else 0);
          a400 = shr a100 2;
          b400 = shr b100 2;
          leap_days = (a4 - b4) - (a100 - b100) + (a400 - b400);
          years = year1 - year0;
          days = 365 * years + yday1 - yday0 + leap_days;
          hours = 24 * days + hour1 - hour0;
          minutes = 60 * hours + min1 - min0
      in 60 * minutes + sec1 - sec0)"

text \<open>The time asked for: year from 1900, day of the year, hour, minute and second.\<close>

record request =
  ryear :: int
  ryday :: int
  rhour :: int
  rmin :: int
  rsec :: int
  risdst :: int

definition tm_diff :: "request \<Rightarrow> tm \<Rightarrow> int" where
  "tm_diff q x = ydhms_diff (ryear q) (ryday q) (rhour q) (rmin q) (rsec q)
     (tm_year x) (tm_yday x) (tm_hour x) (tm_min x) (tm_sec x)"

definition avg :: "int \<Rightarrow> int \<Rightarrow> int" where
  "avg a b = shr a 1 + shr b 1 + ((a OR b) AND 1)"

lemma and3: "(x::int) AND 3 = x mod 4"
  using take_bit_eq_mask [of 2 x] by (simp add: take_bit_eq_mod mask_eq_exp_minus_1)

lemma shr_div: "shr a b = a div 2 ^ b"
  by (simp add: shr_def drop_bit_eq_div)

lemma avg_eq: "avg a b = (a + b + 1) div 2"
proof -
  have "(a OR b) AND 1 = (if odd a \<or> odd b then 1 else 0)"
    by (simp add: and_one_eq mod2_eq_if even_or_iff)
  then have "avg a b = a div 2 + b div 2 + (if odd a \<or> odd b then 1 else 0)" by (simp add: avg_def shr_div)
  then show ?thesis by (auto elim!: evenE oddE)
qed

function bisect :: "(int \<Rightarrow> tm option) \<Rightarrow> int \<Rightarrow> int \<Rightarrow> tm option \<Rightarrow> (tm \<times> int) option" where
  "bisect cv ok bad found =
     (let mid = avg ok bad
      in if mid = ok \<or> mid = bad then map_option (\<lambda>x. (x, ok)) found
         else case cv mid of Some x \<Rightarrow> bisect cv mid bad (Some x) | None \<Rightarrow> bisect cv ok mid found)"
  by auto
termination
  by (relation "measure (\<lambda>(cv, ok, bad, found). nat \<bar>bad - ok\<bar>)") (auto simp: avg_eq)

declare bisect.simps [simp del]

definition ranged_convert :: "(int \<Rightarrow> tm option) \<Rightarrow> int \<Rightarrow> (tm \<times> int) option" where
  "ranged_convert cv t = (case cv t of Some x \<Rightarrow> Some (x, t) | None \<Rightarrow> bisect cv 0 t None)"

text \<open>
  The first loop: \<open>True\<close> when it found the time asked for, \<open>False\<close> when it ends oscillating between two times. The
  number of probes left is the first argument.
\<close>

fun probe :: "nat \<Rightarrow> (int \<Rightarrow> tm option) \<Rightarrow> request \<Rightarrow> int \<Rightarrow> int \<Rightarrow> int \<Rightarrow> bool \<Rightarrow> (bool \<times> int \<times> tm) option" where
  "probe 0 cv q t t1 t2 dst2 = None"
| "probe (Suc n) cv q t t1 t2 dst2 =
     (case ranged_convert cv t of
        None \<Rightarrow> None
      | Some (x, t) \<Rightarrow>
          (let dt = tm_diff q x
           in if dt = 0 then Some (True, t, x)
              else if t = t1 \<and> t \<noteq> t2 \<and>
                (tm_isdst x < 0 \<or>
                 (if risdst q < 0 then dst2 \<longrightarrow> tm_isdst x \<noteq> 0 else (risdst q \<noteq> 0) \<noteq> (tm_isdst x \<noteq> 0)))
              then Some (False, t, x)
              else probe n cv q (t + dt) t2 t (tm_isdst x \<noteq> 0)))"

definition STRIDE :: int where
  "STRIDE = 601200"

definition DURATION_MAX :: int where
  "DURATION_MAX = 457243209"

definition delta_bound :: int where
  "delta_bound = quot DURATION_MAX 2 + STRIDE"

datatype hunt = Hit int tm | Miss | Overflow

fun hunt_at :: "(int \<Rightarrow> tm option) \<Rightarrow> request \<Rightarrow> int \<Rightarrow> int \<Rightarrow> int list \<Rightarrow> hunt" where
  "hunt_at cv q t delta [] = Miss"
| "hunt_at cv q t delta (direction # ds) =
     (case checked_i64 (t + delta * direction) of
        None \<Rightarrow> hunt_at cv q t delta ds
      | Some ot \<Rightarrow>
          (case ranged_convert cv ot of
             None \<Rightarrow> Overflow
           | Some (otm, ot) \<Rightarrow>
               if \<not> isdst_differ (risdst q) (tm_isdst otm)
               then (let gt = ot + tm_diff q otm
                     in case cv gt of Some gtm \<Rightarrow> Hit gt gtm | None \<Rightarrow> hunt_at cv q t delta ds)
               else hunt_at cv q t delta ds))"

function hunt_from :: "(int \<Rightarrow> tm option) \<Rightarrow> request \<Rightarrow> int \<Rightarrow> int \<Rightarrow> hunt" where
  "hunt_from cv q t delta =
     (if delta < delta_bound
      then case hunt_at cv q t delta [-1, 1] of Miss \<Rightarrow> hunt_from cv q t (delta + STRIDE) | r \<Rightarrow> r
      else Miss)"
  by auto
termination
  by (relation "measure (\<lambda>(cv, q, t, delta). nat (delta_bound - delta))") (auto simp: STRIDE_def)

declare hunt_from.simps [simp del]

text \<open>The adjustment of a time whose daylight flag is not the one asked for.\<close>

definition adjust_isdst :: "(int \<Rightarrow> tm option) \<Rightarrow> request \<Rightarrow> int \<times> tm \<Rightarrow> (int \<times> tm) option" where
  "adjust_isdst cv q tx =
     (case tx of (t, x) \<Rightarrow>
        if isdst_differ (risdst q) (tm_isdst x)
        then (let dst_difference = (if risdst q = 0 then 1 else 0) - (if tm_isdst x = 0 then 1 else 0)
              in case hunt_from cv q t STRIDE of
                   Hit gt gtm \<Rightarrow> Some (gt, gtm)
                 | Overflow \<Rightarrow> None
                 | Miss \<Rightarrow> (let t = t + 3600 * dst_difference in map_option (\<lambda>x. (t, x)) (cv t)))
        else Some (t, x))"

section \<open>mktime\<close>

definition request_of :: "tm \<Rightarrow> request" where
  "request_of tp =
     (let mon_remainder = rmd (tm_mon tp) 12;
          negative_mon_remainder = (if mon_remainder < 0 then 1 else 0);
          mon_years = quot (tm_mon tp) 12 - negative_mon_remainder;
          year = tm_year tp + mon_years;
          mon_yday = MON_YDAY (leapyear year) ! nat (mon_remainder + 12 * negative_mon_remainder) - 1
      in \<lparr>ryear = year, ryday = mon_yday + tm_mday tp, rhour = tm_hour tp, rmin = tm_min tp,
          rsec = max 0 (min 59 (tm_sec tp)), risdst = tm_isdst tp\<rparr>)"

definition negative_offset_guess :: "int \<Rightarrow> int" where
  "negative_offset_guess off = wrap_i32 (0 - wrap_i32 off)"

definition first_guess :: "request \<Rightarrow> int \<Rightarrow> int" where
  "first_guess q off =
     ydhms_diff (ryear q) (ryday q) (rhour q) (rmin q) (rsec q) 70 0 0 0 (negative_offset_guess off)"

definition adjust_sec :: "(int \<Rightarrow> tm option) \<Rightarrow> request \<Rightarrow> int \<Rightarrow> int \<times> tm \<Rightarrow> (int \<times> tm) option" where
  "adjust_sec cv q sec_requested tx =
     (case tx of (t, x) \<Rightarrow>
        if sec_requested \<noteq> tm_sec x
        then (let adjustment = (if rsec q = 0 \<and> tm_sec x = 60 then 1 else 0) - rsec q + sec_requested
              in case checked_i64 (t + adjustment) of
                   None \<Rightarrow> None
                 | Some t \<Rightarrow> map_option (\<lambda>x. (t, x)) (cv t))
        else Some (t, x))"

text \<open>The result, the time and the normalized fields, and the offset the next call starts from.\<close>

definition glibc_mktime :: "(int \<Rightarrow> tm option) \<Rightarrow> tm \<Rightarrow> int \<Rightarrow> (int \<times> tm) option \<times> int" where
  "glibc_mktime cv tp off =
     (let q = request_of tp;
          t0 = first_guess q off
      in case (case probe 6 cv q t0 t0 t0 False of
                 None \<Rightarrow> None
               | Some (exact, t, x) \<Rightarrow> if exact then adjust_isdst cv q (t, x) else Some (t, x)) of
           None \<Rightarrow> (None, off)
         | Some (t, x) \<Rightarrow>
             (adjust_sec cv q (tm_sec tp) (t, x), wrap_i64 (wrap_i64 (t - t0) - negative_offset_guess off)))"

section \<open>Seconds of the calendar\<close>

definition calendar_secs :: "int \<Rightarrow> int \<Rightarrow> int \<Rightarrow> int \<Rightarrow> int \<Rightarrow> int" where
  "calendar_secs year yday h m s = (days_from_civil (year + 1900) 1 1 + yday) * 86400 + h * 3600 + m * 60 + s"

lemma floor25: "quot (a + (if a < 0 then 1 else 0)) 25 - (if a < 0 then 1 else 0) = a div 25"
proof (cases "a < 0")
  case True
  have "quot (a + 1) 25 = - ((- (a + 1)) div 25)" using True by (cases "a + 1 = 0") (simp_all add: quot_neg quot_def)
  moreover have "a div 25 = - ((- a - 1) div 25) - 1"
    by (rule int_div_pos_eq [of _ _ _ "24 - (- a - 1) mod 25"])
      (use minus_mult_div_eq_mod [of "- a - 1" 25] in simp_all)
  ultimately show ?thesis using True by simp
qed (simp add: quot_nonneg)

text \<open>The leap days before a year, as glibc counts them.\<close>

lemma leap_days_before:
  fixes y :: int
  defines "a4 \<equiv> shr y 2 + shr 1900 2 - (if y AND 3 = 0 then 1 else 0)"
  shows "a4 = (y + 1899) div 4" "a4 div 25 = (y + 1899) div 100" "shr (a4 div 25) 2 = (y + 1899) div 400"
proof -
  have "(y + 1899) div 4 = (y + 1900 - 1) div 4" by simp
  also have "\<dots> = (y + 1900) div 4 - (if (y + 1900) mod 4 = 0 then 1 else 0)"
    using div_step [of 4 "y + 1900"] by simp
  also have "(y + 1900) div 4 = y div 4 + 475" using div_mult_self2 [of 4 y 475] by simp
  also have "(y + 1900) mod 4 = y mod 4" using mod_mult_self2 [of y 4 475] by simp
  finally show a4: "a4 = (y + 1899) div 4" by (simp add: a4_def shr_div and3)
  show a100: "a4 div 25 = (y + 1899) div 100" unfolding a4 by (simp add: div_mult2_eq [symmetric])
  show "shr (a4 div 25) 2 = (y + 1899) div 400" unfolding a100 by (simp add: shr_div div_mult2_eq [symmetric])
qed

lemma jan1_days: "days_from_civil (y + 1900) 1 1 =
    365 * (y + 1899) + ((y + 1899) div 4 - (y + 1899) div 100 + (y + 1899) div 400) - 719162"
  by (simp add: days_linear Let_def) (simp add: add.commute [of 1899])

lemma ydhms_diff_eq:
  "ydhms_diff y1 d1 h1 m1 s1 y0 d0 h0 m0 s0 = calendar_secs y1 d1 h1 m1 s1 - calendar_secs y0 d0 h0 m0 s0"
  unfolding ydhms_diff_def Let_def floor25
  unfolding leap_days_before(3) unfolding leap_days_before(2) unfolding leap_days_before(1)
  unfolding calendar_secs_def jan1_days by (simp add: algebra_simps)

lemma leapyear_eq: "leapyear y = is_leap (y + 1900)"
proof -
  have r: "rmd y 100 \<noteq> 0 \<longleftrightarrow> y mod 100 \<noteq> 0"
    by (cases "0 \<le> y") (auto simp: rmd_nonneg rmd_neg zmod_zminus1_not_zero dvd_eq_mod_eq_0 [symmetric])
  have k: "quot y 100 = y div 100" if "y mod 100 = 0"
    using that by (cases "0 \<le> y") (auto simp: quot_nonneg quot_neg zdiv_zminus1_eq_if)
  have "(y + 1900) mod 4 = y mod 4" "(y + 1900) mod 100 = y mod 100"
    using mod_mult_self2 [of y 4 475] mod_mult_self2 [of y 100 19] by simp_all
  moreover have "(y div 100) mod 4 = 1 \<longleftrightarrow> (y + 1900) mod 400 = 0" if "y mod 100 = 0"
  proof -
    have "100 dvd y" using that by (simp add: dvd_eq_mod_eq_0)
    then obtain j where j: "y = 100 * j" by (rule dvdE)
    have "(y + 1900) mod 400 = 100 * ((j + 19) mod 4)" using mult_mod_right [of 100 "j + 19" 4] by (simp add: j algebra_simps)
    moreover have "(j + 19) mod 4 = 0 \<longleftrightarrow> j mod 4 = 1" by presburger
    ultimately show ?thesis by (simp add: j)
  qed
  moreover have "- quot 1900 100 AND 3 = 1" by (simp add: and3 quot_nonneg)
  ultimately show ?thesis unfolding leapyear_def is_leap_def and3 r using k by auto
qed

section \<open>What is asked for\<close>

text \<open>The seconds a broken-down time asks for, out-of-range fields carrying into the next larger ones.\<close>

definition asked :: "tm \<Rightarrow> int" where
  "asked x = days_from_civil (tm_year x + tm_mon x div 12 + 1900) (tm_mon x mod 12 + 1) (tm_mday x) * 86400 +
     tm_hour x * 3600 + tm_min x * 60 + tm_sec x"

definition req_secs :: "request \<Rightarrow> int" where
  "req_secs q = calendar_secs (ryear q) (ryday q) (rhour q) (rmin q) (rsec q)"

lemma mon_yday:
  assumes "0 \<le> m" "m < 12"
  shows "MON_YDAY (is_leap y) ! nat m = days_from_civil y (m + 1) 1 - days_from_civil y 1 1"
proof -
  have "m + 1 = 1 \<or> m + 1 = 2 \<or> m + 1 = 3 \<or> m + 1 = 4 \<or> m + 1 = 5 \<or> m + 1 = 6 \<or> m + 1 = 7 \<or> m + 1 = 8 \<or>
    m + 1 = 9 \<or> m + 1 = 10 \<or> m + 1 = 11 \<or> m + 1 = 12" using months [of "m + 1"] assms by simp
  then have "m = 0 \<or> m = 1 \<or> m = 2 \<or> m = 3 \<or> m = 4 \<or> m = 5 \<or> m = 6 \<or> m = 7 \<or> m = 8 \<or> m = 9 \<or> m = 10 \<or> m = 11"
    by simp
  then show ?thesis using year_day [of "m + 1" y 1]
    by (elim disjE) (simp_all add: month_starts MON_YDAY_def numeral_eq_Suc)
qed

lemma days_from_civil_shift: "days_from_civil y m d = days_from_civil y m 1 + d - 1"
  using days_from_civil_day [of y m "d - 1"] by simp

lemma request_asked: "req_secs (request_of tp) = asked tp - tm_sec tp + max 0 (min 59 (tm_sec tp))"
proof -
  define m where "m = tm_mon tp mod 12"
  define y where "y = tm_year tp + tm_mon tp div 12"
  have m: "rmd (tm_mon tp) 12 + 12 * (if rmd (tm_mon tp) 12 < 0 then 1 else 0) = m"
    using quot_floor(2) [of 12 "tm_mon tp"] by (simp add: m_def split: if_splits)
  have y: "tm_year tp + (quot (tm_mon tp) 12 - (if rmd (tm_mon tp) 12 < 0 then 1 else 0)) = y"
    using quot_floor(1) [of 12 "tm_mon tp"] by (simp add: y_def)
  have mon: "MON_YDAY (is_leap (y + 1900)) ! nat m = days_from_civil (y + 1900) (m + 1) 1 - days_from_civil (y + 1900) 1 1"
    by (rule mon_yday) (simp_all add: m_def)
  show ?thesis
    unfolding request_of_def Let_def m y req_secs_def calendar_secs_def asked_def leapyear_eq
    unfolding y_def [symmetric] m_def [symmetric]
    by (simp add: mon days_from_civil_shift [of "y + 1900" "m + 1" "tm_mday tp"])
qed

lemma asked_normal: "normal x \<Longrightarrow> asked x = wall x"
proof -
  assume n: "normal x"
  then have "0 \<le> tm_mon x" "tm_mon x < 12" by (simp_all add: normal_def valid_date_def)
  then show ?thesis by (simp add: asked_def wall_def)
qed

lemma tm_diff_eq: "normal x \<Longrightarrow> tm_diff q x = req_secs q - wall x"
  by (simp add: tm_diff_def ydhms_diff_eq req_secs_def calendar_secs_def normal_def wall_def)

lemma first_guess_eq: "first_guess q off = req_secs q - negative_offset_guess off"
  by (simp add: first_guess_def ydhms_diff_eq req_secs_def calendar_secs_def month_starts)

section \<open>The search over any conversion\<close>

lemma avg_stops: "avg ok bad = ok \<or> avg ok bad = bad \<Longrightarrow> \<bar>bad - ok\<bar> \<le> 1"
  by (auto simp: avg_eq)

lemma bisect_converts:
  assumes "cv 0 \<noteq> None" "cv 1 \<noteq> None" "cv (-1) \<noteq> None"
    and "cv bad = None" "found = None \<and> ok = 0 \<or> (\<exists>x. found = Some x \<and> cv ok = Some x)"
  shows "\<exists>x t. bisect cv ok bad found = Some (x, t) \<and> cv t = Some x"
  using assms
proof (induction cv ok bad found rule: bisect.induct)
  case (1 f ok bad found)
  show ?case
  proof (cases "avg ok bad = ok \<or> avg ok bad = bad")
    case True
    then have "\<bar>bad - ok\<bar> \<le> 1" by (rule avg_stops)
    then have "found = None \<Longrightarrow> bad = 0 \<or> bad = 1 \<or> bad = -1" using 1(7) by auto
    then show ?thesis using True 1(3-7) by (auto simp: bisect.simps [of f ok bad found] Let_def)
  next
    case False
    then show ?thesis using 1 by (auto simp: bisect.simps [of f ok bad found] Let_def split: option.splits)
  qed
qed

text \<open>What the search needs of a conversion: it is a local time of the instant, and works next to the epoch.\<close>

locale localtime =
  fixes cv :: "int \<Rightarrow> tm option"
  assumes conv: "cv t = Some x \<Longrightarrow> normal x \<and> wall x = t + tm_gmtoff x"
    and near: "cv 0 \<noteq> None" "cv 1 \<noteq> None" "cv (-1) \<noteq> None"
begin

lemma ranged_total: "\<exists>x t'. ranged_convert cv t = Some (x, t') \<and> cv t' = Some x"
  using bisect_converts [OF near, of t None 0] by (auto simp: ranged_convert_def split: option.splits)

lemma ranged_conv: "ranged_convert cv t = Some (x, t') \<Longrightarrow> cv t' = Some x"
  using ranged_total [of t] by auto

lemma probe_conv: "probe n cv q t t1 t2 dst2 = Some (e, t', x) \<Longrightarrow> cv t' = Some x"
proof (induction n arbitrary: t t1 t2 dst2)
  case (Suc n)
  obtain y u where r: "ranged_convert cv t = Some (y, u)" "cv u = Some y" using ranged_total by blast
  show ?case using Suc.prems Suc.IH r by (auto simp: Let_def split: if_splits)
qed simp

lemma hunt_at_conv: "hunt_at cv q t delta ds = Hit t' x \<Longrightarrow> cv t' = Some x"
  by (induction ds) (auto simp: Let_def split: option.splits if_splits)

lemma hunt_from_conv: "hunt_from cv q t delta = Hit t' x \<Longrightarrow> cv t' = Some x"
proof (induction "nat (delta_bound - delta)" arbitrary: delta rule: less_induct)
  case (less delta)
  show ?case
  proof (cases "hunt_at cv q t delta [-1, 1]")
    case Miss
    then have "delta < delta_bound" "hunt_from cv q t (delta + STRIDE) = Hit t' x"
      using less.prems by (auto simp: hunt_from.simps [of cv q t delta] simp del: hunt_at.simps split: if_splits)
    then show ?thesis using less.hyps [of "delta + STRIDE"] by (simp add: STRIDE_def)
  qed (use less.prems in \<open>auto simp: hunt_from.simps [of cv q t delta] simp del: hunt_at.simps dest: hunt_at_conv
      split: if_splits\<close>)
qed

lemma mktime_conv: "glibc_mktime cv tp off = (Some (t, x), off') \<Longrightarrow> cv t = Some x"
  by (auto simp: glibc_mktime_def adjust_isdst_def adjust_sec_def Let_def
      dest: probe_conv hunt_from_conv split: option.splits if_splits hunt.splits)

text \<open>
  When the first guess lands where the zone has the offset of the instant asked for, the second probe finds the
  instant.
\<close>

lemma probe_found:
  assumes "cv t0 = Some x0" "tm_gmtoff x0 = u" "cv (req_secs q - u) = Some x" "tm_gmtoff x = u"
  shows "probe 6 cv q t0 t0 t0 False = Some (True, req_secs q - u, x)"
proof -
  have d: "cv t = Some y \<Longrightarrow> tm_diff q y = req_secs q - t - tm_gmtoff y" for t y
    using conv [of t y] by (simp add: tm_diff_eq)
  have found: "probe (Suc n) cv q (req_secs q - u) t1 t2 d' = Some (True, req_secs q - u, x)" for n t1 t2 d'
    using assms(3,4) d [OF assms(3)] by (simp add: ranged_convert_def)
  show ?thesis
  proof (cases "t0 = req_secs q - u")
    case True
    then show ?thesis using found [of 5 t0 t0 False] by simp
  next
    case False
    then have "probe 6 cv q t0 t0 t0 False = probe 5 cv q (req_secs q - u) t0 t0 (tm_isdst x0 \<noteq> 0)"
      using probe.simps(2) [of 5 cv q t0 t0 t0 False] assms(1,2) d [OF assms(1)] by (simp add: ranged_convert_def)
    then show ?thesis using found [of 4 t0 t0 "tm_isdst x0 \<noteq> 0"] by simp
  qed
qed

lemma normal_sec: "normal x \<Longrightarrow> wall x mod 60 = tm_sec x"
proof -
  assume n: "normal x"
  have "wall x = tm_sec x + (days_from_civil (tm_year x + 1900) (tm_mon x + 1) (tm_mday x) * 1440 + tm_hour x * 60 + tm_min x) * 60"
    by (simp add: wall_def)
  then have "wall x mod 60 = tm_sec x mod 60" by (metis mod_mult_self1)
  then show ?thesis using n by (simp add: normal_def)
qed

lemma req_sec: "0 \<le> rsec q \<Longrightarrow> rsec q < 60 \<Longrightarrow> req_secs q mod 60 = rsec q"
proof -
  assume s: "0 \<le> rsec q" "rsec q < 60"
  have "req_secs q = rsec q + ((days_from_civil (ryear q + 1900) 1 1 + ryday q) * 1440 + rhour q * 60 + rmin q) * 60"
    by (simp add: req_secs_def calendar_secs_def)
  then have "req_secs q mod 60 = rsec q mod 60" by (metis mod_mult_self1)
  then show ?thesis using s by simp
qed

lemma mktime_found:
  assumes q: "q = request_of tp"
    and guess: "cv (req_secs q - negative_offset_guess off) = Some x0" "tm_gmtoff x0 = u"
    and at: "cv (req_secs q - u) = Some x1" "tm_gmtoff x1 = u" "\<not> isdst_differ (tm_isdst tp) (tm_isdst x1)"
    and res: "cv (asked tp - u) = Some x" "in_i64 (asked tp - u)" "in_i32 u"
  shows "glibc_mktime cv tp off = (Some (asked tp - u, x), - u)"
proof -
  define s where "s = max 0 (min 59 (tm_sec tp))"
  have rs: "rsec q = s" by (simp add: q request_of_def Let_def s_def)
  have ra: "req_secs q = asked tp - tm_sec tp + s" using request_asked [of tp] by (simp add: q s_def)
  have "tm_sec x1 = s"
    using normal_sec [of x1] conv [OF at(1)] req_sec [of q] at(2) by (simp add: rs s_def)
  moreover have "risdst q = tm_isdst tp" by (simp add: q request_of_def Let_def)
  ultimately have "adjust_sec cv q (tm_sec tp) (req_secs q - u, x1) = Some (asked tp - u, x)"
    using res(1,2) at(1) ra rs by (auto simp: adjust_sec_def Let_def checked_i64_def s_def)
  moreover have "probe 6 cv q (first_guess q off) (first_guess q off) (first_guess q off) False = Some (True, req_secs q - u, x1)"
    unfolding first_guess_eq by (rule probe_found [OF guess at(1,2)])
  moreover have "wrap_i64 (wrap_i64 (req_secs q - u - first_guess q off) - negative_offset_guess off) = - u"
  proof -
    have n: "in_i32 (negative_offset_guess off)" by (simp add: negative_offset_guess_def wrap_i32_range)
    then have "wrap_i64 (negative_offset_guess off - u) = negative_offset_guess off - u"
      using res(3) by (intro wrap_i64_id) (auto simp: in_i32_def in_i64_def)
    then show ?thesis using res(3) by (simp add: first_guess_eq wrap_i64_id in_i32_def in_i64_def)
  qed
  ultimately show ?thesis
    unfolding glibc_mktime_def Let_def q [symmetric]
    using at(3) \<open>risdst q = tm_isdst tp\<close> by (simp add: adjust_isdst_def)
qed

end

section \<open>Over a sim's zone\<close>

lemma convert_broken:
  assumes "zone_wf z" "convert os z t = Some x"
  obtains ty where "zone_at os z t = Some ty" "x = broken (t + utoff ty) ty" "in_i32 (utoff ty)" "\<bar>t\<bar> < 2 ^ 56"
proof -
  obtain ty where ty: "zone_at os z t = Some ty" using zone_at_total [OF assms(1)] .
  have off: "in_i32 (utoff ty)" using zone_at_types [OF ty] assms(1) by (simp add: zone_wf_def)
  have fits: "in_i32 (fst (civil_from_days ((t + utoff ty) div 86400)) - 1900)" "x = broken (t + utoff ty) ty"
    using assms(2) by (simp_all add: convert_def break_down_eq [OF assms(1) ty] split: if_splits)
  then show thesis using that ty off year_span [OF _ off] by blast
qed

lemma year_near:
  assumes "\<bar>k\<bar> \<le> 1000000"
  shows "\<bar>fst (civil_from_days k)\<bar> < 10000"
proof -
  obtain y m d where c: "civil_from_days k = (y, m, d)" by (cases "civil_from_days k") auto
  have k: "days_from_civil y 1 1 \<le> k" "k < days_from_civil (y + 1) 1 1"
    using year_bounds [OF days_of_civil(1) [OF c]] days_of_civil(2) [OF c] by simp_all
  have "y < 10000" using jan1_mono [of 1970 y] k(1) assms by (simp add: month_starts) linarith
  moreover have "- 10000 < y" using jan1_mono [of "y + 1" 1970] k(2) assms by (simp add: month_starts) linarith
  ultimately show ?thesis using c by simp
qed

lemma convert_near:
  assumes "zone_wf z" "\<bar>t\<bar> \<le> 1"
  shows "convert os z t \<noteq> None"
proof -
  obtain ty where ty: "zone_at os z t = Some ty" using zone_at_total [OF assms(1)] .
  have off: "in_i32 (utoff ty)" using zone_at_types [OF ty] assms(1) by (simp add: zone_wf_def)
  define k where "k = (t + utoff ty) div 86400"
  have "k * 86400 \<le> t + utoff ty" "t + utoff ty < k * 86400 + 86400"
    unfolding k_def using div_mult_mod_eq [of "t + utoff ty" 86400] pos_mod_sign [of 86400 "t + utoff ty"]
      pos_mod_bound [of 86400 "t + utoff ty"] by (simp_all del: div_mult_mod_eq)
  then have "\<bar>k\<bar> \<le> 1000000" using assms(2) off unfolding in_i32_def by auto
  then show ?thesis
    using year_near [of k] unfolding convert_def break_down_eq [OF assms(1) ty] k_def [symmetric] by (auto simp: in_i32_def)
qed

lemma convert_localtime: "zone_wf z \<Longrightarrow> localtime (convert os z)"
proof
  assume z: "zone_wf z"
  show "normal x \<and> wall x = t + tm_gmtoff x" if "convert os z t = Some x" for t x
    using convert_broken [OF z that] broken_normal broken_fields by metis
  show "convert os z 0 \<noteq> None" "convert os z 1 \<noteq> None" "convert os z (-1) \<noteq> None" using convert_near [OF z] by simp_all
qed

interpretation resolved_time: localtime "convert os (rzone (resolve os rd link st))" for os rd link st
  using resolve_ok by (intro convert_localtime) (simp add: zone_ok_def)

lemma guess_back: "in_i32 u \<Longrightarrow> negative_offset_guess (- u) = u"
proof (cases "u = - (2 ^ 31)")
  case False
  moreover assume "in_i32 u"
  ultimately show ?thesis by (simp add: negative_offset_guess_def wrap_i32_id in_i32_def)
qed (simp add: negative_offset_guess_def wrap_i32_def)


lemma utc_zone: "rzone (resolve Linux (\<lambda>_. None) None \<lparr>serial = 0, stz = None, tzdir = None\<rparr>) = rzone utc"
  by (simp add: resolve_def local_file_def Let_def)

lemma utc_convert:
  "\<bar>t\<bar> < 10000000 \<Longrightarrow> convert Linux (rzone utc) t = Some (broken t \<lparr>utoff = 0, isdst = False, abbr = ''UTC''\<rparr>)"
proof -
  assume "\<bar>t\<bar> < 10000000"
  then have "\<bar>t div 86400\<bar> \<le> 1000000" by auto
  then have "\<bar>fst (civil_from_days (t div 86400))\<bar> < 10000" using year_near by blast
  moreover have "zone_wf (rzone utc)" using utc_ok by (simp add: zone_ok_def)
  moreover have "zone_at Linux (rzone utc) t = Some \<lparr>utoff = 0, isdst = False, abbr = ''UTC''\<rparr>"
    by (simp add: zone_at_def utc_def from_rule_def rule_at_def Let_def partition_point_def)
  ultimately show ?thesis by (auto simp: convert_def break_down_eq in_i32_def)
qed




end
