(* ===== verification/Mktime_Tzcode.thy ===== *)
theory Mktime_Tzcode
  imports Mktime_Glibc
begin

text \<open>
  mktime(3) as tzcode computes it (module \<^verbatim>\<open>tzcode\<close> of \<^verbatim>\<open>crates/snare-interpose/src/os/tz_mktime.rs\<close>): the fields are
  normalized, the whole range of \<^verbatim>\<open>time_t\<close> is bisected for the instant with those fields, and a time with the
  wrong daylight flag is moved into each other type. Sums of \<^verbatim>\<open>i32\<close> and \<^verbatim>\<open>i64\<close> that the code does not check
  wrap, as in a release build. The conversion of a time in the zone is an argument.
\<close>

section \<open>Normalizing the fields\<close>

definition YEAR_LENGTHS :: "bool \<Rightarrow> int" where
  "YEAR_LENGTHS leap = (if leap then 366 else 365)"

definition MON_LENGTHS :: "bool \<Rightarrow> int list" where
  "MON_LENGTHS leap = [31, if leap then 29 else 28, 31, 30, 31, 30, 31, 31, 30, 31, 30, 31]"

definition isleap :: "int \<Rightarrow> bool" where
  "isleap y \<longleftrightarrow> rmd y 4 = 0 \<and> (rmd y 100 \<noteq> 0 \<or> rmd y 400 = 0)"

text \<open>The increments give \<open>None\<close> where they report an overflow.\<close>

definition increment_overflow :: "int \<Rightarrow> int \<Rightarrow> int option" where
  "increment_overflow n delta = (if in_i32 (n + delta) then Some (n + delta) else None)"

definition long_increment_overflow :: "int \<Rightarrow> int \<Rightarrow> int option" where
  "long_increment_overflow n delta = (if in_i64 (n + delta) then Some (n + delta) else None)"

definition tens :: "int \<Rightarrow> int \<Rightarrow> int" where
  "tens units base = (if 0 \<le> units then quot units base else -1 - quot (-1 - units) base)"

definition normalize_overflow :: "int \<Rightarrow> int \<Rightarrow> int \<Rightarrow> (int \<times> int) option" where
  "normalize_overflow tens_slot units base =
     (let delta = tens units base
      in map_option (\<lambda>s. (s, wrap_i32 (units - wrap_i32 (delta * base)))) (increment_overflow tens_slot delta))"

definition long_normalize_overflow :: "int \<Rightarrow> int \<Rightarrow> int \<Rightarrow> (int \<times> int) option" where
  "long_normalize_overflow tens_slot units base =
     (let delta = tens units base
      in map_option (\<lambda>s. (s, wrap_i32 (units - wrap_i32 (delta * base)))) (long_increment_overflow tens_slot delta))"

text \<open>The three loops that bring the day into its month, over the year, the day and the month.\<close>

function days_up :: "int \<Rightarrow> int \<Rightarrow> int \<Rightarrow> (int \<times> int) option" where
  "days_up y mday mon =
     (if mday \<le> 0
      then case long_increment_overflow y (-1) of
             None \<Rightarrow> None
           | Some y \<Rightarrow> days_up y (mday + YEAR_LENGTHS (isleap (y + (if 1 < mon then 1 else 0)))) mon
      else Some (y, mday))"
  by auto
termination
  by (relation "measure (\<lambda>(y, mday, mon). nat (1 - mday))") (auto simp: YEAR_LENGTHS_def)

declare days_up.simps [simp del]

function days_down :: "int \<Rightarrow> int \<Rightarrow> int \<Rightarrow> (int \<times> int) option" where
  "days_down y mday mon =
     (if 366 < mday
      then case long_increment_overflow y 1 of
             None \<Rightarrow> None
           | Some y' \<Rightarrow> days_down y' (mday - YEAR_LENGTHS (isleap (y + (if 1 < mon then 1 else 0)))) mon
      else Some (y, mday))"
  by auto
termination
  by (relation "measure (\<lambda>(y, mday, mon). nat mday)") (auto simp: YEAR_LENGTHS_def)

declare days_down.simps [simp del]

lemma MON_LENGTHS_pos: "at_index (MON_LENGTHS leap) i = Some n \<Longrightarrow> 28 \<le> n"
  by (auto simp: at_index_def MON_LENGTHS_def less_Suc_eq split: if_splits)

function months_on :: "int \<Rightarrow> int \<Rightarrow> int \<Rightarrow> (int \<times> int \<times> int) option" where
  "months_on y mday mon =
     (case (if mon < 0 then None else at_index (MON_LENGTHS (isleap y)) (nat mon)) of
        None \<Rightarrow> None
      | Some i \<Rightarrow>
          if mday \<le> i then Some (y, mday, mon)
          else if 12 \<le> mon + 1
          then (case long_increment_overflow y 1 of None \<Rightarrow> None | Some y \<Rightarrow> months_on y (mday - i) 0)
          else months_on y (mday - i) (mon + 1))"
  by auto
termination
  by (relation "measure (\<lambda>(y, mday, mon). nat mday)") (auto dest!: MON_LENGTHS_pos split: if_splits)

declare months_on.simps [simp del]

definition carry_date :: "int \<Rightarrow> int \<Rightarrow> int \<Rightarrow> (int \<times> int \<times> int) option" where
  "carry_date y mday mon =
     (case days_up y mday mon of
        None \<Rightarrow> None
      | Some (y, mday) \<Rightarrow>
          (case days_down y mday mon of None \<Rightarrow> None | Some (y, mday) \<Rightarrow> months_on y mday mon))"

definition carry_time :: "bool \<Rightarrow> tm \<Rightarrow> tm option" where
  "carry_time do_norm_secs x =
     (case (if do_norm_secs then normalize_overflow (tm_min x) (tm_sec x) 60 else Some (tm_min x, tm_sec x)) of
        None \<Rightarrow> None
      | Some (mi, se) \<Rightarrow>
          (case normalize_overflow (tm_hour x) mi 60 of
             None \<Rightarrow> None
           | Some (ho, mi) \<Rightarrow>
               map_option (\<lambda>(da, ho). x\<lparr>tm_sec := se, tm_min := mi, tm_hour := ho, tm_mday := da\<rparr>)
                 (normalize_overflow (tm_mday x) ho 24)))"

text \<open>The fields in range, \<open>None\<close> where the year does not fit.\<close>

definition normalized :: "bool \<Rightarrow> tm \<Rightarrow> tm option" where
  "normalized do_norm_secs tmp =
     (case carry_time do_norm_secs tmp of
        None \<Rightarrow> None
      | Some x \<Rightarrow>
          (case long_normalize_overflow (tm_year x) (tm_mon x) 12 of
             None \<Rightarrow> None
           | Some (y, mon) \<Rightarrow>
               (case Option.bind (long_increment_overflow y 1900) (\<lambda>y. carry_date y (tm_mday x) mon) of
                  None \<Rightarrow> None
                | Some (y, mday, mon) \<Rightarrow>
                    (case long_increment_overflow y (-1900) of
                       None \<Rightarrow> None
                     | Some y \<Rightarrow>
                         if wrap_i32 y \<noteq> y \<or> wrap_i32 y < 0 then None
                         else Some (x\<lparr>tm_mday := mday, tm_mon := mon, tm_year := wrap_i32 y\<rparr>)))))"

text \<open>The seconds kept apart: those outside a minute are added to the instant found.\<close>

definition split_secs :: "tm \<Rightarrow> (tm \<times> int) option" where
  "split_secs x =
     (if 0 \<le> tm_sec x \<and> tm_sec x < 60 then Some (x, 0)
      else if tm_year x + 1900 < 1970
      then map_option (\<lambda>s. (x\<lparr>tm_sec := 59\<rparr>, s)) (increment_overflow (tm_sec x) (1 - 60))
      else Some (x\<lparr>tm_sec := 0\<rparr>, tm_sec x))"

section \<open>The search\<close>

definition tmcomp :: "tm \<Rightarrow> tm \<Rightarrow> int" where
  "tmcomp a b =
     (if tm_year a \<noteq> tm_year b then if tm_year a > tm_year b then 1 else -1
      else case List.find (\<lambda>d. d \<noteq> 0)
          [tm_mon a - tm_mon b, tm_mday a - tm_mday b, tm_hour a - tm_hour b, tm_min a - tm_min b, tm_sec a - tm_sec b] of
        Some d \<Rightarrow> d | None \<Rightarrow> 0)"

definition ttis :: "zone \<Rightarrow> local_type list" where
  "ttis z =
     (if zquirk z = Untyped then []
      else (let footer = (case zrule z of None \<Rightarrow> [] | Some r \<Rightarrow> (case dst r of None \<Rightarrow> [] | Some d \<Rightarrow> [fst d, std r]))
            in if posix z then if footer \<noteq> [] then footer else types z else types z @ footer))"

text \<open>The middle of the range, and which way to go from it.\<close>

definition middle :: "int \<Rightarrow> int \<Rightarrow> int" where
  "middle lo hi = max lo (min hi (quot lo 2 + quot hi 2))"

definition direction :: "(int \<Rightarrow> tm option) \<Rightarrow> tm \<Rightarrow> int \<Rightarrow> int" where
  "direction cv yourtm t = (case cv t of None \<Rightarrow> if 0 < t then 1 else -1 | Some mine \<Rightarrow> tmcomp mine yourtm)"

text \<open>
  The bisection. Rust's \<^verbatim>\<open>clamp\<close> panics on an empty range, which the loop never has; a range that becomes empty is a
  failure.
\<close>

definition tz_narrow :: "int \<Rightarrow> int \<Rightarrow> int \<Rightarrow> int \<Rightarrow> (int \<times> int) option" where
  "tz_narrow dir t lo hi =
     (if t = lo
      then if \<not> in_i64 (t + 1) \<or> hi < lo + 1 then None
           else Some (if 0 < dir then (lo + 1, t + 1) else (t + 1, hi))
      else if t = hi
      then if \<not> in_i64 (t - 1) \<or> hi - 1 < lo then None
           else Some (if 0 < dir then (lo, t - 1) else (t - 1, hi - 1))
      else Some (if 0 < dir then (lo, t) else (t, hi)))"

lemma tz_narrow_less:
  "tz_narrow dir (middle lo hi) lo hi = Some (lo', hi') \<Longrightarrow> \<not> hi < lo \<Longrightarrow> nat (hi' - lo' + 1) < nat (hi - lo + 1)"
  by (auto simp: tz_narrow_def middle_def split: if_splits)

function tz_search :: "(int \<Rightarrow> tm option) \<Rightarrow> tm \<Rightarrow> int \<Rightarrow> int \<Rightarrow> int option" where
  "tz_search cv yourtm lo hi =
     (if hi < lo then None
      else if direction cv yourtm (middle lo hi) = 0 then Some (middle lo hi)
      else case tz_narrow (direction cv yourtm (middle lo hi)) (middle lo hi) lo hi of
             None \<Rightarrow> None
           | Some (lo', hi') \<Rightarrow> tz_search cv yourtm lo' hi')"
  by auto
termination
  by (relation "measure (\<lambda>(cv, x, lo, hi). nat (hi - lo + 1))") (auto dest: tz_narrow_less)

declare tz_search.simps [simp del]

definition other_types :: "local_type list \<Rightarrow> bool \<Rightarrow> int \<Rightarrow> int list" where
  "other_types tys wanted t =
     concat (map (\<lambda>i. map (\<lambda>j. t + utoff j - utoff i) (filter (\<lambda>j. isdst j \<noteq> wanted) (rev tys)))
       (filter (\<lambda>i. isdst i = wanted) (rev tys)))"

definition matches :: "(int \<Rightarrow> tm option) \<Rightarrow> tm \<Rightarrow> int \<Rightarrow> bool" where
  "matches cv yourtm t =
     (case cv t of None \<Rightarrow> False | Some other \<Rightarrow> tmcomp other yourtm = 0 \<and> tm_isdst other = tm_isdst yourtm)"

text \<open>The instant with the daylight flag asked for.\<close>

definition settle :: "(int \<Rightarrow> tm option) \<Rightarrow> local_type list \<Rightarrow> tm \<Rightarrow> int \<Rightarrow> int option" where
  "settle cv tys yourtm t =
     (let yourtm = (if length tys = 1 \<and> 0 < tm_isdst yourtm then yourtm\<lparr>tm_isdst := 0\<rparr> else yourtm)
      in case cv t of
           None \<Rightarrow> None
         | Some mine \<Rightarrow>
             if tm_isdst yourtm < 0 \<or> tm_isdst mine = tm_isdst yourtm then Some t
             else List.find (matches cv yourtm) (other_types tys (tm_isdst yourtm \<noteq> 0) t))"

definition time2sub :: "(int \<Rightarrow> tm option) \<Rightarrow> local_type list \<Rightarrow> tm \<Rightarrow> bool \<Rightarrow> (int \<times> tm) option" where
  "time2sub cv tys tmp do_norm_secs =
     (case Option.bind (normalized do_norm_secs tmp) split_secs of
        None \<Rightarrow> None
      | Some (yourtm, saved_seconds) \<Rightarrow>
          (case Option.bind (tz_search cv yourtm (- (2 ^ 63)) (2 ^ 63 - 1)) (settle cv tys yourtm) of
             None \<Rightarrow> None
           | Some t \<Rightarrow>
               (case checked_i64 (t + saved_seconds) of
                  None \<Rightarrow> None
                | Some newt \<Rightarrow> map_option (\<lambda>x. (newt, x)) (cv newt))))"

definition time2 :: "(int \<Rightarrow> tm option) \<Rightarrow> local_type list \<Rightarrow> tm \<Rightarrow> (int \<times> tm) option" where
  "time2 cv tys tmp = (case time2sub cv tys tmp False of Some r \<Rightarrow> Some r | None \<Rightarrow> time2sub cv tys tmp True)"

section \<open>mktime\<close>

fun retry :: "(int \<Rightarrow> tm option) \<Rightarrow> local_type list \<Rightarrow> (local_type \<times> local_type) list \<Rightarrow> tm \<Rightarrow> int option \<times> tm" where
  "retry cv tys [] x = (None, x)"
| "retry cv tys ((same, other) # ps) x =
     (let shift = wrap_i32 (utoff other - utoff same);
          moved = x\<lparr>tm_sec := wrap_i32 (tm_sec x + shift), tm_isdst := if tm_isdst x = 0 then 1 else 0\<rparr>
      in case time2 cv tys moved of
           Some (t, x) \<Rightarrow> (Some t, x)
         | None \<Rightarrow>
             retry cv tys ps
               (moved\<lparr>tm_sec := wrap_i32 (tm_sec moved - shift), tm_isdst := if tm_isdst moved = 0 then 1 else 0\<rparr>))"

text \<open>The result and the fields it leaves; the outer option is a panic on an index out of range.\<close>

definition tzcode_mktime :: "zone \<Rightarrow> tm \<Rightarrow> (int option \<times> tm) option" where
  "tzcode_mktime z tmp =
     (let cv = convert MacOS z;
          tmp = (if 1 < tm_isdst tmp then tmp\<lparr>tm_isdst := 1\<rparr> else tmp)
      in case time2 cv (ttis z) tmp of
           Some (t, x) \<Rightarrow> Some (Some t, x)
         | None \<Rightarrow>
             (let tmp = (if tm_isdst tmp < 0 then tmp\<lparr>tm_isdst := 0\<rparr> else tmp)
              in if zquirk z = Untyped then Some (None, tmp)
                 else map_option
                   (\<lambda>recent.
                      let d = (tm_isdst tmp \<noteq> 0);
                          pairs = concat (map (\<lambda>same. map (\<lambda>other. (same, other)) (filter (\<lambda>ty. isdst ty \<noteq> d) recent))
                            (filter (\<lambda>ty. isdst ty = d) recent))
                      in retry cv (ttis z) pairs tmp)
                   (recent_types z)))"

section \<open>Normalizing keeps the time asked for\<close>

lemma tens_div:
  assumes "0 < b"
  shows "tens u b = u div b"
proof (cases "0 \<le> u")
  case False
  then have "tens u b = - 1 - (- 1 - u) div b" using assms by (simp add: tens_def quot_nonneg)
  moreover have "u div b = - 1 - (- 1 - u) div b"
    by (rule int_div_pos_eq [of _ _ _ "b - 1 - (- 1 - u) mod b"])
      (use minus_mult_div_eq_mod [of "- 1 - u" b] pos_mod_sign [OF assms, of "- 1 - u"] pos_mod_bound [OF assms, of "- 1 - u"]
        in \<open>simp_all add: algebra_simps\<close>)
  ultimately show ?thesis by simp
qed (simp add: tens_def quot_nonneg assms)

lemma wrap_i32_diff: "wrap_i32 (a - wrap_i32 c) = wrap_i32 (a - c)"
proof -
  have "a - ((c + 2 ^ 31) mod 2 ^ 32 - 2 ^ 31) + 2 ^ 31 = a + 2 ^ 32 - (c + 2 ^ 31) mod 2 ^ 32" by simp
  moreover have "(a + 2 ^ 32 - (c + 2 ^ 31) mod 2 ^ 32) mod 2 ^ 32 = (a + 2 ^ 32 - (c + 2 ^ 31)) mod (2 ^ 32 :: int)"
    by (rule mod_diff_right_eq)
  moreover have "a + 2 ^ 32 - (c + 2 ^ 31) = a - c + 2 ^ 31" by simp
  ultimately show ?thesis unfolding wrap_i32_def by presburger
qed

lemma units_mod: "0 < b \<Longrightarrow> b < 2 ^ 31 \<Longrightarrow> wrap_i32 (u - wrap_i32 (tens u b * b)) = u mod b"
  unfolding wrap_i32_diff
  by (subst wrap_i32_id) (simp_all add: tens_div minus_div_mult_eq_mod in_i32_def less_imp_le order.strict_trans [OF pos_mod_bound]
      order.trans [OF _ pos_mod_sign])

lemma normalize_ok:
  "normalize_overflow s u b = Some (s', u') \<Longrightarrow> 0 < b \<Longrightarrow> b < 2 ^ 31 \<Longrightarrow> s' = s + u div b \<and> u' = u mod b"
  by (auto simp: normalize_overflow_def increment_overflow_def Let_def tens_div [symmetric] units_mod split: if_splits)

lemma long_normalize_ok:
  "long_normalize_overflow s u b = Some (s', u') \<Longrightarrow> 0 < b \<Longrightarrow> b < 2 ^ 31 \<Longrightarrow> s' = s + u div b \<and> u' = u mod b"
  by (auto simp: long_normalize_overflow_def long_increment_overflow_def Let_def tens_div [symmetric] units_mod split: if_splits)

definition day_secs :: "tm \<Rightarrow> int" where
  "day_secs x = tm_mday x * 86400 + tm_hour x * 3600 + tm_min x * 60 + tm_sec x"

lemma carry_step: "(a + u div b) * (b * k) + u mod b * k = a * (b * k) + u * (k::int)"
proof -
  have "u div b * (b * k) + u mod b * k = (u div b * b + u mod b) * k"
    by (simp only: distrib_right mult.assoc)
  then have "u div b * (b * k) + u mod b * k = u * k" by simp
  then show ?thesis by (simp only: distrib_right add.assoc)
qed

lemma carry_time_ok:
  assumes "carry_time ns x = Some x'"
  shows "day_secs x' = day_secs x" "tm_year x' = tm_year x" "tm_mon x' = tm_mon x" "tm_isdst x' = tm_isdst x"
    "0 \<le> tm_hour x' \<and> tm_hour x' < 24 \<and> 0 \<le> tm_min x' \<and> tm_min x' < 60"
    "if ns then 0 \<le> tm_sec x' \<and> tm_sec x' < 60 else tm_sec x' = tm_sec x"
proof -
  obtain mi se where s: "(if ns then normalize_overflow (tm_min x) (tm_sec x) 60 else Some (tm_min x, tm_sec x)) = Some (mi, se)"
    using assms by (auto simp: carry_time_def split: option.splits)
  obtain ho mi' where h: "normalize_overflow (tm_hour x) mi 60 = Some (ho, mi')"
    using assms s by (auto simp: carry_time_def split: option.splits)
  obtain da ho' where d: "normalize_overflow (tm_mday x) ho 24 = Some (da, ho')"
    and x': "x' = x\<lparr>tm_sec := se, tm_min := mi', tm_hour := ho', tm_mday := da\<rparr>"
    using assms s h by (auto simp: carry_time_def split: option.splits)
  have hm: "ho = tm_hour x + mi div 60" "mi' = mi mod 60" using normalize_ok [OF h] by simp_all
  have dh: "da = tm_mday x + ho div 24" "ho' = ho mod 24" using normalize_ok [OF d] by simp_all
  have ms: "mi * 60 + se = tm_min x * 60 + tm_sec x" "if ns then 0 \<le> se \<and> se < 60 else se = tm_sec x"
    using s normalize_ok [of "tm_min x" "tm_sec x" 60 mi se] carry_step [of "tm_min x" "tm_sec x" 60 1]
    by (auto split: if_splits)
  have "day_secs x' = (tm_mday x + ho div 24) * (24 * 3600) + ho mod 24 * 3600 + mi mod 60 * 60 + se"
    by (simp add: day_secs_def x' hm(2) dh)
  also have "\<dots> = tm_mday x * 86400 + (tm_hour x + mi div 60) * (60 * 60) + mi mod 60 * 60 + se"
    unfolding carry_step hm(1) by simp
  also have "\<dots> = tm_mday x * 86400 + tm_hour x * 3600 + (mi * 60 + se)"
    using carry_step [of "tm_hour x" mi 60 60] by simp
  finally show "day_secs x' = day_secs x" unfolding ms(1) by (simp add: day_secs_def)
  show "tm_year x' = tm_year x" "tm_mon x' = tm_mon x" "tm_isdst x' = tm_isdst x" by (simp_all add: x')
  show "0 \<le> tm_hour x' \<and> tm_hour x' < 24 \<and> 0 \<le> tm_min x' \<and> tm_min x' < 60" by (simp add: x' hm(2) dh(2))
  show "if ns then 0 \<le> tm_sec x' \<and> tm_sec x' < 60 else tm_sec x' = tm_sec x" using ms(2) by (simp add: x')
qed

lemma rmd_zero: "0 < b \<Longrightarrow> rmd a b = 0 \<longleftrightarrow> a mod b = 0"
  by (cases "0 \<le> a") (auto simp: rmd_nonneg rmd_neg dvd_eq_mod_eq_0 [symmetric])

lemma isleap_eq: "isleap y = is_leap y"
  by (simp add: isleap_def is_leap_def rmd_zero)

text \<open>A year later, and a month later.\<close>

lemma year_step:
  "days_from_civil (y + 1) m d = days_from_civil y m d + YEAR_LENGTHS (is_leap (y + (if 2 < m then 1 else 0)))"
proof -
  define L :: "int \<Rightarrow> int" where "L k = k div 4 - k div 100 + k div 400" for k
  define S where "S = (153 * ((m + 9) mod 12) + 2) div 5"
  have lin: "days_from_civil z m d = (if m \<le> 2 then 365 * (z - 1) + L (z - 1) else 365 * z + L z) + S + d - 719469"
    for z unfolding days_linear L_def S_def Let_def by simp
  have "L k = L (k - 1) + (if is_leap k then 1 else 0)" for k unfolding L_def by (rule leap_count)
  from this [of y] this [of "y + 1"] show ?thesis unfolding lin YEAR_LENGTHS_def by (simp split: if_splits)
qed

lemma month_step:
  assumes "1 \<le> m" "m \<le> 12"
  shows "days_from_civil y m (d + month_length y m) =
    (if m < 12 then days_from_civil y (m + 1) d else days_from_civil (y + 1) 1 d)"
proof -
  have "valid_date y m (month_length y m)" using assms month_length_ge [of y m] by (simp add: valid_date_def)
  from days_next [OF this] show ?thesis
    using days_from_civil_shift [of y m "d + month_length y m"] days_from_civil_shift [of y m "month_length y m"]
      days_from_civil_shift [of y "m + 1" d] days_from_civil_shift [of "y + 1" 1 d]
    by (simp add: next_date_def split: if_splits)
qed

lemma days_add: "days_from_civil y m (d + k) = days_from_civil y m d + k"
  unfolding days_from_civil_shift [of y m "d + k"] days_from_civil_shift [of y m d] by simp

lemma days_up_ok:
  "days_up y d m = Some (y', d') \<Longrightarrow> days_from_civil y' (m + 1) d' = days_from_civil y (m + 1) d \<and> 1 \<le> d'"
proof (induction y d m rule: days_up.induct)
  case (1 y d m)
  show ?case
  proof (cases "d \<le> 0")
    case True
    have "days_from_civil (y - 1) (m + 1) (d + YEAR_LENGTHS (is_leap (y - 1 + (if 1 < m then 1 else 0)))) =
        days_from_civil y (m + 1) d"
      using year_step [of "y - 1" "m + 1" d] unfolding days_add by (simp split: if_splits)
    then show ?thesis using 1 True
      by (auto simp: days_up.simps [of y d m] isleap_eq long_increment_overflow_def split: if_splits)
  qed (use 1 in \<open>auto simp: days_up.simps [of y d m]\<close>)
qed

lemma days_down_ok:
  "days_down y d m = Some (y', d') \<Longrightarrow> 1 \<le> d \<Longrightarrow>
   days_from_civil y' (m + 1) d' = days_from_civil y (m + 1) d \<and> 1 \<le> d'"
proof (induction y d m rule: days_down.induct)
  case (1 y d m)
  show ?case
  proof (cases "366 < d")
    case True
    let ?len = "YEAR_LENGTHS (is_leap (y + (if 1 < m then 1 else 0)))"
    have "days_from_civil (y + 1) (m + 1) (d - ?len) = days_from_civil y (m + 1) d"
      using year_step [of y "m + 1" "d - ?len"] days_add [of y "m + 1" "d - ?len" ?len] by simp
    moreover have "1 \<le> d - ?len" using True by (simp add: YEAR_LENGTHS_def)
    ultimately show ?thesis using 1 True
      by (auto simp: days_down.simps [of y d m] isleap_eq long_increment_overflow_def split: if_splits)
  qed (use 1 in \<open>auto simp: days_down.simps [of y d m]\<close>)
qed

lemma mon_length:
  assumes "0 \<le> m" "m < 12"
  shows "at_index (MON_LENGTHS (isleap y)) (nat m) = Some (month_length y (m + 1))"
proof -
  have "m = 0 \<or> m = 1 \<or> m = 2 \<or> m = 3 \<or> m = 4 \<or> m = 5 \<or> m = 6 \<or> m = 7 \<or> m = 8 \<or> m = 9 \<or> m = 10 \<or> m = 11"
    using assms by presburger
  then show ?thesis unfolding isleap_eq
    by (elim disjE) (simp_all add: at_index_def MON_LENGTHS_def month_length_def numeral_eq_Suc)
qed

lemma months_on_ok:
  "months_on y d m = Some (y', d', m') \<Longrightarrow> 0 \<le> m \<Longrightarrow> m < 12 \<Longrightarrow> 1 \<le> d \<Longrightarrow>
   days_from_civil y' (m' + 1) d' = days_from_civil y (m + 1) d \<and> valid_date y' (m' + 1) d' \<and> 0 \<le> m' \<and> m' < 12"
proof (induction y d m rule: months_on.induct)
  case (1 y d m)
  let ?i = "month_length y (m + 1)"
  have i: "(if m < 0 then None else at_index (MON_LENGTHS (isleap y)) (nat m)) = Some ?i" using 1(4,5) mon_length by simp
  have step: "days_from_civil y (m + 1) d = (if m + 1 < 12 then days_from_civil y (m + 2) (d - ?i) else days_from_civil (y + 1) 1 (d - ?i))"
    using month_step [of "m + 1" y "d - ?i"] 1(4,5) by (simp add: add.assoc)
  consider (here) "d \<le> ?i" | (year) "\<not> d \<le> ?i" "12 \<le> m + 1" | (month) "\<not> d \<le> ?i" "\<not> 12 \<le> m + 1" by blast
  then show ?case
  proof cases
    case here
    then show ?thesis using 1(3-6) i by (auto simp: months_on.simps [of y d m] valid_date_def)
  next
    case year
    then show ?thesis using 1 i step by (auto simp: months_on.simps [of y d m] long_increment_overflow_def split: if_splits)
  next
    case month
    then show ?thesis using 1(2-6) i step by (auto simp: months_on.simps [of y d m] add.commute [of 2])
  qed
qed

text \<open>The fields that \<^verbatim>\<open>libc::tm\<close> holds in 32 bits and the search reads.\<close>

definition plain :: "tm \<Rightarrow> bool" where
  "plain x \<longleftrightarrow> valid_date (tm_year x + 1900) (tm_mon x + 1) (tm_mday x) \<and> 0 \<le> tm_hour x \<and> tm_hour x < 24 \<and>
     0 \<le> tm_min x \<and> tm_min x < 60"

lemma normalized_ok:
  assumes "normalized ns tmp = Some x"
  shows "wall x = asked tmp" "plain x" "tm_isdst x = tm_isdst tmp" "0 \<le> tm_year x \<and> in_i32 (tm_year x)"
    "if ns then 0 \<le> tm_sec x \<and> tm_sec x < 60 else tm_sec x = tm_sec tmp"
proof -
  obtain c where c: "carry_time ns tmp = Some c" using assms by (auto simp: normalized_def split: option.splits)
  obtain y mon where ym: "long_normalize_overflow (tm_year c) (tm_mon c) 12 = Some (y, mon)"
    using assms c by (auto simp: normalized_def split: option.splits)
  obtain y' d' mon' where cd: "carry_date (y + 1900) (tm_mday c) mon = Some (y', d', mon')"
    and x: "x = c\<lparr>tm_mday := d', tm_mon := mon', tm_year := y' - 1900\<rparr>" and y': "wrap_i32 (y' - 1900) = y' - 1900" "0 \<le> y' - 1900"
    using assms c ym by (auto simp: normalized_def long_increment_overflow_def split: option.splits if_splits bind_splits)
  have fits: "in_i32 (y' - 1900)" using wrap_i32_range [of "y' - 1900"] y'(1) by simp
  note ct = carry_time_ok [OF c]
  have ym': "y = tm_year tmp + tm_mon tmp div 12" "mon = tm_mon tmp mod 12"
    using long_normalize_ok [OF ym] ct(2,3) by simp_all
  then have mon: "0 \<le> mon" "mon < 12" by simp_all
  obtain a b where ab: "days_up (y + 1900) (tm_mday c) mon = Some (a, b)"
    using cd by (auto simp: carry_date_def split: option.splits)
  obtain e f where ef: "days_down a b mon = Some (e, f)" "months_on e f mon = Some (y', d', mon')"
    using cd ab by (auto simp: carry_date_def split: option.splits)
  note up = days_up_ok [OF ab] and down = days_down_ok [OF ef(1)]
  note on = months_on_ok [OF ef(2) mon]
  have d: "days_from_civil y' (mon' + 1) d' = days_from_civil (y + 1900) (mon + 1) (tm_mday c)" "valid_date y' (mon' + 1) d'"
    using up down on by auto
  have shift: "days_from_civil Y M D * 86400 = days_from_civil Y M 0 * 86400 + D * 86400" for Y M D
    using days_add [of Y M 0 D] by simp
  have "wall x = days_from_civil (y + 1900) (mon + 1) 0 * 86400 + day_secs c"
    using d(1) shift [of "y + 1900" "mon + 1" "tm_mday c"] by (simp add: wall_def x day_secs_def)
  also have "\<dots> = asked tmp"
    unfolding ct(1) using shift [of "y + 1900" "mon + 1" "tm_mday tmp"] by (simp add: asked_def day_secs_def ym')
  finally show "wall x = asked tmp" .
  show "plain x" "tm_isdst x = tm_isdst tmp" "0 \<le> tm_year x \<and> in_i32 (tm_year x)" using d(2) ct(4,5) y' fits by (simp_all add: plain_def x)
  show "if ns then 0 \<le> tm_sec x \<and> tm_sec x < 60 else tm_sec x = tm_sec tmp" using ct(6) by (simp add: x)
qed

lemma split_secs_ok:
  assumes "split_secs x = Some (x', s)" "plain x"
  shows "wall x' + s = wall x" "plain x'" "0 \<le> tm_sec x' \<and> tm_sec x' < 60" "tm_isdst x' = tm_isdst x"
    "0 \<le> tm_sec x \<and> tm_sec x < 60 \<Longrightarrow> s = 0"
  using assms by (auto simp: split_secs_def increment_overflow_def wall_def plain_def split: if_splits)

lemma tmcomp_zero: "tmcomp a b = 0 \<Longrightarrow> wall a = wall b"
  by (auto simp: tmcomp_def wall_def split: if_splits)

lemma tz_search_match: "tz_search cv x lo hi = Some t \<Longrightarrow> \<exists>y. cv t = Some y \<and> tmcomp y x = 0"
proof (induction cv x lo hi rule: tz_search.induct)
  case (1 cv x lo hi)
  have "direction cv x t = 0 \<Longrightarrow> \<exists>y. cv t = Some y \<and> tmcomp y x = 0"
    by (auto simp: direction_def split: option.splits if_splits)
  then show ?case using 1 by (auto simp: tz_search.simps [of cv x lo hi] split: if_splits option.splits)
qed

lemma settle_match:
  "settle cv tys x t = Some t' \<Longrightarrow> cv t = Some y \<Longrightarrow> tmcomp y x = 0 \<Longrightarrow> \<exists>y'. cv t' = Some y' \<and> wall y' = wall x"
  by (auto simp: settle_def Let_def matches_def wall_def dest!: find_SomeD tmcomp_zero split: if_splits option.splits)

section \<open>The order of the fields is the order of the instants\<close>

lemma month_order:
  assumes "m < m'" "1 \<le> m" "m' \<le> 12"
  shows "days_from_civil y m (month_length y m) < days_from_civil y m' 1"
proof -
  have step: "days_from_civil y k (month_length y k) < days_from_civil y (k + 1) 1" if "1 \<le> k" "k < 12" for k
    using month_step [of k y 0] that days_add [of y "k + 1" 0 1] by simp
  have "m + 1 \<le> m'" using assms(1) by simp
  then show ?thesis using assms(3)
  proof (induction m' rule: int_ge_induct)
    case base
    then show ?case using step [of m] assms(2) by simp
  next
    case (step k)
    have "days_from_civil y k 1 \<le> days_from_civil y k (month_length y k)"
      using days_from_civil_day [of y k "month_length y k - 1"] month_length_ge [of y k] by simp
    then show ?case using step \<open>\<And>k. 1 \<le> k \<Longrightarrow> k < 12 \<Longrightarrow> days_from_civil y k (month_length y k) < days_from_civil y (k + 1) 1\<close> [of k] assms(2)
      by simp
  qed
qed

lemma date_order:
  assumes "valid_date y m d" "valid_date y' m' d'" "y < y' \<or> y = y' \<and> (m < m' \<or> m = m' \<and> d < d')"
  shows "days_from_civil y m d < days_from_civil y' m' d'"
proof -
  consider (year) "y < y'" | (month) "y = y'" "m < m'" | (day) "y = y'" "m = m'" "d < d'" using assms(3) by blast
  then show ?thesis
  proof cases
    case year
    then show ?thesis
      using year_bounds(2) [OF assms(1)] year_bounds(1) [OF assms(2)] jan1_mono [of "y + 1" y'] by simp
  next
    case month
    have "days_from_civil y m d \<le> days_from_civil y m (month_length y m)"
      using assms(1) days_add [of y m d "month_length y m - d"] by (simp add: valid_date_def)
    moreover have "days_from_civil y' m' 1 \<le> days_from_civil y' m' d'"
      using assms(2) days_add [of y' m' 1 "d' - 1"] by (simp add: valid_date_def)
    ultimately show ?thesis using month_order [of m m' y] month assms(1,2) by (simp add: valid_date_def)
  next
    case day
    then show ?thesis using days_add [of y m d "d' - d"] by simp
  qed
qed

lemma day_order:
  fixes da db :: int
  assumes "da < db" "0 \<le> sb" "sa < 86400"
  shows "da * 86400 + sa < db * 86400 + sb"
  using assms by linarith

lemma tmcomp_less:
  assumes "plain a" "plain b" "0 \<le> tm_sec a" "tm_sec a < 60" "0 \<le> tm_sec b" "tm_sec b < 60" "tmcomp a b < 0"
  shows "wall a < wall b"
proof -
  let ?d = "\<lambda>x. days_from_civil (tm_year x + 1900) (tm_mon x + 1) (tm_mday x)"
  let ?s = "\<lambda>x. tm_hour x * 3600 + tm_min x * 60 + tm_sec x"
  have w: "wall x = ?d x * 86400 + ?s x" for x by (simp add: wall_def)
  have s: "0 \<le> ?s b" "?s a < 86400" using assms(1-6) by (simp_all add: plain_def)
  have v: "valid_date (tm_year a + 1900) (tm_mon a + 1) (tm_mday a)" "valid_date (tm_year b + 1900) (tm_mon b + 1) (tm_mday b)"
    using assms(1,2) by (simp_all add: plain_def)
  consider (date) "tm_year a < tm_year b \<or> tm_year a = tm_year b \<and>
      (tm_mon a < tm_mon b \<or> tm_mon a = tm_mon b \<and> tm_mday a < tm_mday b)"
    | (time) "?d a = ?d b" "tm_hour a < tm_hour b \<or> tm_hour a = tm_hour b \<and>
      (tm_min a < tm_min b \<or> tm_min a = tm_min b \<and> tm_sec a < tm_sec b)"
    using assms(7) by (auto simp: tmcomp_def split: if_splits)
  then show ?thesis
  proof cases
    case date
    then show ?thesis unfolding w by (intro day_order s date_order [OF v]) auto
  next
    case time
    then show ?thesis unfolding w using assms(1-6) by (auto simp: plain_def)
  qed
qed

lemma tmcomp_swap: "tmcomp b a = - tmcomp a b"
  by (auto simp: tmcomp_def split: if_splits)

lemma tz_search_finds:
  assumes T: "direction cv x T = 0" "\<And>t. t < T \<Longrightarrow> direction cv x t < 0" "\<And>t. T < t \<Longrightarrow> 0 < direction cv x t"
    and "lo \<le> T" "T \<le> hi" "in_i64 lo" "in_i64 hi"
  shows "tz_search cv x lo hi = Some T"
  using assms(4-7)
proof (induction "nat (hi - lo)" arbitrary: lo hi rule: less_induct)
  case (less lo hi)
  define t where "t = middle lo hi"
  have t: "lo \<le> t" "t \<le> hi" using less.prems by (auto simp: middle_def t_def)
  note unf = tz_search.simps [of cv x lo hi, folded t_def] tz_narrow_def
  consider (at) "t = T" | (below) "t < T" | (above) "T < t" by linarith
  then show ?case
  proof cases
    case at
    then show ?thesis using T(1) less.prems by (simp add: unf)
  next
    case below
    then have "tz_search cv x lo hi = tz_search cv x (if t = lo then lo + 1 else t) hi"
      using T(2) [OF below] t less.prems by (auto simp: unf in_i64_def)
    then show ?thesis using less.hyps [of hi "if t = lo then lo + 1 else t"] below t less.prems
      by (auto simp: in_i64_def split: if_splits)
  next
    case above
    then have "tz_search cv x lo hi = tz_search cv x lo (if t = hi then hi - 1 else t)"
      using T(3) [OF above] t less.prems by (auto simp: unf in_i64_def)
    then show ?thesis using less.hyps [of "if t = hi then hi - 1 else t" lo] above t less.prems
      by (auto simp: in_i64_def split: if_splits)
  qed
qed

lemma time2sub_asked:
  assumes "time2sub cv tys tmp ns = Some (t, x)"
  shows "cv t = Some x \<and> (\<exists>y s. cv (t - s) = Some y \<and> wall y + s = asked tmp \<and>
    (ns \<or> 0 \<le> tm_sec tmp \<and> tm_sec tmp < 60 \<longrightarrow> s = 0))"
proof -
  obtain n y s where n: "normalized ns tmp = Some n" and y: "split_secs n = Some (y, s)"
    using assms by (auto simp: time2sub_def split: option.splits bind_splits)
  obtain u v where u: "tz_search cv y (- (2 ^ 63)) (2 ^ 63 - 1) = Some u" and v: "settle cv tys y u = Some v"
    and t: "t = v + s" "cv t = Some x"
    using assms n y by (auto simp: time2sub_def checked_i64_def split: option.splits bind_splits if_splits)
  obtain a where a: "cv u = Some a" "tmcomp a y = 0" using tz_search_match [OF u] by blast
  obtain b where b: "cv v = Some b" "wall b = wall y" using settle_match [OF v a] by blast
  have "wall y + s = asked tmp"
    using split_secs_ok(1) [OF y normalized_ok(2) [OF n]] normalized_ok(1) [OF n] by simp
  moreover have "ns \<or> 0 \<le> tm_sec tmp \<and> tm_sec tmp < 60 \<Longrightarrow> s = 0"
    using split_secs_ok(5) [OF y normalized_ok(2) [OF n]] normalized_ok(5) [OF n] by (cases ns) auto
  ultimately show ?thesis using t b by (intro conjI exI [of _ b] exI [of _ s]) auto
qed


section \<open>Zones of one offset\<close>

lemma year_mono: "k \<le> l \<Longrightarrow> fst (civil_from_days k) \<le> fst (civil_from_days l)"
proof (rule ccontr)
  assume "k \<le> l" and less: "\<not> fst (civil_from_days k) \<le> fst (civil_from_days l)"
  obtain y m d where k: "civil_from_days k = (y, m, d)" by (cases "civil_from_days k") auto
  obtain y' m' d' where l: "civil_from_days l = (y', m', d')" by (cases "civil_from_days l") auto
  have "l < k"
    using date_order [OF days_of_civil(1) [OF l] days_of_civil(1) [OF k]] days_of_civil(2) [OF l] days_of_civil(2) [OF k] less k l
    by simp
  then show False using \<open>k \<le> l\<close> by simp
qed

definition one_zone :: "local_type \<Rightarrow> zone" where
  "one_zone ty = from_rule \<lparr>std = ty, dst = None\<rparr>"

lemma one_zone_convert:
  assumes "in_i32 (utoff ty)"
  shows "convert MacOS (one_zone ty) t =
    (if in_i32 (fst (civil_from_days ((t + utoff ty) div 86400)) - 1900) then Some (broken (t + utoff ty) ty) else None)"
proof -
  have "zone_wf (one_zone ty)" using assms by (auto simp: one_zone_def rule_types_def intro: from_rule_wf)
  moreover have "zone_at MacOS (one_zone ty) t = Some ty"
    by (simp add: one_zone_def zone_at_def from_rule_def partition_point_def rule_at_def first_change_def)
  ultimately show ?thesis by (simp add: convert_def break_down_eq)
qed

lemma plain_order:
  assumes "plain b" "0 \<le> tm_sec b" "tm_sec b < 60"
  shows "sgn (tmcomp (broken l ty) b) = sgn (l - wall b)"
proof -
  let ?a = "broken l ty"
  have a: "plain ?a" "0 \<le> tm_sec ?a" "tm_sec ?a < 60" "wall ?a = l"
    using broken_normal [of l ty] by (simp_all add: normal_def plain_def)
  have "tmcomp ?a b < 0 \<Longrightarrow> l < wall b" using tmcomp_less [OF a(1) assms(1)] a assms by simp
  moreover have "0 < tmcomp ?a b \<Longrightarrow> wall b < l" using tmcomp_less [OF assms(1) a(1)] a assms tmcomp_swap [of b ?a] by simp
  moreover have "tmcomp ?a b = 0 \<Longrightarrow> l = wall b" using tmcomp_zero [of ?a b] a by simp
  ultimately show ?thesis by (cases "tmcomp ?a b" "0::int" rule: linorder_cases) auto
qed

text \<open>The way the search goes from a time is the way to the instant asked for.\<close>

lemma one_zone_direction:
  assumes "in_i32 (utoff ty)" "plain b" "0 \<le> tm_sec b" "tm_sec b < 60" "0 \<le> tm_year b" "in_i32 (tm_year b)"
  defines "T \<equiv> wall b - utoff ty"
  shows "sgn (direction (convert MacOS (one_zone ty)) b t) = sgn (t - T)"
proof (cases "convert MacOS (one_zone ty) t")
  case (Some x)
  then have "x = broken (t + utoff ty) ty" by (simp add: one_zone_convert [OF assms(1)] split: if_splits)
  then show ?thesis using Some plain_order [OF assms(2-4), of "t + utoff ty" ty] by (simp add: direction_def T_def algebra_simps)
next
  case None
  let ?y = "\<lambda>l. fst (civil_from_days (l div 86400)) - 1900"
  have out: "\<not> in_i32 (?y (t + utoff ty))" using None by (simp add: one_zone_convert [OF assms(1)] split: if_splits)
  have "wall b div 86400 = days_from_civil (tm_year b + 1900) (tm_mon b + 1) (tm_mday b)"
    using assms(2-4) unfolding wall_def plain_def
    by (intro int_div_pos_eq [of _ _ _ "tm_hour b * 3600 + tm_min b * 60 + tm_sec b"]) auto
  then have yb: "?y (wall b) = tm_year b"
    using civil_of_days [of "tm_year b + 1900" "tm_mon b + 1" "tm_mday b"] assms(2) by (simp add: plain_def)
  have mono: "?y l \<le> ?y l'" if "l \<le> l'" for l l' using year_mono [OF zdiv_mono1 [OF that, of 86400]] by simp
  have epoch: "\<bar>?y (utoff ty)\<bar> < 12000"
  proof -
    have "\<bar>utoff ty div 86400\<bar> \<le> 1000000" using assms(1) by (auto simp: in_i32_def)
    then show ?thesis using year_near by fastforce
  qed
  consider (up) "0 < t" | (down) "t \<le> 0" by linarith
  then show ?thesis
  proof cases
    case up
    then have "?y (utoff ty) \<le> ?y (t + utoff ty)" by (intro mono) simp
    then have "tm_year b < ?y (t + utoff ty)" using out epoch assms(6) by (auto simp: in_i32_def)
    then have "\<not> t + utoff ty \<le> wall b" using mono [of "t + utoff ty" "wall b"] yb by auto
    then show ?thesis using None up by (simp add: direction_def T_def)
  next
    case down
    then have "?y (t + utoff ty) \<le> ?y (utoff ty)" by (intro mono) simp
    then have "?y (t + utoff ty) < 0" using out epoch by (auto simp: in_i32_def)
    then have "\<not> wall b \<le> t + utoff ty" using mono [of "wall b" "t + utoff ty"] yb assms(5) by auto
    then show ?thesis using None down by (simp add: direction_def T_def)
  qed
qed

lemma one_zone_finds:
  assumes ty: "\<not> isdst ty" "in_i32 (utoff ty)" and n: "normalized False tmp = Some n"
    and sec: "0 \<le> tm_sec tmp" "tm_sec tmp < 60"
  defines "T \<equiv> asked tmp - utoff ty"
  shows "time2sub (convert MacOS (one_zone ty)) (ttis (one_zone ty)) tmp False = Some (T, broken (asked tmp) ty)"
proof -
  let ?cv = "convert MacOS (one_zone ty)"
  note nok = normalized_ok [OF n]
  have s: "tm_sec n = tm_sec tmp" using nok(5) by simp
  have dir: "sgn (direction ?cv n t) = sgn (t - T)" for t
    using one_zone_direction [OF ty(2) nok(2), of t] nok(1,4) s sec by (simp add: T_def)
  have "direction ?cv n T = 0" using dir [of T] by (simp add: sgn_0_0)
  then obtain x where "?cv T = Some x" by (auto simp: direction_def split: option.splits if_splits)
  then have x: "?cv T = Some (broken (asked tmp) ty)"
    and fits: "in_i32 (fst (civil_from_days ((T + utoff ty) div 86400)) - 1900)"
    by (auto simp: one_zone_convert [OF ty(2)] T_def split: if_splits)
  have T: "\<bar>T\<bar> < 2 ^ 56" by (rule year_span [OF fits ty(2)])
  have "tz_search ?cv n (- (2 ^ 63)) (2 ^ 63 - 1) = Some T"
  proof (rule tz_search_finds)
    show "direction ?cv n T = 0" by fact
    show "direction ?cv n t < 0" if "t < T" for t using dir [of t] that by (simp add: sgn_if split: if_splits)
    show "0 < direction ?cv n t" if "T < t" for t using dir [of t] that by (simp add: sgn_if split: if_splits)
  qed (use T in \<open>auto simp: in_i64_def abs_less_iff\<close>)
  moreover have "split_secs n = Some (n, 0)" using s sec by (simp add: split_secs_def)
  moreover have "settle ?cv (ttis (one_zone ty)) n T = Some T"
    using x ty(1) by (auto simp: settle_def Let_def ttis_def one_zone_def from_rule_def broken_fields)
  moreover have "in_i64 T" using T by (auto simp: in_i64_def abs_less_iff)
  ultimately show ?thesis using x by (simp add: time2sub_def n checked_i64_def)
qed

text \<open>
  C26: In a zone of one offset tzcode's bisection of the whole 64-bit range finds the instant of every time it can
  normalize, and the fields it leaves are that instant's local time, whatever daylight flag was asked for.
\<close>

theorem tzcode_finds:
  assumes "\<not> isdst ty" "in_i32 (utoff ty)" "normalized False tmp = Some n" "0 \<le> tm_sec tmp" "tm_sec tmp < 60" "tm_isdst tmp \<le> 1"
  shows "\<exists>x. tzcode_mktime (from_rule \<lparr>std = ty, dst = None\<rparr>) tmp = Some (Some (asked tmp - utoff ty), x) \<and>
    normal x \<and> wall x = asked tmp \<and> tm_isdst x = 0"
  using one_zone_finds [OF assms(1-5)] broken_normal [of "asked tmp" ty] assms(1,6)
  by (auto simp: tzcode_mktime_def time2_def one_zone_def [symmetric] broken_fields)

definition demo_tm :: tm where
  "demo_tm = \<lparr>tm_sec = 30, tm_min = 61, tm_hour = 0, tm_mday = 1, tm_mon = 0, tm_year = 70, tm_wday = 0, tm_yday = 0,
     tm_isdst = 0, tm_gmtoff = 0, tm_zone = None\<rparr>"

lemma demo_normalized: "normalized False demo_tm = Some (demo_tm\<lparr>tm_min := 1, tm_hour := 1\<rparr>)"
  by (simp add: demo_tm_def normalized_def carry_time_def normalize_overflow_def long_normalize_overflow_def Let_def
      increment_overflow_def long_increment_overflow_def tens_def quot_def wrap_i32_def in_i32_def in_i64_def
      carry_date_def days_up.simps days_down.simps months_on.simps at_index_def MON_LENGTHS_def)

lemma utc_one: "rzone utc = one_zone \<lparr>utoff = 0, isdst = False, abbr = ''UTC''\<rparr>"
  by (simp add: utc_def one_zone_def)

theorem tzcode_finds_witness:
  "\<exists>x. tzcode_mktime (from_rule \<lparr>std = \<lparr>utoff = 3600, isdst = False, abbr = ''CET''\<rparr>, dst = None\<rparr>) demo_tm = Some (Some 90, x) \<and>
    normal x \<and> wall x = 3690"
proof -
  have "asked demo_tm = 3690" by (simp add: asked_def demo_tm_def month_starts)
  then show ?thesis
    using tzcode_finds [of "\<lparr>utoff = 3600, isdst = False, abbr = ''CET''\<rparr>", OF _ _ demo_normalized]
    by (auto simp: in_i32_def demo_tm_def)
qed


text \<open>
  The product in \<^verbatim>\<open>normalize_overflow\<close> does not fit 32 bits for the least \<^verbatim>\<open>tm_sec\<close>: only because it wraps and
  the difference wraps back is the result right, and a build that checks overflow panics there.
\<close>

lemma carry_product_overflows: "\<not> in_i32 (tens (- (2 ^ 31)) 60 * 60)"
  by (simp add: tens_div in_i32_def)

end
