(* ===== verification/Pending_Ring.thy ===== *)
theory Pending_Ring
  imports Signed_Arith
begin

text \<open>
  \<^verbatim>\<open>snare-interpose/src/pending.rs\<close>: the bounded queue of changes kept for a lock's next holder. Any
  thread pushes, only the lock's holder drains, and neither ever takes a lock. A call is a program counter
  whose steps are the atomic accesses of the code, so a step relation over one ring, any number of pushing
  threads and the drainer gives every interleaving. Memory is sequentially consistent in the model; the
  counters are \<^verbatim>\<open>usize\<close> and wrap.
\<close>

section \<open>The ring\<close>

definition CAPACITY :: nat where
  "CAPACITY = 1024"

text \<open>The value of a slot is uninitialised (\<open>None\<close>) until a push has written it.\<close>

record 'a ring_slot =
  rs_seq :: nat
  rs_value :: "'a option"

record 'a pending =
  pd_slots :: "'a ring_slot list"
  pd_tail :: nat
  pd_head :: nat

definition pending_default :: "'a pending" where
  "pending_default = \<lparr>pd_slots = map (\<lambda>i. \<lparr>rs_seq = i, rs_value = None\<rparr>) [0..<CAPACITY], pd_tail = 0, pd_head = 0\<rparr>"

definition slot_at :: "'a pending \<Rightarrow> nat \<Rightarrow> 'a ring_slot" where
  "slot_at p pos = pd_slots p ! (pos mod CAPACITY)"

definition put_slot :: "'a pending \<Rightarrow> nat \<Rightarrow> 'a ring_slot \<Rightarrow> 'a pending" where
  "put_slot p pos r = p\<lparr>pd_slots := (pd_slots p)[pos mod CAPACITY := r]\<rparr>"

section \<open>Pushing\<close>

text \<open>
  Where a push stands: about to load the tail, to load the sequence number of the slot of \<open>pos\<close>, to claim the
  ticket \<open>pos\<close>, to write the value, to publish it, or returned.
\<close>

datatype 'a push_pc =
    Push_Start 'a
  | Push_Check 'a nat
  | Push_Claim 'a nat
  | Push_Write 'a nat
  | Push_Publish nat
  | Push_Done bool

text \<open>\<^verbatim>\<open>(seq.wrapping_sub(pos) as isize).signum()\<close>\<close>

definition seq_sign :: "nat \<Rightarrow> nat \<Rightarrow> int" where
  "seq_sign sq pos = sgn (wrap_i64 (int (wrapping_sub sq pos)))"

text \<open>One atomic access of \<^verbatim>\<open>Pending::push\<close>; \<open>spurious\<close> lets the weak compare-exchange fail although it matches.\<close>

fun push_step :: "bool \<Rightarrow> 'a pending \<Rightarrow> 'a push_pc \<Rightarrow> 'a push_pc \<times> 'a pending" where
  "push_step spurious p (Push_Start v) = (Push_Check v (pd_tail p), p)"
| "push_step spurious p (Push_Check v pos) =
     (let d = seq_sign (rs_seq (slot_at p pos)) pos
      in (if d = 0 then Push_Claim v pos else if d = -1 then Push_Done False else Push_Start v, p))"
| "push_step spurious p (Push_Claim v pos) =
     (if pd_tail p = pos \<and> \<not> spurious then (Push_Write v pos, p\<lparr>pd_tail := wrapping_add pos 1\<rparr>)
      else (Push_Check v (pd_tail p), p))"
| "push_step spurious p (Push_Write v pos) =
     (Push_Publish pos, put_slot p pos ((slot_at p pos)\<lparr>rs_value := Some v\<rparr>))"
| "push_step spurious p (Push_Publish pos) =
     (Push_Done True, put_slot p pos ((slot_at p pos)\<lparr>rs_seq := wrapping_add pos 1\<rparr>))"
| "push_step spurious p (Push_Done b) = (Push_Done b, p)"

section \<open>Draining\<close>

text \<open>
  Where a drain stands: about to load the tail, to load the head, to test \<open>pos != end\<close>, waiting for the slot,
  about to read the value, to free the slot, to store the head, to apply the value, returned, or past a read
  of an uninitialised value, which is undefined behaviour.
\<close>

datatype 'a drain_pc =
    Drain_Tail
  | Drain_Head nat
  | Drain_Loop nat nat
  | Drain_Wait nat nat
  | Drain_Read nat nat
  | Drain_Free nat nat 'a
  | Drain_Store nat nat 'a
  | Drain_Apply nat nat 'a
  | Drain_Done
  | Drain_Undefined

fun drain_step :: "'a pending \<Rightarrow> 'a drain_pc \<Rightarrow> 'a drain_pc \<times> 'a pending" where
  "drain_step p Drain_Tail = (Drain_Head (pd_tail p), p)"
| "drain_step p (Drain_Head fin) = (Drain_Loop fin (pd_head p), p)"
| "drain_step p (Drain_Loop fin pos) = (if pos \<noteq> fin then Drain_Wait fin pos else Drain_Done, p)"
| "drain_step p (Drain_Wait fin pos) =
     (if rs_seq (slot_at p pos) \<noteq> wrapping_add pos 1 then Drain_Wait fin pos else Drain_Read fin pos, p)"
| "drain_step p (Drain_Read fin pos) =
     (case rs_value (slot_at p pos) of Some v \<Rightarrow> Drain_Free fin pos v | None \<Rightarrow> Drain_Undefined, p)"
| "drain_step p (Drain_Free fin pos v) =
     (Drain_Store fin (wrapping_add pos 1) v, put_slot p pos ((slot_at p pos)\<lparr>rs_seq := wrapping_add pos CAPACITY\<rparr>))"
| "drain_step p (Drain_Store fin pos v) = (Drain_Apply fin pos v, p\<lparr>pd_head := pos\<rparr>)"
| "drain_step p (Drain_Apply fin pos v) = (Drain_Loop fin pos, p)"
| "drain_step p Drain_Done = (Drain_Done, p)"
| "drain_step p Drain_Undefined = (Drain_Undefined, p)"

section \<open>Threads\<close>

record ('t, 'a) ring_sys =
  ring :: "'a pending"
  pushers :: "'t \<rightharpoonup> 'a push_pc"
  drainer :: "'a drain_pc option"

datatype ('t, 'a) ring_event =
    Calls 't 'a | Claims 't 'a | Refuses 't | Returns 't bool | Drains | Applies 'a | Drained | Silent

definition push_event :: "'t \<Rightarrow> 'a push_pc \<Rightarrow> ('t, 'a) ring_event" where
  "push_event t pc' =
     (case pc' of Push_Write v _ \<Rightarrow> Claims t v
      | Push_Done False \<Rightarrow> Refuses t
      | _ \<Rightarrow> Silent)"

definition drain_event :: "'a drain_pc \<Rightarrow> ('t, 'a) ring_event" where
  "drain_event pc = (case pc of Drain_Apply _ _ v \<Rightarrow> Applies v | _ \<Rightarrow> Silent)"

inductive ring_step :: "('t, 'a) ring_sys \<Rightarrow> ('t, 'a) ring_event \<Rightarrow> ('t, 'a) ring_sys \<Rightarrow> bool" where
  call_push: "pushers s t = None \<Longrightarrow> ring_step s (Calls t v) (s\<lparr>pushers := (pushers s)(t \<mapsto> Push_Start v)\<rparr>)"
| step_push: "pushers s t = Some pc \<Longrightarrow> \<forall>b. pc \<noteq> Push_Done b \<Longrightarrow> push_step spurious (ring s) pc = (pc', p) \<Longrightarrow>
    ring_step s (push_event t pc') (s\<lparr>ring := p, pushers := (pushers s)(t \<mapsto> pc')\<rparr>)"
| return_push: "pushers s t = Some (Push_Done b) \<Longrightarrow> ring_step s (Returns t b) (s\<lparr>pushers := (pushers s)(t := None)\<rparr>)"
| call_drain: "drainer s = None \<Longrightarrow> ring_step s Drains (s\<lparr>drainer := Some Drain_Tail\<rparr>)"
| step_drain: "drainer s = Some pc \<Longrightarrow> pc \<noteq> Drain_Done \<Longrightarrow> drain_step (ring s) pc = (pc', p) \<Longrightarrow>
    ring_step s (drain_event pc) (s\<lparr>ring := p, drainer := Some pc'\<rparr>)"
| return_drain: "drainer s = Some Drain_Done \<Longrightarrow> ring_step s Drained (s\<lparr>drainer := None\<rparr>)"

inductive_cases ring_stepE: "ring_step s e s'"

definition ring_start :: "('t, 'a) ring_sys" where
  "ring_start = \<lparr>ring = pending_default, pushers = Map.empty, drainer = None\<rparr>"

inductive ring_run :: "('t, 'a) ring_event list \<Rightarrow> ('t, 'a) ring_sys \<Rightarrow> bool" where
  run_start: "ring_run [] ring_start"
| run_step: "ring_run tr s \<Longrightarrow> ring_step s e s' \<Longrightarrow> ring_run (tr @ [e]) s'"

text \<open>The values claimed and applied along a trace, and how many were claimed before the last drain was called.\<close>

definition claimed :: "('t, 'a) ring_event list \<Rightarrow> 'a list" where
  "claimed tr = concat (map (\<lambda>e. case e of Claims _ v \<Rightarrow> [v] | _ \<Rightarrow> []) tr)"

definition applied :: "('t, 'a) ring_event list \<Rightarrow> 'a list" where
  "applied tr = concat (map (\<lambda>e. case e of Applies v \<Rightarrow> [v] | _ \<Rightarrow> []) tr)"

definition asked_for :: "('t, 'a) ring_event list \<Rightarrow> nat" where
  "asked_for tr = length (claimed (rev (dropWhile (\<lambda>e. case e of Drains \<Rightarrow> False | _ \<Rightarrow> True) (rev tr))))"

text \<open>Who accesses the value of slot \<open>i\<close> in its next step: a pushing thread, or the drainer (\<open>None\<close>).\<close>

definition touches :: "('t, 'a) ring_sys \<Rightarrow> 't option \<Rightarrow> nat \<Rightarrow> bool" where
  "touches s who i =
     (case who of
        Some t \<Rightarrow> (case pushers s t of Some (Push_Write v k) \<Rightarrow> k mod CAPACITY = i | _ \<Rightarrow> False)
      | None \<Rightarrow> (case drainer s of Some (Drain_Read fin k) \<Rightarrow> k mod CAPACITY = i | _ \<Rightarrow> False))"

section \<open>The invariant\<close>

definition seq_of :: "'a pending \<Rightarrow> nat \<Rightarrow> nat" where
  "seq_of p k = rs_seq (slot_at p k)"

definition val_of :: "'a pending \<Rightarrow> nat \<Rightarrow> 'a option" where
  "val_of p k = rs_value (slot_at p k)"

text \<open>How many tickets have been freed: the drainer frees a slot before it stores the head.\<close>

definition freed :: "('t, 'a) ring_sys \<Rightarrow> nat" where
  "freed s = (case drainer s of Some (Drain_Store fin pos v) \<Rightarrow> pos | _ \<Rightarrow> pd_head (ring s))"

text \<open>The window of tickets \<open>[F, F + CAPACITY)\<close>: claimed ones are unpublished or published with their value, the rest are free.\<close>

definition ring_ok :: "'a list \<Rightarrow> nat \<Rightarrow> 'a pending \<Rightarrow> bool" where
  "ring_ok C F p \<longleftrightarrow> length (pd_slots p) = CAPACITY \<and> pd_tail p = length C \<and> F \<le> length C \<and> length C \<le> F + CAPACITY \<and>
     (\<forall>k. F \<le> k \<and> k < F + CAPACITY \<longrightarrow> seq_of p k = k \<or> k < length C \<and> seq_of p k = Suc k \<and> val_of p k = Some (C ! k))"

definition owns_ticket :: "'a list \<Rightarrow> nat \<Rightarrow> 'a pending \<Rightarrow> nat \<Rightarrow> bool" where
  "owns_ticket C F p k \<longleftrightarrow> F \<le> k \<and> k < length C \<and> seq_of p k = k"

fun pusher_ok :: "'a list \<Rightarrow> nat \<Rightarrow> 'a pending \<Rightarrow> 'a push_pc \<Rightarrow> bool" where
  "pusher_ok C F p (Push_Check v pos) \<longleftrightarrow> pos \<le> length C"
| "pusher_ok C F p (Push_Claim v pos) \<longleftrightarrow> pos \<le> length C \<and> pos < F + CAPACITY"
| "pusher_ok C F p (Push_Write v k) \<longleftrightarrow> owns_ticket C F p k \<and> v = C ! k"
| "pusher_ok C F p (Push_Publish k) \<longleftrightarrow> owns_ticket C F p k \<and> val_of p k = Some (C ! k)"
| "pusher_ok C F p _ \<longleftrightarrow> True"

definition drain_at :: "'a list \<Rightarrow> nat \<Rightarrow> nat \<Rightarrow> nat \<Rightarrow> 'a pending \<Rightarrow> nat \<Rightarrow> bool" where
  "drain_at C q fin n p pos \<longleftrightarrow> q \<le> fin \<and> fin \<le> length C \<and> pos \<le> fin \<and> pd_head p = n"

text \<open>\<open>n\<close> values have been applied and \<open>q\<close> were claimed when the drain was called.\<close>

fun drainer_ok :: "'a list \<Rightarrow> nat \<Rightarrow> nat \<Rightarrow> 'a pending \<Rightarrow> 'a drain_pc option \<Rightarrow> bool" where
  "drainer_ok C n q p None \<longleftrightarrow> pd_head p = n"
| "drainer_ok C n q p (Some Drain_Tail) \<longleftrightarrow> pd_head p = n \<and> q \<le> length C"
| "drainer_ok C n q p (Some (Drain_Head fin)) \<longleftrightarrow> drain_at C q fin n p n"
| "drainer_ok C n q p (Some (Drain_Loop fin pos)) \<longleftrightarrow> pos = n \<and> drain_at C q fin n p pos"
| "drainer_ok C n q p (Some (Drain_Wait fin pos)) \<longleftrightarrow> pos = n \<and> drain_at C q fin n p (Suc pos)"
| "drainer_ok C n q p (Some (Drain_Read fin pos)) \<longleftrightarrow> pos = n \<and> drain_at C q fin n p (Suc pos) \<and> seq_of p pos = Suc pos"
| "drainer_ok C n q p (Some (Drain_Free fin pos v)) \<longleftrightarrow>
     pos = n \<and> drain_at C q fin n p (Suc pos) \<and> seq_of p pos = Suc pos \<and> v = C ! n"
| "drainer_ok C n q p (Some (Drain_Store fin pos v)) \<longleftrightarrow> pos = Suc n \<and> drain_at C q fin n p pos \<and> v = C ! n"
| "drainer_ok C n q p (Some (Drain_Apply fin pos v)) \<longleftrightarrow> pos = Suc n \<and> drain_at C q fin (Suc n) p pos \<and> v = C ! n"
| "drainer_ok C n q p (Some Drain_Done) \<longleftrightarrow> pd_head p = n \<and> q \<le> n"
| "drainer_ok C n q p (Some Drain_Undefined) \<longleftrightarrow> False"

fun ticket :: "'a push_pc option \<Rightarrow> nat option" where
  "ticket (Some (Push_Write v k)) = Some k"
| "ticket (Some (Push_Publish k)) = Some k"
| "ticket _ = None"

definition ring_inv :: "'a list \<Rightarrow> nat \<Rightarrow> nat \<Rightarrow> ('t, 'a) ring_sys \<Rightarrow> bool" where
  "ring_inv C n q s \<longleftrightarrow> ring_ok C (freed s) (ring s) \<and>
     (\<forall>t pc. pushers s t = Some pc \<longrightarrow> pusher_ok C (freed s) (ring s) pc) \<and>
     (\<forall>t u k. ticket (pushers s t) = Some k \<and> ticket (pushers s u) = Some k \<longrightarrow> t = u) \<and>
     (\<forall>k. owns_ticket C (freed s) (ring s) k \<longrightarrow> (\<exists>t. ticket (pushers s t) = Some k)) \<and>
     drainer_ok C n q (ring s) (drainer s)"

section \<open>The ring under its accesses\<close>

lemma CAPACITY_pos [simp]: "0 < CAPACITY" "Suc 0 < CAPACITY" "CAPACITY \<noteq> 0"
  by (simp_all add: CAPACITY_def)

text \<open>Tickets of one window share a slot only when they are the same.\<close>

lemma same_slot:
  assumes "j mod CAPACITY = k mod CAPACITY" "F \<le> j" "j < F + CAPACITY" "F \<le> k" "k < F + CAPACITY"
  shows "j = k"
proof -
  have *: "a = b" if "a mod CAPACITY = b mod CAPACITY" "a \<le> b" "F \<le> a" "b < F + CAPACITY" for a b
  proof -
    have "CAPACITY dvd b - a" using that(1,2) by (metis mod_eq_dvd_iff_nat)
    moreover have "b - a < CAPACITY" using that(2,3,4) CAPACITY_pos(1) by arith
    ultimately show ?thesis using that(2) by (meson dvd_imp_le diff_is_0_eq le_antisym not_le zero_less_diff)
  qed
  show ?thesis using * [of j k] * [of k j] assms by (cases "j \<le> k") auto
qed

lemma put_slot_simps [simp]:
  "pd_tail (put_slot p k r) = pd_tail p" "pd_head (put_slot p k r) = pd_head p"
  "length (pd_slots (put_slot p k r)) = length (pd_slots p)"
  by (simp_all add: put_slot_def)

lemma slot_at_put:
  "length (pd_slots p) = CAPACITY \<Longrightarrow>
   slot_at (put_slot p j r) k = (if j mod CAPACITY = k mod CAPACITY then r else slot_at p k)"
  by (simp add: slot_at_def put_slot_def nth_list_update)

lemma slot_at_fields [simp]:
  "slot_at (p\<lparr>pd_tail := x\<rparr>) k = slot_at p k" "slot_at (p\<lparr>pd_head := x\<rparr>) k = slot_at p k"
  by (simp_all add: slot_at_def)

lemma seq_val_fields [simp]:
  "seq_of (p\<lparr>pd_tail := x\<rparr>) k = seq_of p k" "seq_of (p\<lparr>pd_head := x\<rparr>) k = seq_of p k"
  "val_of (p\<lparr>pd_tail := x\<rparr>) k = val_of p k" "val_of (p\<lparr>pd_head := x\<rparr>) k = val_of p k"
  by (simp_all add: seq_of_def val_of_def)

lemma put_value:
  assumes "length (pd_slots p) = CAPACITY"
  shows "seq_of (put_slot p j ((slot_at p j)\<lparr>rs_value := x\<rparr>)) k = seq_of p k"
    and "val_of (put_slot p j ((slot_at p j)\<lparr>rs_value := x\<rparr>)) k = (if j mod CAPACITY = k mod CAPACITY then x else val_of p k)"
  using assms by (simp_all add: seq_of_def val_of_def slot_at_put, simp add: slot_at_def)

lemma put_seq:
  assumes "length (pd_slots p) = CAPACITY"
  shows "seq_of (put_slot p j ((slot_at p j)\<lparr>rs_seq := x\<rparr>)) k = (if j mod CAPACITY = k mod CAPACITY then x else seq_of p k)"
    and "val_of (put_slot p j ((slot_at p j)\<lparr>rs_seq := x\<rparr>)) k = val_of p k"
  using assms by (simp_all add: seq_of_def val_of_def slot_at_put, simp add: slot_at_def)

lemma wrap_i64_period: "wrap_i64 (x + 2 ^ 64) = wrap_i64 x"
proof -
  have "x + 2 ^ 64 + 2 ^ 63 = (x + 2 ^ 63) + 2 ^ 64" by simp
  then show ?thesis unfolding wrap_i64_def by (metis mod_add_self2)
qed

lemma seq_sign_eq:
  assumes "sq < 2 ^ 63" "pos < 2 ^ 63"
  shows "seq_sign sq pos = sgn (int sq - int pos)"
proof -
  have "wrap_i64 (int (wrapping_sub sq pos)) = int sq - int pos"
  proof (cases "pos \<le> sq")
    case True
    then have "wrapping_sub sq pos = sq - pos" using assms by (simp add: wrapping_sub_eq U64_MAX_def)
    then show ?thesis using True assms by (simp add: wrap_i64_id in_i64_def of_nat_diff)
  next
    case False
    then have "wrapping_sub sq pos = sq + 2 ^ 64 - pos" using assms by (simp add: wrapping_sub_def)
    then have "int (wrapping_sub sq pos) = int sq - int pos + 2 ^ 64" using assms by (simp add: of_nat_diff)
    then have "wrap_i64 (int (wrapping_sub sq pos)) = wrap_i64 (int sq - int pos)" by (simp only: wrap_i64_period)
    also have "\<dots> = int sq - int pos" using assms by (intro wrap_i64_id) (simp add: in_i64_def)
    finally show ?thesis .
  qed
  then show ?thesis by (simp add: seq_sign_def)
qed

lemma wrapping_add_small: "a + b < 2 ^ 64 \<Longrightarrow> wrapping_add a b = a + b"
  by (simp add: wrapping_add_def)

section \<open>Every step keeps the invariant\<close>

definition extends :: "'a list \<Rightarrow> 'a list \<Rightarrow> bool" where
  "extends C C' \<longleftrightarrow> length C \<le> length C' \<and> (\<forall>k < length C. C' ! k = C ! k)"

lemma extends_refl [simp]: "extends C C"
  by (simp add: extends_def)

lemma extends_snoc [simp]: "extends C (C @ [v])"
  by (simp add: extends_def nth_append)

lemma pusher_ok_mono:
  assumes "pusher_ok C F p pc" "extends C C'" "F \<le> F'"
    and "\<And>k. ticket (Some pc) = Some k \<Longrightarrow> owns_ticket C F p k \<Longrightarrow> F' \<le> k \<and> seq_of p' k = k \<and> val_of p' k = val_of p k"
  shows "pusher_ok C' F' p' pc"
  using assms(1-3) assms(4) by (cases pc) (auto simp: owns_ticket_def extends_def)

text \<open>The drainer has seen the value published and not yet freed its slot.\<close>

fun holding :: "'a drain_pc option \<Rightarrow> bool" where
  "holding (Some (Drain_Read fin pos)) \<longleftrightarrow> True"
| "holding (Some (Drain_Free fin pos v)) \<longleftrightarrow> True"
| "holding _ \<longleftrightarrow> False"

lemma holdingD:
  assumes "drainer_ok C n q p d" "holding d"
  shows "n < length C" "pd_head p = n" "seq_of p n = Suc n"
  using assms by (cases d rule: holding.cases; simp add: drain_at_def)+

lemma drainer_ok_mono:
  assumes "drainer_ok C n q p d" "extends C C'" "pd_head p' = pd_head p" "holding d \<Longrightarrow> seq_of p' n = Suc n"
  shows "drainer_ok C' n q p' d"
proof (cases "(C, n, q, p, d)" rule: drainer_ok.cases)
qed (use assms in \<open>auto simp: drain_at_def extends_def\<close>)

lemma window_seq:
  assumes "ring_ok C F p" "pos mod CAPACITY = k mod CAPACITY" "F \<le> k" "k < F + CAPACITY"
  shows "seq_of p pos = k \<or> seq_of p pos = Suc k \<and> k < length C"
proof -
  have "seq_of p pos = seq_of p k" using assms(2) by (simp add: seq_of_def slot_at_def)
  then show ?thesis using assms(1,3,4) unfolding ring_ok_def by auto
qed

lemma window_ticket: "\<exists>k. pos mod CAPACITY = k mod CAPACITY \<and> F \<le> k \<and> k < F + CAPACITY"
proof -
  let ?k = "F + (pos + CAPACITY * F - F) mod CAPACITY"
  have "F \<le> pos + CAPACITY * F" by (simp add: CAPACITY_def)
  then have "(F + (pos + CAPACITY * F - F) mod CAPACITY) mod CAPACITY = pos mod CAPACITY"
    by (metis le_add_diff_inverse mod_add_right_eq mod_mult_self2)
  then show ?thesis by (intro exI [of _ ?k]) simp
qed

text \<open>What a sequence number says about the ticket it was loaded for.\<close>

lemma window_check:
  assumes "ring_ok C F p" "pos \<le> length C"
  shows "seq_of p pos = pos \<Longrightarrow> pos < F + CAPACITY"
    and "seq_of p pos < pos \<Longrightarrow> F + CAPACITY \<le> length C"
    and "seq_of p pos \<le> length C + CAPACITY"
proof -
  obtain k where k: "pos mod CAPACITY = k mod CAPACITY" "F \<le> k" "k < F + CAPACITY" using window_ticket by blast
  note sq = window_seq [OF assms(1) k]
  have off: "pos \<noteq> Suc k"
  proof
    assume "pos = Suc k"
    then have "Suc k mod CAPACITY = k mod CAPACITY" using k(1) by simp
    then have "CAPACITY dvd Suc k - k" by (metis le_SucI mod_eq_dvd_iff_nat order_refl)
    then show False by (simp add: CAPACITY_def)
  qed
  show "seq_of p pos = pos \<Longrightarrow> pos < F + CAPACITY" using sq off k(3) by auto
  show "seq_of p pos \<le> length C + CAPACITY" using sq k(3) assms(1) unfolding ring_ok_def by auto
  show "F + CAPACITY \<le> length C" if "seq_of p pos < pos"
  proof -
    have "k < pos" using that sq off by auto
    then have "CAPACITY dvd pos - k" using k(1) by (metis less_imp_le mod_eq_dvd_iff_nat)
    then have "CAPACITY \<le> pos - k" using \<open>k < pos\<close> by (simp add: dvd_imp_le)
    then show ?thesis using k(2) assms(2) \<open>k < pos\<close> by arith
  qed
qed

lemma freed_simps [simp]:
  "freed (s\<lparr>pushers := f\<rparr>) = freed s"
  "pd_head p = pd_head (ring s) \<Longrightarrow> freed (s\<lparr>ring := p, pushers := f\<rparr>) = freed s"
  by (simp_all add: freed_def split: option.split drain_pc.split)

lemma freed_holding: "holding (drainer s) \<Longrightarrow> freed s = pd_head (ring s)"
  by (cases "drainer s" rule: holding.cases) (simp_all add: freed_def)

lemma ring_okD:
  "ring_ok C F p \<Longrightarrow> F \<le> k \<Longrightarrow> k < F + CAPACITY \<Longrightarrow>
   seq_of p k = k \<or> k < length C \<and> seq_of p k = Suc k \<and> val_of p k = Some (C ! k)"
  by (simp add: ring_ok_def)

lemma ring_okI:
  assumes "length (pd_slots p) = CAPACITY" "pd_tail p = length C" "F \<le> length C" "length C \<le> F + CAPACITY"
    and "\<And>k. F \<le> k \<Longrightarrow> k < F + CAPACITY \<Longrightarrow>
      seq_of p k = k \<or> k < length C \<and> seq_of p k = Suc k \<and> val_of p k = Some (C ! k)"
  shows "ring_ok C F p"
  using assms unfolding ring_ok_def by blast

lemma ring_invD:
  assumes "ring_inv C n q s"
  shows "ring_ok C (freed s) (ring s)" "pushers s t = Some pc \<Longrightarrow> pusher_ok C (freed s) (ring s) pc"
    and "ticket (pushers s t) = Some k \<Longrightarrow> ticket (pushers s u) = Some k \<Longrightarrow> t = u"
    and "owns_ticket C (freed s) (ring s) k \<Longrightarrow> \<exists>t. ticket (pushers s t) = Some k"
    and "drainer_ok C n q (ring s) (drainer s)" "length (pd_slots (ring s)) = CAPACITY"
  using assms unfolding ring_inv_def ring_ok_def by blast+

lemma ticket_owned:
  assumes "ring_inv C n q s" "ticket (pushers s t) = Some k"
  shows "owns_ticket C (freed s) (ring s) k"
  using ring_invD(2) [OF assms(1), of t] assms(2) by (cases "pushers s t" rule: ticket.cases) auto

text \<open>What a step of one thread has to show.\<close>

lemma inv_thread:
  assumes inv: "ring_inv C n q s"
    and "pd_head p = pd_head (ring s)" "ring_ok C' (freed s) p" "drainer_ok C' n q p (drainer s)"
    and "\<And>u pc. u \<noteq> t \<Longrightarrow> pushers s u = Some pc \<Longrightarrow> pusher_ok C' (freed s) p pc"
    and "\<And>pc. x = Some pc \<Longrightarrow> pusher_ok C' (freed s) p pc"
    and other: "\<And>u k. ticket x = Some k \<Longrightarrow> u \<noteq> t \<Longrightarrow> ticket (pushers s u) \<noteq> Some k"
    and own: "\<And>k. owns_ticket C' (freed s) p k \<Longrightarrow> ticket x = Some k \<or> (\<exists>u. u \<noteq> t \<and> ticket (pushers s u) = Some k)"
  shows "ring_inv C' n q (s\<lparr>ring := p, pushers := (pushers s)(t := x)\<rparr>)"
proof -
  let ?f = "(pushers s)(t := x)"
  let ?s = "s\<lparr>ring := p, pushers := ?f\<rparr>"
  have uniq: "a = b" if "ticket (?f a) = Some k" "ticket (?f b) = Some k" for a b k
    using that other ring_invD(3) [OF inv] by (cases "a = t"; cases "b = t") auto
  have ex: "\<exists>u. ticket (?f u) = Some k" if "owns_ticket C' (freed s) p k" for k
    using own [OF that] by (auto simp: fun_upd_apply)
  have pk: "pusher_ok C' (freed s) p pc" if "?f u = Some pc" for u pc
    using that assms(5,6) by (cases "u = t") auto
  have r: "ring ?s = p" "pushers ?s = ?f" "drainer ?s = drainer s" "freed ?s = freed s"
    using freed_simps(2) [OF assms(2)] by simp_all
  show ?thesis unfolding ring_inv_def r by (intro conjI allI impI; (elim conjE)?; fact assms(3,4) pk uniq ex)
qed

text \<open>A step of a thread that holds no ticket and leaves the ring alone.\<close>

lemma inv_local:
  assumes inv: "ring_inv C n q s" and "ticket (pushers s t) = None" "ticket x = None"
    and "\<And>pc. x = Some pc \<Longrightarrow> pusher_ok C (freed s) (ring s) pc"
  shows "ring_inv C n q (s\<lparr>pushers := (pushers s)(t := x)\<rparr>)"
proof -
  have "\<exists>u. u \<noteq> t \<and> ticket (pushers s u) = Some k" if "owns_ticket C (freed s) (ring s) k" for k
    using ring_invD(4) [OF inv that] assms(2) by (metis option.distinct(1))
  then show ?thesis
    using inv_thread [OF inv, of "ring s" C t x] ring_invD [OF inv] assms(3,4) by simp
qed

lemma inv_claim:
  assumes inv: "ring_inv C n q s" and pc: "pushers s t = Some (Push_Claim v pos)" and "pd_tail (ring s) = pos"
  shows "ring_inv (C @ [v]) n q
    (s\<lparr>ring := (ring s)\<lparr>pd_tail := Suc pos\<rparr>, pushers := (pushers s)(t \<mapsto> Push_Write v pos)\<rparr>)"
proof (rule inv_thread [OF inv])
  note I = ring_invD [OF inv]
  let ?p = "(ring s)\<lparr>pd_tail := Suc pos\<rparr>"
  have pos: "pos = length C" "pos < freed s + CAPACITY" "freed s \<le> pos"
    using assms(3) I(1) I(2) [OF pc] by (auto simp: ring_ok_def)
  have sq: "seq_of (ring s) pos = pos" using ring_okD [OF I(1) pos(3,2)] pos(1) by simp
  have own: "owns_ticket (C @ [v]) (freed s) ?p k \<longleftrightarrow> owns_ticket C (freed s) (ring s) k \<or> k = pos" for k
    using pos sq unfolding owns_ticket_def by (auto simp: less_Suc_eq)
  show "ring_ok (C @ [v]) (freed s) ?p"
  proof (rule ring_okI)
    show "seq_of ?p k = k \<or> k < length (C @ [v]) \<and> seq_of ?p k = Suc k \<and> val_of ?p k = Some ((C @ [v]) ! k)"
      if "freed s \<le> k" "k < freed s + CAPACITY" for k
      using ring_okD [OF I(1) that] by (auto simp: nth_append)
  qed (use pos I(6) in simp_all)
  show "pusher_ok (C @ [v]) (freed s) ?p pc'" if "u \<noteq> t" "pushers s u = Some pc'" for u pc'
    by (rule pusher_ok_mono [OF I(2) [OF that(2)]]) (auto simp: owns_ticket_def)
  show "pusher_ok (C @ [v]) (freed s) ?p pc'" if "Some (Push_Write v pos) = Some pc'" for pc'
    using own pos(1) that by auto
  show "ticket (pushers s u) \<noteq> Some k" if "ticket (Some (Push_Write v pos)) = Some k" for u k
    using ticket_owned [OF inv, of u k] that pos(1) by (auto simp: owns_ticket_def)
  show "drainer_ok (C @ [v]) n q ?p (drainer s)" using holdingD(3) [OF I(5)] by (intro drainer_ok_mono [OF I(5)]) simp_all
  show "ticket (Some (Push_Write v pos)) = Some k \<or> (\<exists>u. u \<noteq> t \<and> ticket (pushers s u) = Some k)"
    if "owns_ticket (C @ [v]) (freed s) ?p k" for k
  proof (cases "k = pos")
    case False
    then have "owns_ticket C (freed s) (ring s) k" using that own [of k] by simp
    then obtain u where u: "ticket (pushers s u) = Some k" by (rule exE [OF I(4)])
    then have "u \<noteq> t" using pc by auto
    then show ?thesis using u by blast
  qed simp
qed simp

lemma own_slot:
  assumes "ring_ok C F p" "owns_ticket C F p k" "k mod CAPACITY = j mod CAPACITY" "F \<le> j" "j < F + CAPACITY"
  shows "j = k"
  using same_slot [of k j F] assms unfolding owns_ticket_def ring_ok_def by linarith

lemma someone_else:
  assumes "ring_inv C n q s" "ticket (pushers s t) = Some k" "owns_ticket C (freed s) (ring s) j" "j \<noteq> k"
  shows "\<exists>u. u \<noteq> t \<and> ticket (pushers s u) = Some j"
  using ring_invD(4) [OF assms(1,3)] assms(2,4) by (metis option.inject)

text \<open>The tickets held by two threads sit in different slots.\<close>

lemma held_apart:
  assumes "ring_inv C n q s" "owns_ticket C (freed s) (ring s) j" "owns_ticket C (freed s) (ring s) k" "j \<noteq> k"
  shows "j mod CAPACITY \<noteq> k mod CAPACITY"
proof -
  have "length C \<le> freed s + CAPACITY" using ring_invD(1) [OF assms(1)] by (simp add: ring_ok_def)
  then show ?thesis using same_slot [of j k "freed s"] assms(2-4) by (auto simp: owns_ticket_def)
qed

lemma others_apart:
  assumes inv: "ring_inv C n q s" and k: "ticket (pushers s t) = Some k" and u: "u \<noteq> t" "ticket (pushers s u) = Some j"
  shows "k mod CAPACITY \<noteq> j mod CAPACITY"
  using held_apart [OF inv ticket_owned [OF inv k] ticket_owned [OF inv u(2)]] ring_invD(3) [OF inv k] u by blast

lemma inv_write:
  assumes inv: "ring_inv C n q s" and pc: "pushers s t = Some (Push_Write v k)"
  shows "ring_inv C n q (s\<lparr>ring := put_slot (ring s) k ((slot_at (ring s) k)\<lparr>rs_value := Some v\<rparr>),
    pushers := (pushers s)(t \<mapsto> Push_Publish k)\<rparr>)"
proof (rule inv_thread [OF inv])
  note I = ring_invD [OF inv]
  let ?p = "put_slot (ring s) k ((slot_at (ring s) k)\<lparr>rs_value := Some v\<rparr>)"
  note put = put_value [OF I(6), of k "Some v"]
  have own: "owns_ticket C (freed s) (ring s) k" "v = C ! k" using I(2) [OF pc] by simp_all
  have tk: "ticket (pushers s t) = Some k" using pc by simp
  have same: "owns_ticket C (freed s) ?p j \<longleftrightarrow> owns_ticket C (freed s) (ring s) j" for j
    by (simp add: owns_ticket_def put(1))
  show "ring_ok C (freed s) ?p"
  proof (rule ring_okI)
    show "seq_of ?p j = j \<or> j < length C \<and> seq_of ?p j = Suc j \<and> val_of ?p j = Some (C ! j)"
      if j: "freed s \<le> j" "j < freed s + CAPACITY" for j
    proof (cases "k mod CAPACITY = j mod CAPACITY")
      case True
      then have "j = k" by (rule own_slot [OF I(1) own(1) _ j])
      then show ?thesis using own(1) by (simp add: put(1) owns_ticket_def)
    qed (use ring_okD [OF I(1) j] in \<open>auto simp: put\<close>)
  qed (use I(1) in \<open>auto simp: ring_ok_def\<close>)
  show "pusher_ok C (freed s) ?p pc'" if u: "u \<noteq> t" "pushers s u = Some pc'" for u pc'
  proof (rule pusher_ok_mono [OF I(2) [OF u(2)]])
    show "freed s \<le> j \<and> seq_of ?p j = j \<and> val_of ?p j = val_of (ring s) j"
      if "ticket (Some pc') = Some j" "owns_ticket C (freed s) (ring s) j" for j
      using others_apart [OF inv tk u(1)] u(2) that by (auto simp: put owns_ticket_def)
  qed simp_all
  show "drainer_ok C n q ?p (drainer s)" using holdingD(3) [OF I(5)] by (intro drainer_ok_mono [OF I(5)]) (simp_all add: put)
  show "pusher_ok C (freed s) ?p pc'" if "Some (Push_Publish k) = Some pc'" for pc'
    using that own(1) put(2) [of k] same by (auto simp: own(2) [symmetric])
  show "ticket (pushers s u) \<noteq> Some j" if "ticket (Some (Push_Publish k)) = Some j" "u \<noteq> t" for u j
    using that I(3) [OF tk, of u] by auto
  show "ticket (Some (Push_Publish k)) = Some j \<or> (\<exists>u. u \<noteq> t \<and> ticket (pushers s u) = Some j)"
    if "owns_ticket C (freed s) ?p j" for j
    using someone_else [OF inv tk, of j] that by (cases "j = k") (auto simp: same)
qed simp

lemma inv_publish:
  assumes inv: "ring_inv C n q s" and pc: "pushers s t = Some (Push_Publish k)"
  shows "ring_inv C n q (s\<lparr>ring := put_slot (ring s) k ((slot_at (ring s) k)\<lparr>rs_seq := Suc k\<rparr>),
    pushers := (pushers s)(t \<mapsto> Push_Done True)\<rparr>)"
proof (rule inv_thread [OF inv])
  note I = ring_invD [OF inv]
  let ?p = "put_slot (ring s) k ((slot_at (ring s) k)\<lparr>rs_seq := Suc k\<rparr>)"
  note put = put_seq [OF I(6), of k "Suc k"]
  have own: "owns_ticket C (freed s) (ring s) k" "val_of (ring s) k = Some (C ! k)" using I(2) [OF pc] by simp_all
  have tk: "ticket (pushers s t) = Some k" using pc by simp
  have slot: "j = k" if "k mod CAPACITY = j mod CAPACITY" "freed s \<le> j" "j < freed s + CAPACITY" for j
    by (rule own_slot [OF I(1) own(1) that])
  show "ring_ok C (freed s) ?p"
  proof (rule ring_okI)
    show "seq_of ?p j = j \<or> j < length C \<and> seq_of ?p j = Suc j \<and> val_of ?p j = Some (C ! j)"
      if j: "freed s \<le> j" "j < freed s + CAPACITY" for j
      using slot [OF _ j] ring_okD [OF I(1) j] own by (auto simp: put owns_ticket_def)
  qed (use I(1) in \<open>auto simp: ring_ok_def\<close>)
  show "pusher_ok C (freed s) ?p pc'" if u: "u \<noteq> t" "pushers s u = Some pc'" for u pc'
  proof (rule pusher_ok_mono [OF I(2) [OF u(2)]])
    show "freed s \<le> j \<and> seq_of ?p j = j \<and> val_of ?p j = val_of (ring s) j"
      if "ticket (Some pc') = Some j" "owns_ticket C (freed s) (ring s) j" for j
      using others_apart [OF inv tk u(1)] u(2) that by (auto simp: put owns_ticket_def)
  qed simp_all
  have "seq_of ?p n = Suc n" if h: "holding (drainer s)"
  proof (cases "k mod CAPACITY = n mod CAPACITY")
    case True
    note d = holdingD [OF I(5) h]
    have "n = k" using slot [OF True] freed_holding [OF h] d by simp
    then show ?thesis using d(3) own(1) by (simp add: owns_ticket_def)
  qed (use holdingD(3) [OF I(5) h] in \<open>simp add: put\<close>)
  then show "drainer_ok C n q ?p (drainer s)" using drainer_ok_mono [OF I(5)] by simp
  show "ticket (Some (Push_Done True)) = Some j \<or> (\<exists>u. u \<noteq> t \<and> ticket (pushers s u) = Some j)"
    if "owns_ticket C (freed s) ?p j" for j
  proof -
    have "j \<noteq> k" using that by (auto simp: owns_ticket_def put)
    moreover have "owns_ticket C (freed s) (ring s) j"
      using that I(1) slot [of j] \<open>j \<noteq> k\<close> by (auto simp: owns_ticket_def put ring_ok_def split: if_splits)
    ultimately show ?thesis using someone_else [OF inv tk] by blast
  qed
qed simp_all

text \<open>Steps of the drainer: one that frees nothing, and the one that frees the slot.\<close>

lemma inv_drain:
  assumes inv: "ring_inv C n q s" and "freed (s\<lparr>ring := p, drainer := d\<rparr>) = freed s"
    and "pd_slots p = pd_slots (ring s)" "pd_tail p = pd_tail (ring s)" "drainer_ok C n' q' p d"
  shows "ring_inv C n' q' (s\<lparr>ring := p, drainer := d\<rparr>)"
proof -
  have same: "seq_of p k = seq_of (ring s) k" "val_of p k = val_of (ring s) k" for k
    using assms(3) by (simp_all add: seq_of_def val_of_def slot_at_def)
  have "pusher_ok C (freed s) p pc" if "pusher_ok C (freed s) (ring s) pc" for pc
    by (rule pusher_ok_mono [OF that]) (auto simp: same owns_ticket_def)
  then show ?thesis
    using inv assms(2-5) unfolding ring_inv_def ring_ok_def owns_ticket_def by (simp add: same)
qed

lemma inv_free:
  assumes inv: "ring_inv C n q s" and d: "drainer s = Some (Drain_Free fin pos v)"
  shows "ring_inv C n q (s\<lparr>ring := put_slot (ring s) pos ((slot_at (ring s) pos)\<lparr>rs_seq := pos + CAPACITY\<rparr>),
    drainer := Some (Drain_Store fin (Suc pos) v)\<rparr>)"
proof -
  note I = ring_invD [OF inv]
  let ?p = "put_slot (ring s) pos ((slot_at (ring s) pos)\<lparr>rs_seq := pos + CAPACITY\<rparr>)"
  let ?s = "s\<lparr>ring := ?p, drainer := Some (Drain_Store fin (Suc pos) v)\<rparr>"
  note put = put_seq [OF I(6), of pos "pos + CAPACITY"]
  have n: "n = pos" and pos: "pos < length C" "freed s = pos" "seq_of (ring s) pos = Suc pos" "v = C ! pos"
    and at: "drain_at C q fin pos (ring s) (Suc pos)"
    using I(5) d by (auto simp: freed_def drain_at_def)
  have f: "freed ?s = Suc pos" by (simp add: freed_def)
  have away: "pos mod CAPACITY \<noteq> k mod CAPACITY" if "Suc pos \<le> k" "k < pos + CAPACITY" for k
    using same_slot [of pos k pos] that by auto
  have own: "owns_ticket C (Suc pos) ?p k \<longleftrightarrow> owns_ticket C pos (ring s) k" for k
  proof -
    have "length C \<le> pos + CAPACITY" using I(1) pos(2) by (simp add: ring_ok_def)
    then have "seq_of ?p k = seq_of (ring s) k" if "Suc pos \<le> k" "k < length C"
      using away [of k] that by (simp add: put)
    then show ?thesis using pos(3) by (cases "k = pos") (auto simp: owns_ticket_def Suc_le_eq)
  qed
  have "ring_ok C (Suc pos) ?p"
  proof (rule ring_okI)
    show "seq_of ?p k = k \<or> k < length C \<and> seq_of ?p k = Suc k \<and> val_of ?p k = Some (C ! k)"
      if k: "Suc pos \<le> k" "k < Suc pos + CAPACITY" for k
    proof (cases "k = pos + CAPACITY")
      case False
      then show ?thesis using ring_okD [OF I(1), of k] away [of k] k pos(2) by (simp add: put)
    qed (simp add: put)
  qed (use I(1) pos in \<open>auto simp: ring_ok_def\<close>)
  moreover have "pusher_ok C (Suc pos) ?p pc" if "pushers s t = Some pc" for t pc
  proof (rule pusher_ok_mono [OF I(2) [OF that]])
    show "Suc pos \<le> k \<and> seq_of ?p k = k \<and> val_of ?p k = val_of (ring s) k"
      if "owns_ticket C (freed s) (ring s) k" for k
      using that own [of k] pos(2) by (simp add: put(2) owns_ticket_def)
  qed (use pos(2) in simp_all)
  moreover have "drainer_ok C n q ?p (Some (Drain_Store fin (Suc pos) v))"
    using at n pos(4) by (simp add: drain_at_def)
  ultimately show ?thesis
    using I(3,4) own pos(2) unfolding ring_inv_def f by (simp del: drainer_ok.simps)
qed

section \<open>Runs\<close>

lemma claimed_snoc: "claimed (tr @ [e]) = claimed tr @ (case e of Claims _ v \<Rightarrow> [v] | _ \<Rightarrow> [])"
  by (simp add: claimed_def)

lemma applied_snoc: "applied (tr @ [e]) = applied tr @ (case e of Applies v \<Rightarrow> [v] | _ \<Rightarrow> [])"
  by (simp add: applied_def)

lemma asked_for_snoc: "asked_for (tr @ [e]) = (if e = Drains then length (claimed tr) else asked_for tr)"
  by (cases e) (simp_all add: asked_for_def claimed_def)

text \<open>A push: its step keeps the invariant, and it is refused only when the window is full.\<close>

lemma inv_push:
  assumes inv: "ring_inv C n q s" and pc: "pushers s t = Some pc" and run: "push_step sp (ring s) pc = (pc', p)"
    and small: "length C \<le> 2 ^ 62" and live: "\<forall>b. pc \<noteq> Push_Done b"
  shows "ring_inv (C @ claimed [push_event t pc']) n q (s\<lparr>ring := p, pushers := (pushers s)(t \<mapsto> pc')\<rparr>) \<and>
    (push_event t pc' = Refuses t \<longrightarrow> freed s + CAPACITY \<le> length C)"
proof (cases pc)
  case (Push_Start v)
  then have "ring_inv C n q (s\<lparr>pushers := (pushers s)(t \<mapsto> Push_Check v (pd_tail (ring s)))\<rparr>)"
    using ring_invD(1) [OF inv] pc by (intro inv_local [OF inv]) (auto simp: ring_ok_def)
  then show ?thesis using run Push_Start by (auto simp: push_event_def claimed_def)
next
  case (Push_Check v pos)
  have le: "pos \<le> length C" using ring_invD(2) [OF inv pc] Push_Check by simp
  note chk = window_check [OF ring_invD(1) [OF inv] le]
  have sg: "seq_sign (rs_seq (slot_at (ring s) pos)) pos = sgn (int (seq_of (ring s) pos) - int pos)"
    using chk(3) le small by (subst seq_sign_eq) (simp_all add: seq_of_def CAPACITY_def)
  have "ring_inv C n q (s\<lparr>pushers := (pushers s)(t \<mapsto> pc')\<rparr>)"
    using chk(1) le pc run Push_Check
    by (intro inv_local [OF inv]) (auto simp: sg Let_def sgn_if split: if_splits)
  then show ?thesis
    using run Push_Check chk(2) by (auto simp: sg Let_def sgn_if push_event_def claimed_def split: if_splits)
next
  case (Push_Claim v pos)
  show ?thesis
  proof (cases "pd_tail (ring s) = pos \<and> \<not> sp")
    case True
    then have "wrapping_add pos 1 = Suc pos"
      using ring_invD(1) [OF inv] small by (simp add: wrapping_add_small ring_ok_def)
    then show ?thesis
      using inv_claim [OF inv, of t v pos] True pc run Push_Claim by (auto simp: push_event_def claimed_def)
  next
    case False
    then have "ring_inv C n q (s\<lparr>pushers := (pushers s)(t \<mapsto> Push_Check v (pd_tail (ring s)))\<rparr>)"
      using ring_invD(1) [OF inv] pc Push_Claim by (intro inv_local [OF inv]) (auto simp: ring_ok_def)
    then show ?thesis using run Push_Claim False by (auto simp: push_event_def claimed_def)
  qed
next
  case (Push_Write v pos)
  then show ?thesis using inv_write [OF inv] pc run by (auto simp: push_event_def claimed_def)
next
  case (Push_Publish pos)
  then have "wrapping_add pos 1 = Suc pos"
    using ring_invD(2) [OF inv pc] small by (simp add: wrapping_add_small owns_ticket_def)
  then show ?thesis using inv_publish [OF inv] pc run Push_Publish by (auto simp: push_event_def claimed_def)
qed (use live in simp)

lemma freed_applied: "drainer_ok C n q (ring s) (drainer s) \<Longrightarrow> n \<le> freed s \<and> freed s \<le> Suc n"
  by (cases "(C, n, q, ring s, drainer s)" rule: drainer_ok.cases) (auto simp: freed_def drain_at_def)

lemma inv_drainer:
  assumes inv: "ring_inv C n q s" and d: "drainer s = Some pc" and run: "drain_step (ring s) pc = (pc', p)"
    and small: "length C \<le> 2 ^ 62"
  shows "ring_inv C (n + length (applied [drain_event pc])) q (s\<lparr>ring := p, drainer := Some pc'\<rparr>)"
proof (cases pc)
  case (Drain_Free fin pos v)
  then have "wrapping_add pos 1 = Suc pos" "wrapping_add pos CAPACITY = pos + CAPACITY"
    using ring_invD(5) [OF inv] d small by (auto simp: wrapping_add_small drain_at_def CAPACITY_def)
  then show ?thesis
    using inv_free [OF inv] d run Drain_Free by (auto simp: drain_event_def applied_def)
next
  case (Drain_Read fin pos)
  note I = ring_invD [OF inv]
  have "rs_value (slot_at (ring s) pos) = Some (C ! pos)"
    using ring_okD [OF I(1), of pos] I(5) d Drain_Read
    by (auto simp: seq_of_def val_of_def freed_def drain_at_def)
  then show ?thesis
    using run I(5) d Drain_Read by (intro inv_drain [OF inv]) (auto simp: freed_def drain_event_def applied_def)
next
  case (Drain_Wait fin pos)
  have "wrapping_add pos 1 = Suc pos"
    using ring_invD(5) [OF inv] d small Drain_Wait by (auto simp: wrapping_add_small drain_at_def)
  then show ?thesis
    using run ring_invD(5) [OF inv] d Drain_Wait
    by (intro inv_drain [OF inv]) (auto simp: freed_def drain_event_def applied_def seq_of_def split: if_splits)
next
  case Drain_Tail
  then have "n \<le> length C" using freed_applied [OF ring_invD(5) [OF inv]] ring_invD(1) [OF inv] by (auto simp: ring_ok_def)
  then show ?thesis
    using run ring_invD(1,5) [OF inv] d Drain_Tail
    by (intro inv_drain [OF inv]) (auto simp: freed_def drain_event_def applied_def drain_at_def ring_ok_def)
qed (use run ring_invD(5) [OF inv] d in \<open>intro inv_drain [OF inv]; auto simp: freed_def drain_event_def applied_def drain_at_def split: if_splits\<close>)+

lemma drain_applies:
  "ring_inv C n q s \<Longrightarrow> drainer s = Some pc \<Longrightarrow> drain_event pc = Applies v \<Longrightarrow> n < length C \<and> v = C ! n"
  using ring_invD(5) [of C n q s] by (auto simp: drain_event_def drain_at_def split: drain_pc.splits)

lemma inv_step:
  assumes inv: "ring_inv C n q s" and step: "ring_step s e s'" and small: "length C \<le> 2 ^ 62"
  shows "ring_inv (C @ claimed [e]) (n + length (applied [e])) (if e = Drains then length C else q) s'"
    and "e = Applies v \<Longrightarrow> n < length C \<and> v = C ! n"
    and "e = Refuses t \<Longrightarrow> n + CAPACITY \<le> length C"
proof -
  show "ring_inv (C @ claimed [e]) (n + length (applied [e])) (if e = Drains then length C else q) s'"
    using step
  proof cases
    case (step_push t pc spurious pc' p)
    have "applied [push_event t pc'] = []" "push_event t pc' \<noteq> Drains"
      by (auto simp: push_event_def applied_def split: push_pc.split bool.split)
    then show ?thesis using inv_push [OF inv _ _ small] step_push by auto
  next
    case (step_drain pc pc' p)
    have "claimed [e] = []" "e \<noteq> Drains"
      using step_drain(1) by (auto simp: drain_event_def claimed_def split: drain_pc.split)
    then show ?thesis using inv_drainer [OF inv step_drain(3,5) small] step_drain(1,2) by simp
  next
    case (call_drain)
    then show ?thesis
      using inv_drain [OF inv, where p = "ring s" and d = "Some Drain_Tail" and n' = n and q' = "length C"] ring_invD(5) [OF inv]
      by (simp add: claimed_def applied_def freed_def)
  next
    case (return_drain)
    then show ?thesis
      using inv_drain [OF inv, where p = "ring s" and d = None and n' = n and q' = q] ring_invD(5) [OF inv]
      by (simp add: claimed_def applied_def freed_def)
  next
    case (call_push t v)
    then show ?thesis using inv_local [OF inv, of t "Some (Push_Start v)"] by (simp add: claimed_def applied_def)
  next
    case (return_push t b)
    then show ?thesis using inv_local [OF inv, of t None] by (simp add: claimed_def applied_def)
  qed
  show "e = Applies v \<Longrightarrow> n < length C \<and> v = C ! n"
    using step drain_applies [OF inv]
    by cases (auto simp: push_event_def split: push_pc.splits bool.splits)
  show "n + CAPACITY \<le> length C" if "e = Refuses t"
    using step
  proof cases
    case (step_push u pc spurious pc' p)
    then have "u = t" using that by (auto simp: push_event_def split: push_pc.splits bool.splits)
    then have "freed s + CAPACITY \<le> length C" using inv_push [OF inv _ _ small] step_push that by metis
    then show ?thesis using freed_applied [OF ring_invD(5) [OF inv]] by linarith
  qed (use that in \<open>auto simp: drain_event_def split: drain_pc.splits\<close>)
qed

lemma inv_start: "ring_inv [] 0 0 ring_start"
proof -
  have s: "seq_of pending_default k = k" if "k < CAPACITY" for k
    using that by (simp add: seq_of_def slot_at_def pending_default_def)
  have "ring_ok [] 0 pending_default"
    by (rule ring_okI) (simp_all add: s, simp_all add: pending_default_def)
  then show ?thesis
    by (simp add: ring_inv_def ring_start_def freed_def owns_ticket_def) (simp add: pending_default_def)
qed

lemma run_inv:
  assumes "ring_run tr s" "length (claimed tr) \<le> 2 ^ 62"
  shows "ring_inv (claimed tr) (length (applied tr)) (asked_for tr) s \<and>
    applied tr = take (length (applied tr)) (claimed tr)"
  using assms
proof (induction rule: ring_run.induct)
  case run_start
  then show ?case using inv_start by (simp add: claimed_def applied_def asked_for_def)
next
  case (run_step tr s e s')
  have c: "claimed (tr @ [e]) = claimed tr @ claimed [e]" by (simp add: claimed_def)
  have a: "applied (tr @ [e]) = applied tr @ applied [e]" by (simp add: applied_def)
  have small: "length (claimed tr) \<le> 2 ^ 62" using run_step.prems by (simp add: c)
  then have IH: "ring_inv (claimed tr) (length (applied tr)) (asked_for tr) s"
    "applied tr = take (length (applied tr)) (claimed tr)" using run_step.IH by simp_all
  note S = inv_step [OF IH(1) run_step.hyps(2) small]
  have "applied (tr @ [e]) = take (length (applied (tr @ [e]))) (claimed (tr @ [e]))"
  proof (cases "\<exists>v. e = Applies v")
    case True
    then obtain v where v: "e = Applies v" by blast
    then have "claimed [e] = []" "applied [e] = [v]" by (simp_all add: claimed_def applied_def)
    then show ?thesis using IH(2) S(2) [OF v] by (simp add: c a take_Suc_conv_app_nth)
  next
    case False
    then have "applied [e] = []" by (cases e) (simp_all add: applied_def)
    moreover have "length (applied tr) \<le> length (claimed tr)" using IH(2) by (metis length_take min.cobounded1)
    ultimately show ?thesis using IH(2) by (simp add: c a)
  qed
  moreover have "ring_inv (claimed (tr @ [e])) (length (applied (tr @ [e]))) (asked_for (tr @ [e])) s'"
    using S(1) by (simp add: c a asked_for_snoc split: if_splits)
  ultimately show ?case by blast
qed

lemma run_split: "ring_run (tr1 @ e # tr2) s \<Longrightarrow> \<exists>s1 s2. ring_run tr1 s1 \<and> ring_step s1 e s2"
proof (induction tr2 arbitrary: s rule: rev_induct)
  case Nil
  then have "ring_run (tr1 @ [e]) s" by simp
  then show ?case by (cases rule: ring_run.cases) auto
next
  case (snoc x tr2)
  have "ring_run ((tr1 @ e # tr2) @ [x]) s" using snoc.prems by simp
  then obtain s' where "ring_run (tr1 @ e # tr2) s'" by (rule ring_run.cases) auto
  then show ?case by (rule snoc.IH)
qed

lemma run_refused:
  assumes "ring_run (tr1 @ Refuses t # tr2) s" "length (claimed (tr1 @ Refuses t # tr2)) \<le> 2 ^ 62"
  shows "length (applied tr1) + CAPACITY \<le> length (claimed tr1)"
proof -
  have small: "length (claimed tr1) \<le> 2 ^ 62" using assms(2) by (simp add: claimed_def)
  obtain s1 s2 where s1: "ring_run tr1 s1" "ring_step s1 (Refuses t) s2" using run_split [OF assms(1)] by blast
  show ?thesis using inv_step(3) [OF conjunct1 [OF run_inv [OF s1(1) small]] s1(2) small] by simp
qed

text \<open>No two steps ready at the same time access the value of one slot.\<close>

lemma touches_once:
  assumes inv: "ring_inv C n q s" and i: "touches s x i" "touches s y i"
  shows "x = y"
proof -
  have dr: False if t: "touches s (Some t) i" and d: "touches s None i" for t
  proof -
    obtain v k where k: "pushers s t = Some (Push_Write v k)" "k mod CAPACITY = i"
      using t by (auto simp: touches_def split: option.splits push_pc.splits)
    obtain fin j where j: "drainer s = Some (Drain_Read fin j)" "j mod CAPACITY = i"
      using d by (auto simp: touches_def split: option.splits drain_pc.splits)
    have own: "owns_ticket C (freed s) (ring s) k" using ring_invD(2) [OF inv k(1)] by simp
    have h: "holding (drainer s)" using j by simp
    have "freed s = j" using freed_holding [OF h] holdingD(2) [OF ring_invD(5) [OF inv] h] ring_invD(5) [OF inv] j(1) by simp
    then have "j = k" using own_slot [OF ring_invD(1) [OF inv] own, of j] k(2) j(2) by simp
    then show False using own j ring_invD(5) [OF inv] by (simp add: owns_ticket_def)
  qed
  have "t = u" if t: "touches s (Some t) i" "touches s (Some u) i" for t u
  proof (rule ccontr)
    assume "t \<noteq> u"
    obtain v k where k: "pushers s t = Some (Push_Write v k)" "k mod CAPACITY = i"
      using t(1) by (auto simp: touches_def split: option.splits push_pc.splits)
    obtain w j where j: "pushers s u = Some (Push_Write w j)" "j mod CAPACITY = i"
      using t(2) by (auto simp: touches_def split: option.splits push_pc.splits)
    show False using others_apart [OF inv, of t k u j] k j \<open>t \<noteq> u\<close> by simp
  qed
  then show ?thesis using i dr by (cases x; cases y) auto
qed

text \<open>
  A drain that waits is never stuck: the thread that claimed the ticket it waits for is in the middle of its
  push, and its next two steps at most fill the slot.
\<close>

lemma wait_has_pusher:
  assumes inv: "ring_inv C n q s" and d: "drainer s = Some (Drain_Wait fin pos)" and "seq_of (ring s) pos \<noteq> Suc pos"
  shows "\<exists>t. ticket (pushers s t) = Some pos"
proof -
  have at: "freed s = pos" "pos < length C" using ring_invD(5) [OF inv] d by (auto simp: freed_def drain_at_def)
  then have "seq_of (ring s) pos = pos" using ring_okD [OF ring_invD(1) [OF inv], of pos] assms(3) by auto
  then show ?thesis using ring_invD(4) [OF inv, of pos] at by (simp add: owns_ticket_def)
qed

section \<open>The queue\<close>

text \<open>
  C34: However the pushes of any number of threads and the drains of the lock's holder interleave, with fewer than
  2^62 changes ever pushed: the changes applied are the changes claimed, in the order of their tickets, each
  once and none lost; a finished drain has applied every change claimed before it was called; at most 1024
  changes wait besides the one in the drainer's hands, and a push is refused only when 1024 wait; no read of an
  uninitialised slot is reached; no two threads access one slot's value at the same time; and a drain only ever
  waits for a thread that is past claiming its ticket.
\<close>

theorem pending_fifo:
  assumes "ring_run tr s" "length (claimed tr) \<le> 2 ^ 62"
  shows "applied tr = take (length (applied tr)) (claimed tr) \<and>
    (drainer s = Some Drain_Done \<longrightarrow> asked_for tr \<le> length (applied tr)) \<and>
    length (claimed tr) \<le> length (applied tr) + CAPACITY + 1 \<and>
    (\<forall>tr1 t tr2. tr = tr1 @ Refuses t # tr2 \<longrightarrow> length (applied tr1) + CAPACITY \<le> length (claimed tr1)) \<and>
    drainer s \<noteq> Some Drain_Undefined \<and>
    (\<forall>x y i. touches s x i \<and> touches s y i \<longrightarrow> x = y) \<and>
    (\<forall>fin pos. drainer s = Some (Drain_Wait fin pos) \<and> rs_seq (slot_at (ring s) pos) \<noteq> Suc pos \<longrightarrow>
       (\<exists>t v. pushers s t = Some (Push_Write v pos) \<or> pushers s t = Some (Push_Publish pos)))"
proof -
  note inv = conjunct1 [OF run_inv [OF assms]] and I = ring_invD [OF conjunct1 [OF run_inv [OF assms]]]
  have room: "length (claimed tr) \<le> length (applied tr) + CAPACITY + 1"
    using I(1) freed_applied [OF I(5)] by (simp add: ring_ok_def)
  have wait: "\<exists>t v. pushers s t = Some (Push_Write v pos) \<or> pushers s t = Some (Push_Publish pos)"
    if w: "drainer s = Some (Drain_Wait fin pos)" "rs_seq (slot_at (ring s) pos) \<noteq> Suc pos" for fin pos
  proof -
    obtain t where "ticket (pushers s t) = Some pos"
      using wait_has_pusher [OF inv w(1)] w(2) by (auto simp: seq_of_def)
    then show ?thesis by (cases "pushers s t" rule: ticket.cases) auto
  qed
  have dr: "drainer s \<noteq> Some Drain_Undefined" "drainer s = Some Drain_Done \<longrightarrow> asked_for tr \<le> length (applied tr)"
    using I(5) by auto
  have refused: "length (applied tr1) + CAPACITY \<le> length (claimed tr1)" if "tr = tr1 @ Refuses t # tr2" for tr1 t tr2
    using run_refused assms unfolding that .
  have "\<forall>tr1 t tr2. tr = tr1 @ Refuses t # tr2 \<longrightarrow> length (applied tr1) + CAPACITY \<le> length (claimed tr1)"
    by (intro allI impI) (rule refused)
  moreover have "\<forall>x y i. touches s x i \<and> touches s y i \<longrightarrow> x = y"
    by (intro allI impI, elim conjE) (rule touches_once [OF inv])
  moreover have "\<forall>fin pos. drainer s = Some (Drain_Wait fin pos) \<and> rs_seq (slot_at (ring s) pos) \<noteq> Suc pos \<longrightarrow>
       (\<exists>t v. pushers s t = Some (Push_Write v pos) \<or> pushers s t = Some (Push_Publish pos))"
    by (intro allI impI, elim conjE) (rule wait)
  ultimately show ?thesis using conjunct2 [OF run_inv [OF assms]] dr room by (intro conjI)
qed

text \<open>One thread pushes while a drain waits for it.\<close>

definition reach :: "char list \<Rightarrow> char list \<Rightarrow> nat \<Rightarrow> char pending \<Rightarrow> char push_pc \<Rightarrow> char drain_pc option \<Rightarrow> bool" where
  "reach c a q p pc d \<longleftrightarrow> (\<exists>tr. ring_run tr \<lparr>ring = p, pushers = [2::nat \<mapsto> pc], drainer = d\<rparr> \<and>
     claimed tr = c \<and> applied tr = a \<and> asked_for tr = q)"

lemma reach_push:
  assumes "reach c a q p pc d" "\<forall>b. pc \<noteq> Push_Done b" "push_step False p pc = (pc', p')"
    and "(case pc' of Push_Write v _ \<Rightarrow> c @ [v] | _ \<Rightarrow> c) = c'"
  shows "reach c' a q p' pc' d"
proof -
  obtain tr where tr: "ring_run tr \<lparr>ring = p, pushers = [2::nat \<mapsto> pc], drainer = d\<rparr>"
    "claimed tr = c" "applied tr = a" "asked_for tr = q" using assms(1) unfolding reach_def by blast
  have "ring_run (tr @ [push_event 2 pc']) \<lparr>ring = p', pushers = [2::nat \<mapsto> pc'], drainer = d\<rparr>"
    using ring_run.run_step [OF tr(1) ring_step.step_push, of 2 pc False pc' p'] assms(2,3) by simp
  then show ?thesis using tr(2-4) assms(4) unfolding reach_def
    by (intro exI [of _ "tr @ [push_event 2 pc']"])
      (auto simp: claimed_snoc applied_snoc asked_for_snoc push_event_def split: push_pc.splits bool.splits)
qed

lemma reach_drain:
  assumes "reach c a q p pc (Some d)" "d \<noteq> Drain_Done" "drain_step p d = (d', p')"
    and "(case d of Drain_Apply _ _ v \<Rightarrow> a @ [v] | _ \<Rightarrow> a) = a'"
  shows "reach c a' q p' pc (Some d')"
proof -
  obtain tr where tr: "ring_run tr \<lparr>ring = p, pushers = [2::nat \<mapsto> pc], drainer = Some d\<rparr>"
    "claimed tr = c" "applied tr = a" "asked_for tr = q" using assms(1) unfolding reach_def by blast
  have "ring_run (tr @ [drain_event d]) \<lparr>ring = p', pushers = [2::nat \<mapsto> pc], drainer = Some d'\<rparr>"
    using ring_run.run_step [OF tr(1) ring_step.step_drain, of d d' p'] assms(2,3) by simp
  then show ?thesis using tr(2-4) assms(4) unfolding reach_def
    by (intro exI [of _ "tr @ [drain_event d]"])
      (auto simp: claimed_snoc applied_snoc asked_for_snoc drain_event_def split: drain_pc.splits)
qed

lemma reach_drains: "reach c a q p pc None \<Longrightarrow> reach c a (length c) p pc (Some Drain_Tail)"
  using ring_run.run_step [OF _ ring_step.call_drain] unfolding reach_def
  by (fastforce simp: claimed_snoc applied_snoc asked_for_snoc)

lemma reach_calls: "reach [] [] 0 pending_default (Push_Start v) None"
proof -
  have "ring_run [Calls 2 v] \<lparr>ring = pending_default, pushers = [2::nat \<mapsto> Push_Start v], drainer = None\<rparr>"
    using ring_run.run_step [OF ring_run.run_start ring_step.call_push, of 2 v] by (simp add: ring_start_def)
  then show ?thesis unfolding reach_def
    by (intro exI [of _ "[Calls 2 v]"]) (simp add: claimed_def applied_def asked_for_def)
qed

lemma reach_example: "\<exists>p. reach ''x'' ''x'' 1 p (Push_Done True) (Some Drain_Done)"
proof -
  define p0 :: "char pending" where "p0 = pending_default"
  define p1 where "p1 = p0\<lparr>pd_tail := 1\<rparr>"
  define p2 where "p2 = put_slot p1 0 ((slot_at p1 0)\<lparr>rs_value := Some CHR ''x''\<rparr>)"
  define p3 where "p3 = put_slot p2 0 ((slot_at p2 0)\<lparr>rs_seq := 1\<rparr>)"
  define p4 where "p4 = put_slot p3 0 ((slot_at p3 0)\<lparr>rs_seq := CAPACITY\<rparr>)"
  have len: "length (pd_slots p1) = CAPACITY" "length (pd_slots p2) = CAPACITY"
    by (simp_all add: p2_def p1_def p0_def pending_default_def)
  have sl: "slot_at p0 0 = \<lparr>rs_seq = 0, rs_value = None\<rparr>" "slot_at p1 0 = \<lparr>rs_seq = 0, rs_value = None\<rparr>"
    by (simp_all add: p1_def p0_def slot_at_def pending_default_def)
  have sl3: "slot_at p3 0 = \<lparr>rs_seq = 1, rs_value = Some CHR ''x''\<rparr>"
    using len by (simp add: p3_def p2_def slot_at_put sl)
  have cnt: "pd_head p0 = 0" "pd_tail p0 = 0" "pd_tail p1 = 1" "pd_head p1 = 0"
    by (simp_all add: p1_def p0_def pending_default_def)
  note ev = sl sl3 cnt seq_sign_def wrapping_sub_def wrapping_add_def wrap_i64_def CAPACITY_def
  have r: "reach [] [] 0 p0 (Push_Start CHR ''x'') None" unfolding p0_def by (rule reach_calls)
  have r: "reach [] [] 0 p0 (Push_Check CHR ''x'' 0) None"
    by (rule reach_push [OF r]) (simp_all add: cnt)
  have r: "reach [] [] 0 p0 (Push_Claim CHR ''x'' 0) None"
    by (rule reach_push [OF r]) (simp_all add: ev)
  have r: "reach ''x'' [] 0 p1 (Push_Write CHR ''x'' 0) None"
    by (rule reach_push [OF r]) (simp_all add: cnt p1_def wrapping_add_def)
  have r: "reach ''x'' [] 1 p1 (Push_Write CHR ''x'' 0) (Some Drain_Tail)"
    using reach_drains [OF r] by simp
  have r: "reach ''x'' [] 1 p1 (Push_Write CHR ''x'' 0) (Some (Drain_Head 1))"
    by (rule reach_drain [OF r]) (simp_all add: ev)
  have r: "reach ''x'' [] 1 p1 (Push_Write CHR ''x'' 0) (Some (Drain_Loop 1 0))"
    by (rule reach_drain [OF r]) (simp_all add: ev)
  have r: "reach ''x'' [] 1 p1 (Push_Write CHR ''x'' 0) (Some (Drain_Wait 1 0))"
    by (rule reach_drain [OF r]) simp_all
  have r: "reach ''x'' [] 1 p1 (Push_Write CHR ''x'' 0) (Some (Drain_Wait 1 0))"
    by (rule reach_drain [OF r]) (simp_all add: ev)
  have r: "reach ''x'' [] 1 p2 (Push_Publish 0) (Some (Drain_Wait 1 0))"
    by (rule reach_push [OF r]) (simp_all add: p2_def)
  have r: "reach ''x'' [] 1 p3 (Push_Done True) (Some (Drain_Wait 1 0))"
    by (rule reach_push [OF r]) (simp_all add: p3_def wrapping_add_def)
  have r: "reach ''x'' [] 1 p3 (Push_Done True) (Some (Drain_Read 1 0))"
    by (rule reach_drain [OF r]) (simp_all add: ev)
  have r: "reach ''x'' [] 1 p3 (Push_Done True) (Some (Drain_Free 1 0 CHR ''x''))"
    by (rule reach_drain [OF r]) (simp_all add: ev)
  have r: "reach ''x'' [] 1 p4 (Push_Done True) (Some (Drain_Store 1 1 CHR ''x''))"
    by (rule reach_drain [OF r]) (simp_all add: p4_def wrapping_add_def CAPACITY_def)
  have r: "reach ''x'' [] 1 (p4\<lparr>pd_head := 1\<rparr>) (Push_Done True) (Some (Drain_Apply 1 1 CHR ''x''))"
    by (rule reach_drain [OF r]) simp_all
  have r: "reach ''x'' ''x'' 1 (p4\<lparr>pd_head := 1\<rparr>) (Push_Done True) (Some (Drain_Loop 1 1))"
    by (rule reach_drain [OF r]) simp_all
  have "reach ''x'' ''x'' 1 (p4\<lparr>pd_head := 1\<rparr>) (Push_Done True) (Some Drain_Done)"
    by (rule reach_drain [OF r]) simp_all
  then show ?thesis by blast
qed

theorem pending_fifo_witness:
  "\<exists>tr (s :: (nat, char) ring_sys). ring_run tr s \<and> drainer s = Some Drain_Done \<and> claimed tr = ''x'' \<and> applied tr = ''x'' \<and>
     asked_for tr = 1 \<and> applied tr = take (length (applied tr)) (claimed tr) \<and> asked_for tr \<le> length (applied tr) \<and>
     (\<forall>x y i. touches s x i \<and> touches s y i \<longrightarrow> x = y)"
proof -
  obtain p tr where r: "ring_run tr \<lparr>ring = p, pushers = [2::nat \<mapsto> Push_Done True], drainer = Some Drain_Done\<rparr>"
    and tr: "claimed tr = ''x''" "applied tr = ''x''" "asked_for tr = 1"
    using reach_example unfolding reach_def by blast
  let ?s = "\<lparr>ring = p, pushers = [2::nat \<mapsto> Push_Done True], drainer = Some Drain_Done\<rparr>"
  have "length (claimed tr) \<le> 2 ^ 62" by (simp add: tr)
  note w = pending_fifo [OF r this]
  have "\<forall>x y i. touches ?s x i \<and> touches ?s y i \<longrightarrow> x = y" using w by blast
  moreover have "asked_for tr \<le> length (applied tr)" "applied tr = take (length (applied tr)) (claimed tr)"
    using w by (metis ring_sys.select_convs(3))+
  moreover have "drainer ?s = Some Drain_Done" by simp
  ultimately show ?thesis using r tr by blast
qed

end
