(* ===== verification/Rust_Bytes.thy ===== *)
theory Rust_Bytes
  imports Prelude
begin

text \<open>
  Byte strings as the sources use them: unsigned integers to and from their bytes in either order, and the
  lossy decoding of UTF-8. A byte is a character of 8 bits and a Rust string its UTF-8 bytes. Every supported
  host is little-endian, so \<^verbatim>\<open>to_ne_bytes\<close> and \<^verbatim>\<open>from_ne_bytes\<close> are the little-endian ones.
\<close>

section \<open>Integers\<close>

primrec le_nat :: "string \<Rightarrow> nat" where
  "le_nat [] = 0"
| "le_nat (c # cs) = of_char c + 256 * le_nat cs"

primrec le_bytes :: "nat \<Rightarrow> nat \<Rightarrow> string" where
  "le_bytes 0 n = []"
| "le_bytes (Suc w) n = char_of (n mod 256) # le_bytes w (n div 256)"

definition be_nat :: "string \<Rightarrow> nat" where
  "be_nat s = le_nat (rev s)"

lemma length_le_bytes [simp]: "length (le_bytes w n) = w"
  by (induction w arbitrary: n) simp_all

lemma le_nat_bytes: "le_nat (le_bytes w n) = n mod 256 ^ w"
proof (induction w arbitrary: n)
  case (Suc w)
  have "n mod 256 ^ Suc w = n mod 256 + 256 * (n div 256 mod 256 ^ w)"
    by (simp add: mod_mult2_eq)
  then show ?case using Suc by simp
qed simp

lemma of_char_less: "(of_char c :: nat) < 256"
  using of_char_mod_256 [of c] mod_less_divisor [of 256] by (metis zero_less_numeral)

lemma le_nat_less: "le_nat s < 256 ^ length s"
proof (induction s)
  case (Cons c s)
  then have "le_nat s + 1 \<le> 256 ^ length s" by simp
  then have "256 * le_nat s + 256 \<le> 256 * 256 ^ length s" by linarith
  then show ?case using of_char_less [of c] unfolding le_nat.simps length_Cons power_Suc by linarith
qed simp

lemma le_nat_append: "le_nat (s @ t) = le_nat s + 256 ^ length s * le_nat t"
  by (induction s) (simp_all add: algebra_simps)

lemma le_nat_zeros: "le_nat (replicate n (char_of (0::nat))) = 0"
  by (induction n) simp_all

section \<open>Text\<close>

text \<open>\<^verbatim>\<open>U+FFFD\<close> in UTF-8.\<close>

definition replacement :: string where
  "replacement = map char_of [239, 191, 189 :: nat]"

definition byte_in :: "nat \<Rightarrow> nat \<Rightarrow> char \<Rightarrow> bool" where
  "byte_in lo hi c \<longleftrightarrow> lo \<le> of_char c \<and> of_char c \<le> (hi :: nat)"

text \<open>The bytes that may follow a lead byte: the range of the second, and how many come after it.\<close>

definition lead :: "char \<Rightarrow> ((nat \<times> nat) \<times> nat) option" where
  "lead c =
     (let b = of_char c :: nat
      in if 194 \<le> b \<and> b \<le> 223 then Some ((128, 191), 0)
         else if b = 224 then Some ((160, 191), 1)
         else if b = 237 then Some ((128, 159), 1)
         else if 225 \<le> b \<and> b \<le> 239 then Some ((128, 191), 1)
         else if b = 240 then Some ((144, 191), 2)
         else if 241 \<le> b \<and> b \<le> 243 then Some ((128, 191), 2)
         else if b = 244 then Some ((128, 143), 2)
         else None)"

text \<open>How many of the next bytes continue the sequence, at most \<open>n\<close>.\<close>

fun continued :: "nat \<Rightarrow> string \<Rightarrow> nat" where
  "continued (Suc n) (c # cs) = (if byte_in 128 191 c then Suc (continued n cs) else 0)"
| "continued _ _ = 0"

text \<open>The length of the sequence at the head of a non-empty string, and whether it is a whole character.\<close>

definition utf8_step :: "string \<Rightarrow> nat \<times> bool" where
  "utf8_step s =
     (case s of
        [] \<Rightarrow> (0, False)
      | c # cs \<Rightarrow>
          (if of_char c < (128 :: nat) then (1, True)
           else case lead c of
             None \<Rightarrow> (1, False)
           | Some ((lo, hi), more) \<Rightarrow>
               (case cs of
                  [] \<Rightarrow> (1, False)
                | d # ds \<Rightarrow>
                    (if \<not> byte_in lo hi d then (1, False)
                     else (2 + continued more ds, continued more ds = more)))))"

lemma utf8_step_pos: "s \<noteq> [] \<Longrightarrow> 0 < fst (utf8_step s)"
  by (auto simp: utf8_step_def split: list.split option.split)

lemma utf8_step_shorter: "s \<noteq> [] \<Longrightarrow> (n, ok) = utf8_step s \<Longrightarrow> length (drop n s) < length s"
  using utf8_step_pos [of s] by (metis diff_less fst_conv length_drop length_greater_0_conv)

text \<open>\<^verbatim>\<open>String::from_utf8_lossy\<close>: every maximal part of an invalid sequence becomes one replacement character.\<close>

function from_utf8_lossy :: "string \<Rightarrow> string" where
  "from_utf8_lossy s =
     (if s = [] then []
      else let (n, ok) = utf8_step s
           in (if ok then take n s else replacement) @ from_utf8_lossy (drop n s))"
  by pat_completeness auto
termination by (relation "measure length") (simp, simp only: in_measure, erule utf8_step_shorter, assumption)

declare from_utf8_lossy.simps [simp del]

lemma from_utf8_lossy_Nil [simp]: "from_utf8_lossy [] = []"
  by (simp add: from_utf8_lossy.simps)

function valid_utf8 :: "string \<Rightarrow> bool" where
  "valid_utf8 s = (if s = [] then True else let (n, ok) = utf8_step s in if ok then valid_utf8 (drop n s) else False)"
  by pat_completeness auto
termination by (relation "measure length") (simp, simp only: in_measure, erule utf8_step_shorter, assumption)

declare valid_utf8.simps [simp del]

text \<open>Valid text is unchanged.\<close>

lemma lossy_valid: "valid_utf8 s \<Longrightarrow> from_utf8_lossy s = s"
proof (induction s rule: valid_utf8.induct)
  case (1 s)
  obtain n ok where n: "utf8_step s = (n, ok)" by fastforce
  then show ?case
    using 1 by (cases "s = []") (auto simp: from_utf8_lossy.simps [of s] valid_utf8.simps [of s])
qed

lemma ascii_valid: "(\<And>c. c \<in> set s \<Longrightarrow> of_char c < (128 :: nat)) \<Longrightarrow> valid_utf8 s"
proof (induction s)
  case (Cons c s)
  then have "utf8_step (c # s) = (1, True)" by (simp add: utf8_step_def)
  then show ?case using Cons by (subst valid_utf8.simps) simp
qed (simp add: valid_utf8.simps)

end
