(* ===== verification/Qdisc.thy ===== *)
theory Qdisc
  imports Errno Rust_Bytes BTree_Map Signed_Arith
begin

text \<open>
  \<^verbatim>\<open>snare/src/qdisc.rs\<close> and its callers in \<^verbatim>\<open>simhost.rs\<close>: the traffic-control qdiscs of a simulated
  interface as rtnetlink changes and lists them. Handles, parents and flags are machine words; the panic of
  indexing a \<^verbatim>\<open>BTreeMap\<close> with a key it lacks is the value \<open>None\<close> around the result.
\<close>

section \<open>Constants\<close>

definition TC_H_ROOT :: "32 word" where "TC_H_ROOT = 0xFFFFFFFF"

definition TC_H_INGRESS :: "32 word" where "TC_H_INGRESS = 0xFFFFFFF1"

definition TC_H_MAJ_MASK :: "32 word" where "TC_H_MAJ_MASK = 0xFFFF0000"

definition TC_H_MIN_MASK :: "32 word" where "TC_H_MIN_MASK = 0x0000FFFF"

definition NLM_F_REPLACE :: "16 word" where "NLM_F_REPLACE = 0x100"

definition NLM_F_EXCL :: "16 word" where "NLM_F_EXCL = 0x200"

definition NLM_F_CREATE :: "16 word" where "NLM_F_CREATE = 0x400"

definition TCA_KIND :: nat where "TCA_KIND = 1"

definition TCA_OPTIONS :: nat where "TCA_OPTIONS = 2"

definition TCA_ETF_PARMS :: nat where "TCA_ETF_PARMS = 1"

definition TC_ETF_OFFLOAD_ON :: "32 word" where "TC_ETF_OFFLOAD_ON = 2"

definition CLOCK_TAI :: int where "CLOCK_TAI = 11"

definition KINDS :: "string list" where
  "KINDS = [''pfifo_fast'', ''pfifo'', ''bfifo'', ''noqueue'', ''fq'', ''fq_codel'', ''codel'', ''sfq'', ''prio'',
     ''tbf'', ''htb'', ''mq'', ''mqprio'', ''taprio'', ''etf'']"

section \<open>Attributes\<close>

text \<open>\<^verbatim>\<open>find_attr\<close>, its position the rest of the run of attributes.\<close>

definition align4 :: "nat \<Rightarrow> nat" where
  "align4 n = (n + 3) div 4 * 4"

function find_attr :: "string \<Rightarrow> nat \<Rightarrow> string option" where
  "find_attr rest want =
     (if length rest < 4 then None
      else let len = le_nat (take 2 rest);
               ty = take_bit 14 (le_nat (take 2 (drop 2 rest)))
           in if len < 4 \<or> length rest < len then None
              else if ty = want then Some (drop 4 (take len rest))
              else find_attr (drop (align4 len) rest) want)"
  by pat_completeness auto
termination by (relation "measure (length \<circ> fst)") (auto simp: align4_def)

declare find_attr.simps [simp del]

section \<open>The qdiscs of an interface\<close>

record qdisc =
  qd_kind :: string
  qd_handle :: "32 word"
  qd_etf :: "(int \<times> int \<times> 32 word) option"

record nic_qdiscs =
  nq_root :: qdisc
  nq_children :: "(nat, qdisc) btree"

record device =
  dv_num_tx :: nat
  dv_real_tx :: nat
  dv_no_queue :: bool
  dv_default :: string
  dv_offload :: "nat list option"

definition default_for :: "device \<Rightarrow> nat \<Rightarrow> qdisc" where
  "default_for dev minor =
     \<lparr>qd_kind = (if minor \<le> dv_real_tx dev then dv_default dev else ''pfifo_fast''), qd_handle = 0, qd_etf = None\<rparr>"

definition defaults :: "device \<Rightarrow> (nat, qdisc) btree" where
  "defaults dev = map (\<lambda>minor. (minor, default_for dev minor)) [1..<Suc (dv_num_tx dev mod 2 ^ 32)]"

definition qd_initial :: "device \<Rightarrow> (int \<times> int \<times> 32 word) option \<Rightarrow> nic_qdiscs" where
  "qd_initial dev etf =
     (let leaf = (\<lambda>kind. \<lparr>qd_kind = kind, qd_handle = 0, qd_etf = (if kind = ''etf'' then etf else None)\<rparr>)
      in if dv_no_queue dev then \<lparr>nq_root = leaf ''noqueue'', nq_children = []\<rparr>
         else if dv_num_tx dev > 1 \<and> dv_default dev \<noteq> ''etf''
         then \<lparr>nq_root = leaf ''mq'', nq_children = defaults dev\<rparr>
         else \<lparr>nq_root = leaf (dv_default dev), nq_children = []\<rparr>)"

definition classful :: "nic_qdiscs \<Rightarrow> bool" where
  "classful nq \<longleftrightarrow> qd_kind (nq_root nq) \<in> {''mq'', ''mqprio'', ''taprio''}"

text \<open>The parameters of \<^verbatim>\<open>etf\<close> at transmit queue \<open>queue\<close>.\<close>

definition etf_parms :: "device \<Rightarrow> string option \<Rightarrow> nat option \<Rightarrow> errno + (int \<times> int \<times> 32 word)" where
  "etf_parms dev options queue =
     (case Option.bind options (\<lambda>p. find_attr p TCA_ETF_PARMS) of
        None \<Rightarrow> Inl EINVAL
      | Some parms \<Rightarrow>
          (if length parms < 12 then Inl EINVAL
           else let wd = (\<lambda>at'. wrap_i32 (int (le_nat (take 4 (drop at' parms)))));
                    delta = wd 0; clockid = wd 4; flags = word_of_int (wd 8) :: 32 word
                in if clockid < 0 then Inl ENOTSUPP
                   else if clockid \<noteq> CLOCK_TAI \<or> delta < 0 then Inl EINVAL
                   else if flags AND TC_ETF_OFFLOAD_ON \<noteq> 0
                   then (case dv_offload dev of
                           None \<Rightarrow> Inl EOPNOTSUPP
                         | Some queues \<Rightarrow>
                             if (case queue of Some q \<Rightarrow> q mod 2 ^ 16 | None \<Rightarrow> 0) \<notin> set queues then Inl EINVAL
                             else Inr (delta, clockid, flags))
                   else Inr (delta, clockid, flags)))"

definition qd_create :: "device \<Rightarrow> string \<Rightarrow> 32 word \<Rightarrow> string option \<Rightarrow> nat option \<Rightarrow> errno + qdisc" where
  "qd_create dev kind handle options queue =
     (if kind \<notin> set KINDS then Inl ENOENT
      else if kind = ''mq'' \<and> (queue \<noteq> None \<or> dv_num_tx dev < 2) then Inl EOPNOTSUPP
      else if kind = ''etf''
      then (case etf_parms dev options queue of
              Inl e \<Rightarrow> Inl e
            | Inr parms \<Rightarrow> Inr \<lparr>qd_kind = kind, qd_handle = handle, qd_etf = Some parms\<rparr>)
      else Inr \<lparr>qd_kind = kind, qd_handle = handle, qd_etf = None\<rparr>)"

section \<open>Changing a qdisc\<close>

text \<open>The minor half of a class handle.\<close>

definition minor_of :: "32 word \<Rightarrow> nat" where
  "minor_of parent = unat (parent AND TC_H_MIN_MASK)"

text \<open>The transmit queue a request is for: \<open>None\<close> for the root.\<close>

definition modify_queue :: "device \<Rightarrow> nic_qdiscs \<Rightarrow> 32 word \<Rightarrow> errno + nat option" where
  "modify_queue dev nq parent =
     (if parent = TC_H_ROOT then Inr None
      else let h = qd_handle (nq_root nq)
           in if h = 0 \<or> h AND TC_H_MAJ_MASK \<noteq> parent AND TC_H_MAJ_MASK then Inl ENOENT
              else if \<not> classful nq then Inl EOPNOTSUPP
              else if minor_of parent = 0 \<or> minor_of parent > dv_num_tx dev then Inl ENOENT
              else Inr (Some (minor_of parent - 1)))"

text \<open>
  Whether a qdisc is created, and then whether that needs \<^verbatim>\<open>NLM_F_CREATE\<close>, or (\<open>None\<close>) the one there is changed.
\<close>

definition modify_create :: "16 word \<Rightarrow> 32 word \<Rightarrow> 32 word \<Rightarrow> bool \<Rightarrow> errno + bool option" where
  "modify_create flags handle existing differs =
     (let present = (existing \<noteq> 0);
          both = (\<lambda>a b. flags AND (a OR b) = (a OR b))
      in if \<not> present \<or> handle = 0 \<or> existing \<noteq> handle
         then (if handle \<noteq> 0
               then (if present \<and> flags AND NLM_F_REPLACE = 0 then Inl EEXIST
                     else if handle AND TC_H_MIN_MASK \<noteq> 0 then Inl EINVAL
                     else Inr (Some True))
               else if \<not> present \<or> (differs \<and> (both NLM_F_CREATE NLM_F_REPLACE \<or> both NLM_F_CREATE NLM_F_EXCL))
               then Inr (Some True)
               else if differs \<and> flags AND (NLM_F_CREATE OR NLM_F_REPLACE OR NLM_F_EXCL) = 0 then Inr (Some False)
               else Inr None)
         else Inr None)"

text \<open>The name of the kind in a request: up to its first 0 byte.\<close>

definition attr_kind :: "string \<Rightarrow> string option" where
  "attr_kind attrs =
     map_option (\<lambda>k. from_utf8_lossy (takeWhile (\<lambda>b. b \<noteq> char_of (0::nat)) k)) (find_attr attrs TCA_KIND)"

text \<open>Creating the qdisc asked for and putting it in place.\<close>

definition modify_place ::
  "device \<Rightarrow> nic_qdiscs \<Rightarrow> 32 word \<Rightarrow> 32 word \<Rightarrow> string \<Rightarrow> string option \<Rightarrow> nat option \<Rightarrow> errno + nic_qdiscs \<times> 32 word" where
  "modify_place dev nq auto handle kind options queue =
     (let next_auto = auto + 0x10000
      in case qd_create dev kind (if handle \<noteq> 0 then handle else next_auto) options queue of
           Inl e \<Rightarrow> Inl e
         | Inr new \<Rightarrow>
             Inr ((case queue of
                     None \<Rightarrow> \<lparr>nq_root = new, nq_children = (if qd_kind new = ''mq'' then defaults dev else [])\<rparr>
                   | Some q \<Rightarrow> nq\<lparr>nq_children := bt_set (q + 1) new (nq_children nq)\<rparr>),
                  if handle = 0 then next_auto else auto))"

definition qd_modify ::
  "device \<Rightarrow> nic_qdiscs \<Rightarrow> 32 word \<Rightarrow> 16 word \<Rightarrow> 32 word \<Rightarrow> 32 word \<Rightarrow> string \<Rightarrow> (errno + nic_qdiscs \<times> 32 word) option" where
  "qd_modify dev nq auto flags handle parent attrs =
     (let kind = attr_kind attrs;
          options = find_attr attrs TCA_OPTIONS
      in if parent = TC_H_INGRESS then Some (Inl EOPNOTSUPP)
         else if parent = 0 then Some (Inl (if handle = 0 then EINVAL else ENOENT))
         else case modify_queue dev nq parent of
           Inl e \<Rightarrow> Some (Inl e)
         | Inr queue \<Rightarrow>
             (case (case queue of None \<Rightarrow> Some (nq_root nq) | Some q \<Rightarrow> bt_get (nq_children nq) (q + 1)) of
                None \<Rightarrow> None
              | Some existing \<Rightarrow>
                  (let differs = (case kind of Some k \<Rightarrow> k \<noteq> qd_kind existing | None \<Rightarrow> False)
                   in case modify_create flags handle (qd_handle existing) differs of
                        Inl e \<Rightarrow> Some (Inl e)
                      | Inr None \<Rightarrow>
                          Some (if flags AND NLM_F_EXCL \<noteq> 0 then Inl EEXIST
                                else if differs then Inl EINVAL
                                else if options \<noteq> None \<and> qd_kind existing \<in> {''mq'', ''etf''} then Inl EINVAL
                                else Inr (nq, auto))
                      | Inr (Some needs) \<Rightarrow>
                          Some (if needs \<and> flags AND NLM_F_CREATE = 0 then Inl ENOENT
                                else case kind of
                                  None \<Rightarrow> Inl EINVAL
                                | Some k \<Rightarrow> modify_place dev nq auto handle k options queue))))"

section \<open>Deleting a qdisc\<close>

definition delete_queue :: "device \<Rightarrow> nic_qdiscs \<Rightarrow> 32 word \<Rightarrow> errno + nat option" where
  "delete_queue dev nq parent =
     (if parent = TC_H_ROOT then Inr None
      else let h = qd_handle (nq_root nq)
           in if h = 0 \<or> h AND TC_H_MAJ_MASK \<noteq> parent AND TC_H_MAJ_MASK \<or> \<not> classful nq then Inl ENOENT
              else if minor_of parent = 0 \<or> minor_of parent > dv_num_tx dev then Inl ENOENT
              else Inr (Some (minor_of parent)))"

definition qd_delete :: "device \<Rightarrow> nic_qdiscs \<Rightarrow> 32 word \<Rightarrow> 32 word \<Rightarrow> (errno + nic_qdiscs) option" where
  "qd_delete dev nq handle parent =
     (if parent = 0 then Some (Inl EINVAL)
      else case delete_queue dev nq parent of
        Inl e \<Rightarrow> Some (Inl e)
      | Inr queue \<Rightarrow>
          (case (case queue of None \<Rightarrow> Some (nq_root nq) | Some m \<Rightarrow> bt_get (nq_children nq) m) of
             None \<Rightarrow> None
           | Some q \<Rightarrow>
               Some (if handle \<noteq> 0 \<and> qd_handle q \<noteq> handle then Inl EINVAL
                     else if qd_handle q = 0 then Inl ENOENT
                     else Inr (case queue of
                                 None \<Rightarrow> qd_initial dev None
                               | Some m \<Rightarrow> nq\<lparr>nq_children := bt_set m (default_for dev m) (nq_children nq)\<rparr>))))"

section \<open>Listing\<close>

definition qd_listing :: "nic_qdiscs \<Rightarrow> nat \<Rightarrow> (32 word \<times> 32 word \<times> qdisc) list" where
  "qd_listing nq real_tx =
     (qd_handle (nq_root nq), TC_H_ROOT, nq_root nq)
     # map (\<lambda>(minor, q). (qd_handle q, (qd_handle (nq_root nq) AND TC_H_MAJ_MASK) OR of_nat minor, q))
         (filter (\<lambda>(minor, q). qd_handle q \<noteq> 0 \<or> minor \<le> real_tx) (nq_children nq))"

section \<open>Messages\<close>

text \<open>\<^verbatim>\<open>push_rtattr\<close> and \<^verbatim>\<open>nl_message\<close> pad what they have written to a multiple of 4 bytes.\<close>

definition pad4 :: "string \<Rightarrow> string" where
  "pad4 out = out @ replicate (align4 (length out) - length out) (char_of (0::nat))"

definition push_rtattr :: "string \<Rightarrow> nat \<Rightarrow> string \<Rightarrow> bool \<Rightarrow> string" where
  "push_rtattr out ty payload nul_terminate =
     (let data = payload @ (if nul_terminate then [char_of (0::nat)] else [])
      in pad4 (out @ le_bytes 2 (4 + length data) @ le_bytes 2 ty @ data))"

definition nl_message :: "nat \<Rightarrow> nat \<Rightarrow> nat \<Rightarrow> string \<Rightarrow> string" where
  "nl_message ty flags sq body =
     pad4 (le_bytes 4 (16 + length body) @ le_bytes 2 ty @ le_bytes 2 flags @ le_bytes 4 sq @ le_bytes 4 0 @ body)"

text \<open>The fixed part of \<^verbatim>\<open>struct tcmsg\<close> and the attributes of one entry of a dump.\<close>

definition tcmsg :: "nat \<Rightarrow> 32 word \<Rightarrow> 32 word \<Rightarrow> string" where
  "tcmsg ifindex handle parent =
     replicate 4 (char_of (0::nat)) @ le_bytes 4 ifindex @ le_bytes 4 (unat handle) @ le_bytes 4 (unat parent) @ le_bytes 4 0"

definition i32_bytes :: "int \<Rightarrow> string" where
  "i32_bytes x = le_bytes 4 (nat (x mod 2 ^ 32))"

definition push_qdisc :: "string \<Rightarrow> qdisc \<Rightarrow> string" where
  "push_qdisc body q =
     (let b1 = push_rtattr body TCA_KIND (qd_kind q) True
      in case qd_etf q of
           None \<Rightarrow> b1
         | Some (delta, clockid, flags) \<Rightarrow>
             push_rtattr b1 TCA_OPTIONS
               (push_rtattr [] TCA_ETF_PARMS (i32_bytes delta @ i32_bytes clockid @ le_bytes 4 (unat flags)) False) False)"

record qd_nic =
  qn_ifindex :: nat
  qn_num_tx :: nat
  qn_tx :: nat
  qn_no_queue :: bool
  qn_offload :: "nat list option"
  qn_qdiscs :: nic_qdiscs

definition build_getqdisc_dump :: "qd_nic list \<Rightarrow> nat \<Rightarrow> string" where
  "build_getqdisc_dump nics sq =
     concat (map (\<lambda>nic.
       concat (map (\<lambda>(handle, parent, q). nl_message 36 2 sq (push_qdisc (tcmsg (qn_ifindex nic) handle parent) q))
         (qd_listing (qn_qdiscs nic) (qn_tx nic)))) nics)
     @ nl_message 3 2 sq (le_bytes 4 0)"

section \<open>Requests\<close>

record qd_host =
  qh_default :: string
  qh_auto :: "32 word"
  qh_nics :: "qd_nic list"

definition word_at :: "string \<Rightarrow> nat \<Rightarrow> nat" where
  "word_at req at' = le_nat (take 4 (drop at' req))"

definition nic_device :: "qd_host \<Rightarrow> qd_nic \<Rightarrow> device" where
  "nic_device h nic =
     \<lparr>dv_num_tx = qn_num_tx nic, dv_real_tx = qn_tx nic, dv_no_queue = qn_no_queue nic, dv_default = qh_default h,
      dv_offload = qn_offload nic\<rparr>"

text \<open>\<^verbatim>\<open>change_qdisc\<close>; \<open>cap\<close> is whether the process has \<^verbatim>\<open>CAP_NET_ADMIN\<close>, and the interfaces are in the order they are searched.\<close>

definition change_qdisc :: "bool \<Rightarrow> qd_host \<Rightarrow> bool \<Rightarrow> 16 word \<Rightarrow> string \<Rightarrow> (errno option \<times> qd_host) option" where
  "change_qdisc cap h new flags req =
     (if \<not> cap then Some (Some EPERM, h)
      else if length req < 36 then Some (Some EINVAL, h)
      else let handle = of_nat (word_at req 24) :: 32 word;
               parent = of_nat (word_at req 28) :: 32 word;
               len = max 36 (min (word_at req 0) (length req));
               attrs = drop 36 (take len req)
           in case position (\<lambda>n. qn_ifindex n = word_at req 20) (qh_nics h) of
                None \<Rightarrow> Some (Some ENODEV, h)
              | Some i \<Rightarrow>
                  (let nic = qh_nics h ! i;
                       dev = nic_device h nic
                   in if new
                      then (case qd_modify dev (qn_qdiscs nic) (qh_auto h) flags handle parent attrs of
                              None \<Rightarrow> None
                            | Some (Inl e) \<Rightarrow> Some (Some e, h)
                            | Some (Inr (nq, auto)) \<Rightarrow>
                                Some (None, h\<lparr>qh_auto := auto, qh_nics := (qh_nics h)[i := nic\<lparr>qn_qdiscs := nq\<rparr>]\<rparr>))
                      else (case qd_delete dev (qn_qdiscs nic) handle parent of
                              None \<Rightarrow> None
                            | Some (Inl e) \<Rightarrow> Some (Some e, h)
                            | Some (Inr nq) \<Rightarrow>
                                Some (None, h\<lparr>qh_nics := (qh_nics h)[i := nic\<lparr>qn_qdiscs := nq\<rparr>]\<rparr>))))"

section \<open>The invariant\<close>

text \<open>
  Under an attached \<^verbatim>\<open>mq\<close> every allocated transmit queue has its qdisc, and under any other attached root none has.
\<close>

definition nic_wf :: "device \<Rightarrow> nic_qdiscs \<Rightarrow> bool" where
  "nic_wf dev nq \<longleftrightarrow> bt_wf (nq_children nq) \<and> (qd_handle (nq_root nq) \<noteq> 0 \<longrightarrow>
     dom (bt_get (nq_children nq)) = (if qd_kind (nq_root nq) = ''mq'' then {1..dv_num_tx dev} else {}))"

text \<open>A request for a class of a root that has classes but no table of them.\<close>

definition names_class :: "device \<Rightarrow> nic_qdiscs \<Rightarrow> 32 word \<Rightarrow> bool" where
  "names_class dev nq parent \<longleftrightarrow> parent \<noteq> TC_H_ROOT \<and> qd_handle (nq_root nq) \<noteq> 0 \<and>
     qd_handle (nq_root nq) AND TC_H_MAJ_MASK = parent AND TC_H_MAJ_MASK \<and>
     0 < minor_of parent \<and> minor_of parent \<le> dv_num_tx dev"

lemma defaults_get:
  assumes "dv_num_tx dev < 2 ^ 32"
  shows "bt_get (defaults dev) m = (if 1 \<le> m \<and> m \<le> dv_num_tx dev then Some (default_for dev m) else None)"
proof -
  have "bt_get (map (\<lambda>m. (m, default_for dev m)) [1..<Suc n]) m = (if 1 \<le> m \<and> m \<le> n then Some (default_for dev m) else None)" for n
    by (auto simp: map_of_map_restrict restrict_map_def)
  then show ?thesis using assms unfolding defaults_def by simp
qed

lemma defaults_wf [simp]: "bt_wf (defaults dev)"
  by (simp add: defaults_def bt_wf_def comp_def del: upt_Suc)

lemma defaults_dom: "dv_num_tx dev < 2 ^ 32 \<Longrightarrow> dom (bt_get (defaults dev)) = {1..dv_num_tx dev}"
  by (auto simp: defaults_get split: if_splits)

lemma initial_wf: "dv_num_tx dev < 2 ^ 32 \<Longrightarrow> nic_wf dev (qd_initial dev etf)"
  by (simp add: nic_wf_def qd_initial_def Let_def)

text \<open>The queue a request is for has an entry unless the root is \<^verbatim>\<open>mqprio\<close> or \<^verbatim>\<open>taprio\<close>.\<close>

lemma modify_queue_entry:
  assumes "nic_wf dev nq" "modify_queue dev nq parent = Inr (Some q)"
  shows "names_class dev nq parent" "q + 1 = minor_of parent" "classful nq"
    and "bt_get (nq_children nq) (q + 1) = None \<longleftrightarrow> qd_kind (nq_root nq) \<noteq> ''mq''"
proof -
  show n: "names_class dev nq parent" "q + 1 = minor_of parent" "classful nq"
    using assms(2) by (auto simp: modify_queue_def names_class_def Let_def split: if_splits)
  have "dom (bt_get (nq_children nq)) = (if qd_kind (nq_root nq) = ''mq'' then {1..dv_num_tx dev} else {})"
    using assms(1) n(1) by (simp add: nic_wf_def names_class_def)
  then show "bt_get (nq_children nq) (q + 1) = None \<longleftrightarrow> qd_kind (nq_root nq) \<noteq> ''mq''"
    using n(1,2) by (auto simp: names_class_def domIff set_eq_iff split: if_splits)
qed

definition listless :: "nic_qdiscs \<Rightarrow> bool" where
  "listless nq \<longleftrightarrow> qd_kind (nq_root nq) \<in> {''mqprio'', ''taprio''}"

lemma classful_cases: "classful nq \<longleftrightarrow> qd_kind (nq_root nq) = ''mq'' \<or> listless nq"
  by (auto simp: classful_def listless_def)

lemma names_class_nonzero: "names_class dev nq parent \<Longrightarrow> parent \<noteq> 0"
  by (auto simp: names_class_def minor_of_def)

lemma names_class_queue:
  "names_class dev nq parent \<Longrightarrow> classful nq \<Longrightarrow> modify_queue dev nq parent = Inr (Some (minor_of parent - 1))"
  "names_class dev nq parent \<Longrightarrow> classful nq \<Longrightarrow> delete_queue dev nq parent = Inr (Some (minor_of parent))"
  by (simp_all add: names_class_def modify_queue_def delete_queue_def Let_def)

lemma listless_not_mq: "listless nq \<Longrightarrow> qd_kind (nq_root nq) \<noteq> ''mq''"
  by (auto simp: listless_def)

lemma modify_None:
  assumes "nic_wf dev nq"
  shows "qd_modify dev nq auto flags handle parent attrs = None \<longleftrightarrow>
    parent \<noteq> TC_H_INGRESS \<and> names_class dev nq parent \<and> listless nq"
proof
  assume n: "qd_modify dev nq auto flags handle parent attrs = None"
  then have "parent \<noteq> TC_H_INGRESS" "\<exists>q. modify_queue dev nq parent = Inr (Some q) \<and> bt_get (nq_children nq) (q + 1) = None"
    unfolding qd_modify_def Let_def by (auto split: if_splits sum.splits option.splits)
  then obtain q where q: "modify_queue dev nq parent = Inr (Some q)" "bt_get (nq_children nq) (q + 1) = None"
    "parent \<noteq> TC_H_INGRESS" by blast
  note e = modify_queue_entry [OF assms q(1)]
  show "parent \<noteq> TC_H_INGRESS \<and> names_class dev nq parent \<and> listless nq"
    using e q(2,3) by (simp add: classful_cases)
next
  assume a: "parent \<noteq> TC_H_INGRESS \<and> names_class dev nq parent \<and> listless nq"
  then have q: "modify_queue dev nq parent = Inr (Some (minor_of parent - 1))"
    by (simp add: names_class_queue classful_cases)
  have "bt_get (nq_children nq) (minor_of parent - 1 + 1) = None"
    using modify_queue_entry(4) [OF assms q] a listless_not_mq by blast
  then show "qd_modify dev nq auto flags handle parent attrs = None"
    using a q names_class_nonzero [of dev nq parent] by (simp add: qd_modify_def)
qed

lemma delete_None:
  assumes "nic_wf dev nq"
  shows "qd_delete dev nq handle parent = None \<longleftrightarrow> names_class dev nq parent \<and> listless nq"
proof -
  have d: "delete_queue dev nq parent = Inr (Some m) \<longleftrightarrow> names_class dev nq parent \<and> classful nq \<and> m = minor_of parent" for m
    by (auto simp: delete_queue_def names_class_def Let_def split: if_splits)
  have c: "bt_get (nq_children nq) (minor_of parent) = None \<longleftrightarrow> qd_kind (nq_root nq) \<noteq> ''mq''"
    if "names_class dev nq parent" "classful nq"
    using modify_queue_entry(2,4) [OF assms names_class_queue(1) [OF that]] by simp
  show ?thesis
  proof
    assume "qd_delete dev nq handle parent = None"
    then obtain m where "delete_queue dev nq parent = Inr (Some m)" "bt_get (nq_children nq) m = None"
      unfolding qd_delete_def by (auto split: if_splits sum.splits option.splits)
    then show "names_class dev nq parent \<and> listless nq" using d c by (auto simp: classful_cases)
  next
    assume a: "names_class dev nq parent \<and> listless nq"
    then show "qd_delete dev nq handle parent = None"
      using d [of "minor_of parent"] c listless_not_mq names_class_nonzero [of dev nq parent]
      by (simp add: qd_delete_def classful_cases)
  qed
qed

lemma create_kind: "qd_create dev kind handle options queue = Inr q \<Longrightarrow> qd_kind q = kind \<and> qd_handle q = handle \<and> kind \<in> set KINDS"
  by (auto simp: qd_create_def split: if_splits sum.splits)

lemma set_child_wf:
  assumes "nic_wf dev nq" "bt_get (nq_children nq) m \<noteq> None"
  shows "nic_wf dev (nq\<lparr>nq_children := bt_set m q (nq_children nq)\<rparr>)"
  using assms by (auto simp: nic_wf_def)

lemma modify_wf:
  assumes wf: "nic_wf dev nq" "dv_num_tx dev < 2 ^ 32"
    and run: "qd_modify dev nq auto flags handle parent attrs = Some (Inr (nq', auto'))"
  shows "nic_wf dev nq'"
proof -
  consider "nq' = nq" | queue k where "modify_queue dev nq parent = Inr queue"
      "(case queue of None \<Rightarrow> Some (nq_root nq) | Some q \<Rightarrow> bt_get (nq_children nq) (q + 1)) \<noteq> None"
      "modify_place dev nq auto handle k (find_attr attrs TCA_OPTIONS) queue = Inr (nq', auto')"
    using run unfolding qd_modify_def Let_def by (auto split: if_splits sum.splits option.splits)
  then show ?thesis
  proof cases
    case (2 queue k)
    let ?new = "qd_create dev k (if handle \<noteq> 0 then handle else auto + 0x10000) (find_attr attrs TCA_OPTIONS) queue"
    obtain new where new: "?new = Inr new" using 2(3) by (cases ?new) (simp_all add: modify_place_def)
    show ?thesis
    proof (cases queue)
      case None
      then have "nq' = \<lparr>nq_root = new, nq_children = (if qd_kind new = ''mq'' then defaults dev else [])\<rparr>"
        using 2(3) new by (simp add: modify_place_def)
      then show ?thesis
        using defaults_dom [OF wf(2)] by (cases "qd_kind new = ''mq''") (simp_all add: nic_wf_def)
    next
      case (Some q)
      then have "nq' = nq\<lparr>nq_children := bt_set (q + 1) new (nq_children nq)\<rparr>"
        using 2(3) new by (simp add: modify_place_def)
      then show ?thesis using set_child_wf [OF wf(1), of "q + 1" new] 2(2) Some by simp
    qed
  qed (use wf in simp)
qed

lemma delete_wf:
  assumes wf: "nic_wf dev nq" "dv_num_tx dev < 2 ^ 32" and run: "qd_delete dev nq handle parent = Some (Inr nq')"
  shows "nic_wf dev nq'"
proof -
  consider "nq' = qd_initial dev None" | m q where "bt_get (nq_children nq) m \<noteq> None"
      "nq' = nq\<lparr>nq_children := bt_set m (default_for dev m) (nq_children nq)\<rparr>"
    using run unfolding qd_delete_def by (auto split: if_splits sum.splits option.splits)
  then show ?thesis using set_child_wf [OF wf(1)] initial_wf [OF wf(2)] by cases simp_all
qed

definition host_wf :: "qd_host \<Rightarrow> bool" where
  "host_wf h \<longleftrightarrow> (\<forall>nic \<in> set (qh_nics h). qn_num_tx nic < 2 ^ 32 \<and> nic_wf (nic_device h nic) (qn_qdiscs nic))"

text \<open>The request reaches a class of an attached \<^verbatim>\<open>mqprio\<close> or \<^verbatim>\<open>taprio\<close> root.\<close>

definition reaches_listless :: "bool \<Rightarrow> qd_host \<Rightarrow> bool \<Rightarrow> string \<Rightarrow> bool" where
  "reaches_listless cap h new req \<longleftrightarrow> cap \<and> 36 \<le> length req \<and>
     (let parent = of_nat (word_at req 28) :: 32 word
      in case position (\<lambda>n. qn_ifindex n = word_at req 20) (qh_nics h) of
           None \<Rightarrow> False
         | Some i \<Rightarrow>
             names_class (nic_device h (qh_nics h ! i)) (qn_qdiscs (qh_nics h ! i)) parent \<and>
             listless (qn_qdiscs (qh_nics h ! i)) \<and> (new \<longrightarrow> parent \<noteq> TC_H_INGRESS))"

lemma nic_wf_cong: "dv_num_tx dev = dv_num_tx dev' \<Longrightarrow> nic_wf dev nq = nic_wf dev' nq"
  by (simp add: nic_wf_def)

lemma host_wf_update:
  assumes "host_wf h" "i < length (qh_nics h)" "nic_wf (nic_device h (qh_nics h ! i)) nq"
  shows "host_wf (h\<lparr>qh_auto := a, qh_nics := (qh_nics h)[i := (qh_nics h ! i)\<lparr>qn_qdiscs := nq\<rparr>]\<rparr>)"
proof -
  have c: "nic_wf (nic_device (h\<lparr>qh_auto := a, qh_nics := ns\<rparr>) (nic\<lparr>qn_qdiscs := q\<rparr>)) n = nic_wf (nic_device h nic) n" for ns nic q n
    by (rule nic_wf_cong) (simp add: nic_device_def)
  have d: "nic_wf (nic_device (h\<lparr>qh_auto := a, qh_nics := ns\<rparr>) nic) n = nic_wf (nic_device h nic) n" for ns nic n
    by (rule nic_wf_cong) (simp add: nic_device_def)
  show ?thesis using assms c d set_update_subset_insert [of "qh_nics h" i]
    unfolding host_wf_def by (fastforce dest!: subsetD)
qed

text \<open>
  C35: Changing a qdisc over rtnetlink keeps the tables of every interface well formed (an attached mq has a qdisc on
  each allocated transmit queue, any other attached root has none) and leaves the host alone when it fails. It
  panics for exactly one kind of request: one that names a class of an attached mqprio or taprio root, whose
  classes are taken to exist but were never entered.
\<close>

theorem change_qdisc_safe:
  assumes "host_wf h"
  shows "case change_qdisc cap h new flags req of
      None \<Rightarrow> reaches_listless cap h new req
    | Some (r, h') \<Rightarrow> \<not> reaches_listless cap h new req \<and> host_wf h' \<and> (r \<noteq> None \<longrightarrow> h' = h)"
proof (cases "cap \<and> 36 \<le> length req")
  case True
  show ?thesis
  proof (cases "position (\<lambda>n. qn_ifindex n = word_at req 20) (qh_nics h)")
    case None
    then show ?thesis using True assms by (simp add: change_qdisc_def reaches_listless_def)
  next
    case (Some i)
    then have i: "i < length (qh_nics h)" by (simp add: position_Some_iff)
    let ?nic = "qh_nics h ! i"
    have wf: "nic_wf (nic_device h ?nic) (qn_qdiscs ?nic)" "dv_num_tx (nic_device h ?nic) < 2 ^ 32"
      using assms i by (simp_all add: host_wf_def nic_device_def)
    let ?parent = "of_nat (word_at req 28) :: 32 word" and ?handle = "of_nat (word_at req 24) :: 32 word"
    let ?attrs = "drop 36 (take (max 36 (min (word_at req 0) (length req))) req)"
    have reach: "reaches_listless cap h new req \<longleftrightarrow> names_class (nic_device h ?nic) (qn_qdiscs ?nic) ?parent \<and>
        listless (qn_qdiscs ?nic) \<and> (new \<longrightarrow> ?parent \<noteq> TC_H_INGRESS)"
      using True Some by (simp add: reaches_listless_def Let_def)
    show ?thesis
    proof (cases new)
      case True
      note m = modify_None [OF wf(1), of "qh_auto h" flags ?handle ?parent ?attrs]
        modify_wf [OF wf, of "qh_auto h" flags ?handle ?parent ?attrs]
      let ?m = "qd_modify (nic_device h ?nic) (qn_qdiscs ?nic) (qh_auto h) flags ?handle ?parent ?attrs"
      have run: "change_qdisc cap h new flags req = (case ?m of None \<Rightarrow> None | Some (Inl e) \<Rightarrow> Some (Some e, h)
          | Some (Inr (nq, auto)) \<Rightarrow> Some (None, h\<lparr>qh_auto := auto, qh_nics := (qh_nics h)[i := ?nic\<lparr>qn_qdiscs := nq\<rparr>]\<rparr>))"
        using \<open>cap \<and> 36 \<le> length req\<close> Some True by (simp add: change_qdisc_def Let_def)
      show ?thesis
        using m host_wf_update [OF assms i] assms True unfolding run reach
        by (cases ?m rule: option.exhaust; cases "the ?m"; auto split: prod.split)
    next
      case False
      note d = delete_None [OF wf(1), of ?handle ?parent] delete_wf [OF wf, of ?handle ?parent]
      let ?d = "qd_delete (nic_device h ?nic) (qn_qdiscs ?nic) ?handle ?parent"
      have run: "change_qdisc cap h new flags req = (case ?d of None \<Rightarrow> None | Some (Inl e) \<Rightarrow> Some (Some e, h)
          | Some (Inr nq) \<Rightarrow> Some (None, h\<lparr>qh_nics := (qh_nics h)[i := ?nic\<lparr>qn_qdiscs := nq\<rparr>]\<rparr>))"
        using \<open>cap \<and> 36 \<le> length req\<close> Some False by (simp add: change_qdisc_def Let_def)
      show ?thesis
        using d host_wf_update [OF assms i, of _ "qh_auto h"] assms False unfolding run reach
        by (cases ?d rule: option.exhaust; cases "the ?d"; auto)
    qed
  qed
qed (auto simp: change_qdisc_def reaches_listless_def assms)

section \<open>Attributes read back\<close>

definition rtattr :: "nat \<Rightarrow> string \<Rightarrow> string" where
  "rtattr ty data = pad4 (le_bytes 2 (4 + length data) @ le_bytes 2 ty @ data)"

lemma align4_add: "4 dvd m \<Longrightarrow> align4 (m + n) = m + align4 n"
proof -
  assume "4 dvd m"
  then obtain k where m: "m = 4 * k" by (rule dvdE)
  have "(4 * k + (n + 3)) div 4 = k + (n + 3) div 4" by (rule div_mult_self4) simp
  then show ?thesis unfolding m align4_def add.assoc by simp
qed

lemma align4_ge: "n \<le> align4 n"
  using div_mult_mod_eq [of "n + 3" 4] mod_less_divisor [of 4 "n + 3"] unfolding align4_def by linarith

lemma length_pad4 [simp]: "length (pad4 s) = align4 (length s)"
  using align4_ge [of "length s"] by (simp add: pad4_def)

lemma align4_dvd [simp]: "4 dvd align4 n"
  by (simp add: align4_def)

lemma align4_align [simp]: "align4 (align4 n) = align4 n"
  using align4_add [of "align4 n" 0] by (simp add: align4_def)

lemma pad4_append: "4 dvd length out \<Longrightarrow> pad4 (out @ s) = out @ pad4 s"
  by (simp add: pad4_def align4_add)

lemma push_rtattr_eq:
  "4 dvd length out \<Longrightarrow> push_rtattr out ty payload nul = out @ rtattr ty (payload @ (if nul then [char_of (0::nat)] else []))"
  by (simp only: push_rtattr_def rtattr_def Let_def pad4_append)

lemma find_attr_rtattr:
  assumes "length data < 65532" "ty < 2 ^ 14"
  shows "find_attr (rtattr ty data @ rest) want = (if ty = want then Some data else find_attr rest want)"
proof -
  define n where "n = 4 + length data"
  define l where "l = rtattr ty data @ rest"
  have len: "length (rtattr ty data) = align4 n" by (simp add: rtattr_def n_def del: add_2_eq_Suc add_2_eq_Suc')
  have l: "l = le_bytes 2 n @ le_bytes 2 ty @ data @ replicate (align4 n - n) (char_of (0::nat)) @ rest"
    by (simp add: l_def rtattr_def pad4_def n_def del: add_2_eq_Suc add_2_eq_Suc')
  have "take 2 l = le_bytes 2 n" "take 2 (drop 2 l) = le_bytes 2 ty" "drop 4 (take n l) = data"
    unfolding l by (simp_all add: n_def)
  moreover have "le_nat (le_bytes 2 n) = n" "take_bit 14 (le_nat (le_bytes 2 ty)) = ty"
    using assms by (simp_all add: le_nat_bytes take_bit_eq_mod power2_eq_square n_def)
  moreover have "n \<le> length l" "4 \<le> n" using len align4_ge [of n] by (simp_all add: l_def n_def)
  moreover have "drop (align4 n) l = rest" using len by (simp add: l_def)
  ultimately have "find_attr l want = (if ty = want then Some data else find_attr rest want)"
    by (subst find_attr.simps) simp
  then show ?thesis unfolding l_def .
qed

lemma request_words:
  assumes "req = nl_message ty fl sq (tcmsg ix h p @ rest)"
  shows "36 \<le> length req" "word_at req 20 = ix mod 2 ^ 32" "word_at req 24 = unat h" "word_at req 28 = unat p"
proof -
  have w: "unat x mod 4294967296 = unat x" for x :: "32 word" using unsigned_less [of x, where ?'a = nat] by simp
  show "36 \<le> length req" using align4_ge [of "36 + length rest"] by (simp add: assms nl_message_def tcmsg_def)
  show "word_at req 20 = ix mod 2 ^ 32" "word_at req 24 = unat h" "word_at req 28 = unat p"
    by (simp_all add: assms nl_message_def tcmsg_def pad4_def word_at_def le_nat_bytes w)
qed

lemma request_attrs:
  assumes "req = nl_message ty fl sq (tcmsg ix h p @ rest)" "36 + length rest < 2 ^ 32" "4 dvd length rest"
  shows "drop 36 (take (max 36 (min (word_at req 0) (length req))) req) = rest"
proof -
  let ?b = "tcmsg ix h p @ rest"
  have tl: "length (tcmsg ix h p) = 20" by (simp add: tcmsg_def)
  have al: "align4 (36 + length rest) = 36 + length rest"
    using align4_add [of "36 + length rest" 0] assms(3) by (simp add: align4_def)
  have req: "req = (le_bytes 4 (36 + length rest) @ le_bytes 2 ty @ le_bytes 2 fl @ le_bytes 4 sq @ le_bytes 4 0 @ tcmsg ix h p) @ rest"
    using al by (simp add: assms(1) nl_message_def pad4_def tl)
  have "word_at req 0 = 36 + length rest" using assms(2) by (simp add: req word_at_def le_nat_bytes)
  moreover have "length req = 36 + length rest" by (simp add: req tl)
  ultimately show ?thesis by (simp add: req tl)
qed

text \<open>The numbers of the parameters of \<^verbatim>\<open>etf\<close> through their bytes.\<close>

lemma i32_bytes_read: "in_i32 x \<Longrightarrow> wrap_i32 (int (le_nat (i32_bytes x))) = x"
proof -
  assume x: "in_i32 x"
  have "int (le_nat (i32_bytes x)) = x mod 2 ^ 32" by (simp add: i32_bytes_def le_nat_bytes nat_mod_as_int)
  then have "wrap_i32 (int (le_nat (i32_bytes x))) = wrap_i32 x" by (simp add: wrap_i32_def mod_add_left_eq)
  then show ?thesis using wrap_i32_id [OF x] by simp
qed

lemma wrap_i32_word: "(word_of_int (wrap_i32 x) :: 32 word) = word_of_int x"
proof -
  have "wrap_i32 x mod 2 ^ 32 = x mod 2 ^ 32" unfolding wrap_i32_def by (simp add: mod_diff_left_eq)
  then show ?thesis by (simp add: word_of_int_eq_iff take_bit_eq_mod)
qed

lemma flags_read: "(word_of_int (wrap_i32 (int (le_nat (le_bytes 4 (unat f))))) :: 32 word) = f"
proof -
  have "unat f mod 4294967296 = unat f" using unsigned_less [of f, where ?'a = nat] by simp
  then show ?thesis by (simp add: wrap_i32_word le_nat_bytes)
qed

lemma CLOCK_TAI_range: "in_i32 CLOCK_TAI"
  by (simp add: CLOCK_TAI_def in_i32_def)

lemma etf_parms_parts:
  assumes "etf_parms dev options queue = Inr (d, c, f)"
  shows "in_i32 d" "in_i32 c"
    and "\<And>parms. length parms = 12 \<Longrightarrow> wrap_i32 (int (le_nat (take 4 parms))) = d \<Longrightarrow>
      wrap_i32 (int (le_nat (take 4 (drop 4 parms)))) = c \<Longrightarrow>
      (word_of_int (wrap_i32 (int (le_nat (take 4 (drop 8 parms))))) :: 32 word) = f \<Longrightarrow>
      find_attr opts TCA_ETF_PARMS = Some parms \<Longrightarrow> etf_parms dev (Some opts) queue = Inr (d, c, f)"
  using assms wrap_i32_range CLOCK_TAI_range
  by (auto simp: etf_parms_def Let_def split: option.splits if_splits)

lemma KINDS_text: "kind \<in> set KINDS \<Longrightarrow> valid_utf8 kind \<and> char_of (0::nat) \<notin> set kind \<and> length kind < 20"
proof -
  assume "kind \<in> set KINDS"
  then have "list_all (\<lambda>c. 0 < (of_char c :: nat) \<and> of_char c < (128 :: nat)) kind \<and> length kind < 20"
    by (auto simp: KINDS_def)
  then show ?thesis by (auto simp: list_all_iff intro!: ascii_valid)
qed

lemma attr_kind_rtattr:
  assumes "kind \<in> set KINDS"
  shows "attr_kind (rtattr TCA_KIND (kind @ [char_of (0::nat)]) @ rest) = Some kind"
proof -
  note k = KINDS_text [OF assms]
  have "takeWhile (\<lambda>b. b \<noteq> char_of (0::nat)) (kind @ [char_of (0::nat)]) = kind"
    using k by (subst takeWhile_append2) auto
  moreover have "find_attr (rtattr TCA_KIND (kind @ [char_of (0::nat)]) @ rest) TCA_KIND = Some (kind @ [char_of (0::nat)])"
    using k by (subst find_attr_rtattr) (simp_all add: TCA_KIND_def)
  ultimately show ?thesis using k lossy_valid by (simp add: attr_kind_def)
qed

lemma create_options:
  "kind \<noteq> ''etf'' \<Longrightarrow> qd_create dev kind h o1 queue = qd_create dev kind h o2 queue"
  "etf_parms dev o1 queue = etf_parms dev o2 queue \<Longrightarrow> qd_create dev kind h o1 queue = qd_create dev kind h o2 queue"
  unfolding qd_create_def by (simp_all only: if_False)

text \<open>
  C36: What a dump shows of a qdisc recreates it: for any qdisc a request created, reading the kind and the options
  back from the attributes the dump writes for it and creating a qdisc from them gives the same qdisc.
\<close>

theorem dump_recreates:
  assumes "qd_create dev kind handle options queue = Inr q"
  shows "let attrs = drop 20 (push_qdisc (tcmsg ix handle parent) q)
    in attr_kind attrs = Some kind \<and> qd_create dev kind handle (find_attr attrs TCA_OPTIONS) queue = Inr q"
proof -
  let ?z = "char_of (0::nat) :: char"
  have k: "qd_kind q = kind" "kind \<in> set KINDS" using create_kind [OF assms] by simp_all
  note kt = KINDS_text [OF k(2)]
  let ?kd = "rtattr TCA_KIND (kind @ [?z])"
  have tl: "length (tcmsg ix handle parent) = 20" by (simp add: tcmsg_def)
  have one: "push_rtattr (tcmsg ix handle parent) TCA_KIND (qd_kind q) True = tcmsg ix handle parent @ ?kd"
    using tl k(1) by (subst push_rtattr_eq) simp_all
  have skip: "find_attr (?kd @ rest) TCA_OPTIONS = find_attr rest TCA_OPTIONS" for rest
    using kt by (subst find_attr_rtattr) (simp_all add: TCA_KIND_def TCA_OPTIONS_def)
  show ?thesis
  proof (cases "qd_etf q")
    case None
    then have "drop 20 (push_qdisc (tcmsg ix handle parent) q) = ?kd" using tl by (simp add: push_qdisc_def one)
    moreover have ne: "kind \<noteq> ''etf''" using assms None by (auto simp: qd_create_def split: if_splits sum.splits)
    moreover have "qd_create dev kind handle (find_attr ?kd TCA_OPTIONS) queue = Inr q"
      using create_options(1) [OF ne] assms by (rule trans)
    ultimately show ?thesis using attr_kind_rtattr [OF k(2), of "[]"] by (simp only: Let_def append_Nil2)
  next
    case (Some e)
    obtain d c f where e: "e = (d, c, f)" by (cases e)
    have et: "kind = ''etf''" "etf_parms dev options queue = Inr (d, c, f)"
      using assms Some e by (auto simp: qd_create_def split: if_splits sum.splits)
    let ?ps = "i32_bytes d @ i32_bytes c @ le_bytes 4 (unat f)"
    let ?op = "rtattr TCA_ETF_PARMS ?ps"
    have lens: "length (i32_bytes x) = 4" for x by (simp add: i32_bytes_def)
    have dv: "4 dvd length (tcmsg ix handle parent @ ?kd)" using tl by (simp add: rtattr_def)
    have "push_qdisc (tcmsg ix handle parent) q = (tcmsg ix handle parent @ ?kd) @ rtattr TCA_OPTIONS ?op"
      using Some e by (simp only: push_qdisc_def Let_def one option.case prod.case push_rtattr_eq [OF dv]
          push_rtattr_eq [of "[]"] if_False append_Nil append_Nil2 list.size dvd_0_right)
    then have attrs: "drop 20 (push_qdisc (tcmsg ix handle parent) q) = ?kd @ rtattr TCA_OPTIONS ?op" using tl by simp
    have ol: "length ?op = 16" by (simp add: rtattr_def lens align4_def)
    have opt: "find_attr (?kd @ rtattr TCA_OPTIONS ?op) TCA_OPTIONS = Some ?op"
      unfolding skip using find_attr_rtattr [of ?op TCA_OPTIONS "[]" TCA_OPTIONS, unfolded append_Nil2] ol
      by (simp add: TCA_OPTIONS_def)
    have ps: "find_attr ?op TCA_ETF_PARMS = Some ?ps"
      using find_attr_rtattr [of ?ps TCA_ETF_PARMS "[]" TCA_ETF_PARMS] by (simp add: lens TCA_ETF_PARMS_def)
    have "etf_parms dev (Some ?op) queue = Inr (d, c, f)"
      by (rule etf_parms_parts(3) [OF et(2) _ _ _ _ ps])
        (simp_all add: lens i32_bytes_read etf_parms_parts(1,2) [OF et(2)] flags_read)
    then have "qd_create dev kind handle (Some ?op) queue = qd_create dev kind handle options queue"
      using et(2) by (intro create_options(2)) simp
    then show ?thesis
      using attr_kind_rtattr [OF k(2)] assms unfolding attrs Let_def opt by simp
  qed
qed

definition demo_options :: string where
  "demo_options = rtattr TCA_ETF_PARMS (i32_bytes 5 @ i32_bytes 11 @ le_bytes 4 (unat (0 :: 32 word)))"

definition demo_dev :: device where
  "demo_dev = \<lparr>dv_num_tx = 2, dv_real_tx = 2, dv_no_queue = False, dv_default = ''fq'', dv_offload = None\<rparr>"

lemma demo_parms: "etf_parms demo_dev (Some demo_options) None = Inr (5, 11, 0)"
proof -
  let ?ps = "i32_bytes 5 @ i32_bytes 11 @ le_bytes 4 (unat (0 :: 32 word))"
  have lens: "length (i32_bytes x) = 4" for x by (simp add: i32_bytes_def)
  have "find_attr demo_options TCA_ETF_PARMS = Some ?ps"
    using find_attr_rtattr [of ?ps TCA_ETF_PARMS "[]" TCA_ETF_PARMS] by (simp add: demo_options_def lens TCA_ETF_PARMS_def)
  moreover have "in_i32 5" "in_i32 11" by (simp_all add: in_i32_def)
  ultimately show ?thesis
    using flags_read [of 0] by (simp add: etf_parms_def lens i32_bytes_read CLOCK_TAI_def)
qed

theorem dump_recreates_witness:
  "\<exists>q. qd_create demo_dev ''etf'' 0x10000 (Some demo_options) None = Inr q \<and> qd_etf q = Some (5, 11, 0) \<and>
     qd_create demo_dev ''etf'' 0x10000 (find_attr (drop 20 (push_qdisc (tcmsg 2 0x10000 TC_H_ROOT) q)) TCA_OPTIONS) None = Inr q"
proof -
  let ?q = "\<lparr>qd_kind = ''etf'', qd_handle = 0x10000, qd_etf = Some (5, 11, 0)\<rparr>"
  have c: "qd_create demo_dev ''etf'' 0x10000 (Some demo_options) None = Inr ?q"
    by (simp add: qd_create_def demo_parms KINDS_def)
  show ?thesis
    using dump_recreates [OF c, of 2 TC_H_ROOT] c by (intro exI [of _ ?q]) (simp add: Let_def)
qed

text \<open>A host with one interface of two transmit queues, on which \<^verbatim>\<open>mqprio\<close> is attached and then a class of it named.\<close>

definition demo_nic :: qd_nic where
  "demo_nic = \<lparr>qn_ifindex = 2, qn_num_tx = 2, qn_tx = 2, qn_no_queue = False, qn_offload = None,
     qn_qdiscs = qd_initial \<lparr>dv_num_tx = 2, dv_real_tx = 2, dv_no_queue = False, dv_default = ''fq'', dv_offload = None\<rparr> None\<rparr>"

definition demo_host :: qd_host where
  "demo_host = \<lparr>qh_default = ''fq'', qh_auto = 0x80000000, qh_nics = [demo_nic]\<rparr>"

definition demo_request :: "32 word \<Rightarrow> 32 word \<Rightarrow> string \<Rightarrow> string" where
  "demo_request handle parent kind = nl_message 36 1024 7 (push_rtattr (tcmsg 2 handle parent) TCA_KIND kind True)"

definition demo_mqprio :: qd_host where
  "demo_mqprio = demo_host\<lparr>qh_nics := [demo_nic\<lparr>qn_qdiscs := \<lparr>nq_root = \<lparr>qd_kind = ''mqprio'', qd_handle = 0x10000, qd_etf = None\<rparr>, nq_children = []\<rparr>\<rparr>]\<rparr>"

lemma demo_wf: "host_wf demo_host"
  unfolding host_wf_def demo_host_def demo_nic_def
  by (simp add: nic_device_def initial_wf)

lemma demo_request_eq:
  "demo_request handle parent kind = nl_message 36 1024 7 (tcmsg 2 handle parent @ rtattr TCA_KIND (kind @ [char_of (0::nat)]))"
  by (subst demo_request_def, subst push_rtattr_eq) (simp_all add: tcmsg_def)

lemma demo_request_reads:
  assumes "kind \<in> set KINDS"
  shows "36 \<le> length (demo_request h p kind)" "word_at (demo_request h p kind) 20 = 2"
    "word_at (demo_request h p kind) 24 = unat h" "word_at (demo_request h p kind) 28 = unat p"
    and "attr_kind (drop 36 (take (max 36 (min (word_at (demo_request h p kind) 0) (length (demo_request h p kind)))) (demo_request h p kind)))
      = Some kind"
proof -
  note k = KINDS_text [OF assms]
  note w = request_words [OF demo_request_eq [of h p kind]]
  show "36 \<le> length (demo_request h p kind)" "word_at (demo_request h p kind) 20 = 2"
    "word_at (demo_request h p kind) 24 = unat h" "word_at (demo_request h p kind) 28 = unat p"
    using w by simp_all
  have "length (rtattr TCA_KIND (kind @ [char_of (0::nat)])) < 100" using k by (simp add: rtattr_def align4_def) linarith
  then show "attr_kind (drop 36 (take (max 36 (min (word_at (demo_request h p kind) 0) (length (demo_request h p kind)))) (demo_request h p kind)))
      = Some kind"
    using attr_kind_rtattr [OF assms, of "[]"] by (subst request_attrs [OF demo_request_eq]) (simp_all add: rtattr_def)
qed

lemma demo_attach:
  "change_qdisc True demo_host True 0x400 (demo_request 0x10000 TC_H_ROOT ''mqprio'') = Some (None, demo_mqprio)"
  using demo_request_reads [of "''mqprio''" "0x10000" TC_H_ROOT]
  by (simp add: change_qdisc_def Let_def qd_modify_def modify_queue_def modify_create_def modify_place_def qd_create_def KINDS_def
      demo_host_def demo_nic_def demo_mqprio_def nic_device_def qd_initial_def TC_H_ROOT_def TC_H_INGRESS_def NLM_F_REPLACE_def
      NLM_F_CREATE_def TC_H_MIN_MASK_def)

theorem change_qdisc_safe_witness:
  "host_wf demo_host \<and>
   change_qdisc True demo_host True 0x400 (demo_request 0x10000 TC_H_ROOT ''mqprio'') = Some (None, demo_mqprio) \<and> host_wf demo_mqprio \<and>
   change_qdisc True demo_mqprio True 0x400 (demo_request 0 0x10001 ''fq'') = None"
proof -
  have wf: "host_wf demo_mqprio" using change_qdisc_safe [OF demo_wf, where cap = True and new = True and flags = "0x400" and req = "demo_request 0x10000 TC_H_ROOT ''mqprio''"] demo_attach by simp
  have "reaches_listless True demo_mqprio True (demo_request 0 0x10001 ''fq'')"
    using demo_request_reads [of "''fq''" 0 "0x10001"]
    by (simp add: reaches_listless_def Let_def demo_mqprio_def demo_host_def demo_nic_def KINDS_def names_class_def listless_def nic_device_def
        TC_H_ROOT_def TC_H_INGRESS_def TC_H_MAJ_MASK_def TC_H_MIN_MASK_def minor_of_def)
  then have "change_qdisc True demo_mqprio True 0x400 (demo_request 0 0x10001 ''fq'') = None"
    using change_qdisc_safe [OF wf, where cap = True and new = True and flags = "0x400" and req = "demo_request 0 0x10001 ''fq''"] by (simp split: option.splits)
  then show ?thesis using demo_wf demo_attach wf by blast
qed

end
