(* ===== verification/Tcp_Transport.thy ===== *)
theory Tcp_Transport
  imports Rust_Bytes
begin

text \<open>
  \<^verbatim>\<open>snare/src/tcp_transport.rs\<close>: the sending and receiving ends of Linux TCP as far as a stream shows them.
  It cuts what was written into segments, keeps them inside the window the receiver last advertised, and moves
  that window as the receiver's memory fills and empties. Sequence numbers are natural numbers: they count the
  bytes of one direction of one connection. The subtractions the source writes without saturation are the
  truncated ones here, and \<open>tt_wf\<close> shows that none of them truncates.
\<close>

section \<open>State\<close>

record segment =
  sg_bytes :: string
  sg_mss :: nat
  sg_end :: nat

record tcp_transport =
  tt_pending :: "string list"
  tt_offset :: nat
  tt_written :: nat
  tt_transmitted :: nat
  tt_received :: nat
  tt_window_end :: nat
  tt_advertised :: nat
  tt_max_window :: nat
  tt_buffer :: nat
  tt_ratio :: nat
  tt_threshold :: nat
  tt_clamp :: nat
  tt_receive_mss :: nat
  tt_advmss :: nat
  tt_initial_mss :: nat
  tt_initial_goal :: nat
  tt_initial_pushes :: nat
  tt_scale :: nat
  tt_gso_max :: nat
  tt_cwnd :: nat

section \<open>Operations\<close>

text \<open>The loop of \<^verbatim>\<open>TcpTransport::new\<close> that finds the window scale.\<close>

function grow_scale :: "nat \<Rightarrow> nat \<Rightarrow> nat" where
  "grow_scale space scale = (if 65535 < space div scale \<and> scale < 128 then grow_scale space (scale * 2) else scale)"
  by pat_completeness auto
termination
proof (relation "measure (\<lambda>(space, scale). 128 - scale)")
  fix space scale :: nat
  assume "65535 < space div scale \<and> scale < 128"
  then have "0 < scale" "scale < 128" by (auto intro: Nat.gr0I)
  then show "((space, scale * 2), (space, scale)) \<in> measure (\<lambda>(space, scale). 128 - scale)" by auto
qed simp

declare grow_scale.simps [simp del]

definition new_transport :: "nat \<Rightarrow> nat \<Rightarrow> bool \<Rightarrow> nat \<Rightarrow> tcp_transport" where
  "new_transport buffer mtu v6 gso_size =
     (let header = if v6 then 72 else 52;
          advmss = max (saturating_sub (min mtu 65535) header) 1;
          gso_max = max (saturating_sub gso_size header) advmss;
          space = buffer div 2;
          advertised = min (if advmss < space then space div advmss * advmss else space) 65535;
          scale = grow_scale (buffer div 2) 1;
          initial_mss = min advmss (max (advertised div 2) 1);
          initial_goal = initial_mss * max (min gso_max (advertised div 2) div initial_mss) 1
      in \<lparr>tt_pending = [], tt_offset = 0, tt_written = 0, tt_transmitted = 0, tt_received = 0,
          tt_window_end = advertised, tt_advertised = advertised, tt_max_window = advertised, tt_buffer = buffer,
          tt_ratio = 128, tt_threshold = space, tt_clamp = space, tt_receive_mss = min initial_goal 536,
          tt_advmss = advmss, tt_initial_mss = initial_mss, tt_initial_goal = initial_goal,
          tt_initial_pushes = 2, tt_scale = scale, tt_gso_max = gso_max, tt_cwnd = 10\<rparr>)"

definition pending_bytes :: "tcp_transport \<Rightarrow> nat" where
  "pending_bytes t = sum_list (map length (tt_pending t)) - tt_offset t"

definition transport_push :: "string \<Rightarrow> tcp_transport \<Rightarrow> tcp_transport" where
  "transport_push bytes t = t\<lparr>tt_pending := tt_pending t @ [bytes], tt_written := tt_written t + length bytes\<rparr>"

definition transport_mss :: "tcp_transport \<Rightarrow> nat" where
  "transport_mss t = min (tt_advmss t) (max (tt_max_window t div 2) 1)"

definition transport_direct :: "nat \<Rightarrow> tcp_transport \<Rightarrow> nat option \<times> tcp_transport" where
  "transport_direct len t =
     (if tt_pending t \<noteq> [] \<or> transport_mss t < len \<or> saturating_sub (tt_window_end t) (tt_transmitted t) < len
      then (None, t)
      else (Some (transport_mss t),
            t\<lparr>tt_written := tt_written t + len, tt_transmitted := tt_transmitted t + len\<rparr>))"

text \<open>
  The copying loop of \<^verbatim>\<open>next\<close>, \<open>n\<close> what it still has to copy. \<open>None\<close> is a panic: the queue is empty, or the
  offset lies past the front piece.
\<close>

function next_bytes :: "nat \<Rightarrow> string list \<Rightarrow> nat \<Rightarrow> string \<Rightarrow> (string \<times> string list \<times> nat) option" where
  "next_bytes n pending offset bytes =
     (if n = 0 then Some (bytes, pending, offset)
      else case pending of [] \<Rightarrow> None
        | front # rest \<Rightarrow>
            if length front < offset then None
            else let k = min n (length front - offset);
                     bytes' = bytes @ take k (drop offset front)
                 in if offset + k = length front then next_bytes (n - k) rest 0 bytes'
                    else next_bytes (n - k) pending (offset + k) bytes')"
  by pat_completeness auto
termination by (relation "measure (\<lambda>(n, pending, offset, bytes). n + length pending)") auto

declare next_bytes.simps [simp del]

text \<open>\<open>initial\<close> is the source's flag for one of the first two pushes, which are cut to the handshake's size.\<close>

definition initial_push :: "tcp_transport \<Rightarrow> bool" where
  "initial_push t \<longleftrightarrow> 0 < tt_initial_pushes t \<and> tt_initial_goal t < pending_bytes t"

definition segment_goal :: "tcp_transport \<Rightarrow> bool \<Rightarrow> nat" where
  "segment_goal t initial =
     (if initial then tt_initial_goal t
      else transport_mss t * min (max (tt_gso_max t div transport_mss t) 1) (max (tt_cwnd t div 2) 1))"

definition packet_mss :: "tcp_transport \<Rightarrow> bool \<Rightarrow> nat" where
  "packet_mss t initial = (if initial then tt_initial_mss t else transport_mss t)"

definition segment_len :: "tcp_transport \<Rightarrow> bool \<Rightarrow> nat" where
  "segment_len t initial =
     min (min (min (segment_goal t initial) (packet_mss t initial * max (tt_cwnd t div 2) 1))
       (saturating_sub (tt_window_end t) (tt_transmitted t))) (pending_bytes t)"

definition next_segment :: "tcp_transport \<Rightarrow> (segment option \<times> tcp_transport) option" where
  "next_segment t =
     (if saturating_sub (tt_window_end t) (tt_transmitted t) = 0 \<or> pending_bytes t = 0 then Some (None, t)
      else let initial = initial_push t;
               pushes = if initial then tt_initial_pushes t - 1 else tt_initial_pushes t;
               n = segment_len t initial
           in case next_bytes n (tt_pending t) (tt_offset t) [] of None \<Rightarrow> None
             | Some (bytes, queue, offset) \<Rightarrow>
                 Some (Some \<lparr>sg_bytes = bytes, sg_mss = packet_mss t initial, sg_end = tt_transmitted t + n\<rparr>,
                       t\<lparr>tt_pending := queue, tt_offset := offset, tt_initial_pushes := pushes,
                         tt_transmitted := tt_transmitted t + n\<rparr>))"

definition free_space :: "tcp_transport \<Rightarrow> nat \<Rightarrow> nat" where
  "free_space t memory = saturating_sub (tt_buffer t) memory * tt_ratio t div 256"

text \<open>The parts of \<^verbatim>\<open>advertise\<close>: its \<^verbatim>\<open>allowed\<close>, \<^verbatim>\<open>full\<close>, \<^verbatim>\<open>mss\<close>, \<^verbatim>\<open>free\<close> and \<^verbatim>\<open>window\<close>.\<close>

definition allowed_space :: "tcp_transport \<Rightarrow> nat" where
  "allowed_space t = saturating_mul (tt_buffer t) (tt_ratio t) div 256"

definition full_space :: "tcp_transport \<Rightarrow> nat" where
  "full_space t = min (tt_clamp t) (allowed_space t)"

definition window_mss :: "tcp_transport \<Rightarrow> nat" where
  "window_mss t = max (min (tt_receive_mss t) (full_space t)) 1"

definition window_space :: "nat \<Rightarrow> tcp_transport \<Rightarrow> nat" where
  "window_space memory t =
     (let free = free_space t memory
      in min (if free < full_space t div 2 \<and> (free < allowed_space t div 16 \<or> free < window_mss t)
              then 0 else free) (tt_threshold t))"

definition next_window :: "nat \<Rightarrow> tcp_transport \<Rightarrow> nat" where
  "next_window memory t =
     (let free = window_space memory t; mss = window_mss t
      in if 1 < tt_scale t then div_ceil free (tt_scale t) * tt_scale t
         else if free < tt_advertised t \<or> tt_advertised t \<le> saturating_sub free mss
         then free div mss * mss else tt_advertised t)"

definition next_window_end :: "nat \<Rightarrow> tcp_transport \<Rightarrow> nat" where
  "next_window_end memory t =
     (let end = tt_received t + next_window memory t
      in if max (min (window_mss t) (allowed_space t div 2)) 1 \<le> saturating_sub end (tt_window_end t)
         then end else tt_window_end t)"

definition advertise :: "nat \<Rightarrow> tcp_transport \<Rightarrow> tcp_transport" where
  "advertise memory t =
     (let window_end = next_window_end memory t;
          advertised = saturating_sub window_end (tt_received t)
      in t\<lparr>tt_window_end := window_end, tt_advertised := advertised,
           tt_max_window := max (tt_max_window t) advertised\<rparr>)"

definition measure_segment :: "nat \<Rightarrow> nat \<Rightarrow> nat \<Rightarrow> tcp_transport \<Rightarrow> tcp_transport" where
  "measure_segment len mss head t =
     (let measured = min len mss
      in if tt_receive_mss t \<le> measured
         then let t' = if measured \<noteq> tt_receive_mss t
                       then let ratio = max (saturating_mul len 256 div (len + head)) 1
                            in t\<lparr>tt_ratio := ratio, tt_clamp := saturating_mul (tt_buffer t) ratio div 256\<rparr>
                       else t
              in t'\<lparr>tt_receive_mss := min measured (tt_advmss t)\<rparr>
         else t)"

definition grow_threshold :: "nat \<Rightarrow> nat \<Rightarrow> tcp_transport \<Rightarrow> tcp_transport" where
  "grow_threshold len memory t =
     (if 128 \<le> len
      then let room = saturating_sub (min (tt_clamp t) (free_space t memory)) (tt_threshold t)
           in t\<lparr>tt_threshold := tt_threshold t + min room (max (2 * tt_advmss t) (2 * len))\<rparr>
      else t)"

definition transport_arrive :: "nat \<Rightarrow> nat \<Rightarrow> nat \<Rightarrow> nat \<Rightarrow> tcp_transport \<Rightarrow> tcp_transport" where
  "transport_arrive len mss memory head t =
     (let t1 = grow_threshold len memory (measure_segment len mss head t);
          t2 = t1\<lparr>tt_received := tt_received t1 + len\<rparr>
      in if tt_receive_mss t2 \<noteq> tt_receive_mss t \<or> tt_threshold t2 \<noteq> tt_threshold t
         then advertise memory t2
         else t2\<lparr>tt_advertised := saturating_sub (tt_window_end t2) (tt_received t2)\<rparr>)"

section \<open>What is queued\<close>

text \<open>The bytes written and not yet cut into segments.\<close>

definition unsent :: "tcp_transport \<Rightarrow> string" where
  "unsent t = drop (tt_offset t) (concat (tt_pending t))"

definition queue_wf :: "string list \<Rightarrow> nat \<Rightarrow> bool" where
  "queue_wf pending offset = (case pending of [] \<Rightarrow> offset = 0 | front # rest \<Rightarrow> offset \<le> length front)"

definition tt_wf :: "tcp_transport \<Rightarrow> bool" where
  "tt_wf t \<longleftrightarrow> queue_wf (tt_pending t) (tt_offset t) \<and> 0 < tt_advmss t \<and> 0 < tt_initial_mss t
     \<and> 0 < tt_initial_goal t \<and> 0 < tt_scale t \<and> tt_scale t \<le> 128 \<and> 0 < tt_ratio t \<and> tt_ratio t \<le> 256
     \<and> tt_transmitted t \<le> tt_window_end t \<and> tt_written t = tt_transmitted t + length (unsent t)"

lemma pending_bytes_unsent: "pending_bytes t = length (unsent t)"
  by (simp add: pending_bytes_def unsent_def length_concat)

lemma next_bytes_0: "next_bytes 0 pending offset bytes = Some (bytes, pending, offset)"
  by (subst next_bytes.simps) simp

lemma next_bytes_stay:
  "0 < n \<Longrightarrow> offset + n < length front \<Longrightarrow>
   next_bytes n (front # rest) offset bytes = Some (bytes @ take n (drop offset front), front # rest, offset + n)"
  by (subst next_bytes.simps) (simp add: next_bytes_0 Let_def)

lemma next_bytes_pop:
  "0 < n \<Longrightarrow> offset \<le> length front \<Longrightarrow> length front \<le> offset + n \<Longrightarrow>
   next_bytes n (front # rest) offset bytes = next_bytes (offset + n - length front) rest 0 (bytes @ drop offset front)"
  by (subst next_bytes.simps) (simp add: Let_def min_absorb2 add.commute)

lemma queue_wf_0: "queue_wf rest 0"
  by (simp add: queue_wf_def split: list.splits)

lemma next_bytes_ok:
  "queue_wf pending offset \<Longrightarrow> n \<le> length (drop offset (concat pending)) \<Longrightarrow>
   \<exists>queue off. next_bytes n pending offset bytes = Some (bytes @ take n (drop offset (concat pending)), queue, off)
     \<and> queue_wf queue off \<and> drop off (concat queue) = drop n (drop offset (concat pending))"
proof (induction pending arbitrary: n offset bytes)
  case Nil
  then show ?case by (simp add: next_bytes_0 queue_wf_0)
next
  case (Cons front rest)
  have off: "offset \<le> length front" using Cons.prems(1) by (simp add: queue_wf_def)
  consider "n = 0" | "0 < n" "offset + n < length front" | "0 < n" "length front \<le> offset + n" by linarith
  then show ?case
  proof cases
    case 1
    then show ?thesis using Cons.prems(1) by (simp add: next_bytes_0)
  next
    case 2
    then show ?thesis by (simp add: next_bytes_stay queue_wf_def add.commute)
  next
    case 3
    then have "offset + n - length front \<le> length (drop 0 (concat rest))" using Cons.prems(2) off by simp
    from Cons.IH [OF queue_wf_0 this, of "bytes @ drop offset front"] show ?thesis
      using off 3 by (simp add: next_bytes_pop add.commute)
  qed
qed

lemma transport_mss_pos: "0 < tt_advmss t \<Longrightarrow> 0 < transport_mss t"
  by (simp add: transport_mss_def)

lemma segment_goal_pos: "tt_wf t \<Longrightarrow> 0 < segment_goal t initial"
  using transport_mss_pos [of t] by (simp add: tt_wf_def segment_goal_def max_def)

text \<open>
  \<^verbatim>\<open>next\<close> sends nothing exactly when nothing is queued or the window is shut. A segment it does send is the
  next bytes of the queue, at least one of them, and ends inside the window.
\<close>

lemma next_segment_None:
  "tt_wf t \<Longrightarrow> unsent t = [] \<or> tt_window_end t \<le> tt_transmitted t \<Longrightarrow> next_segment t = Some (None, t)"
  by (auto simp: next_segment_def pending_bytes_unsent sat_simps)

lemma next_segment_Some:
  assumes wf: "tt_wf t" and ne: "unsent t \<noteq> []" and open_window: "tt_transmitted t < tt_window_end t"
  shows "\<exists>seg queue off pushes. next_segment t = Some (Some seg, t\<lparr>tt_pending := queue, tt_offset := off,
       tt_initial_pushes := pushes, tt_transmitted := tt_transmitted t + length (sg_bytes seg)\<rparr>)
     \<and> sg_bytes seg \<noteq> [] \<and> unsent t = sg_bytes seg @ drop off (concat queue) \<and> queue_wf queue off
     \<and> sg_end seg = tt_transmitted t + length (sg_bytes seg) \<and> sg_end seg \<le> tt_window_end t \<and> 0 < sg_mss seg"
proof -
  define initial where "initial = initial_push t"
  define n where "n = segment_len t initial"
  have mss: "0 < packet_mss t initial" using wf by (simp add: packet_mss_def tt_wf_def transport_mss_pos)
  have n: "0 < n" "n \<le> tt_window_end t - tt_transmitted t" "n \<le> length (unsent t)"
    using ne open_window segment_goal_pos [OF wf] mss
    by (simp_all add: n_def segment_len_def pending_bytes_unsent sat_simps)
  have q: "queue_wf (tt_pending t) (tt_offset t)" using wf by (simp add: tt_wf_def)
  obtain queue off where nb: "next_bytes n (tt_pending t) (tt_offset t) [] = Some (take n (unsent t), queue, off)"
    and wf': "queue_wf queue off" and rest: "drop off (concat queue) = drop n (unsent t)"
    using next_bytes_ok [OF q n(3) [unfolded unsent_def], of "[]"] by (auto simp: unsent_def)
  have len: "length (take n (unsent t)) = n" using n by simp
  define seg where "seg = \<lparr>sg_bytes = take n (unsent t), sg_mss = packet_mss t initial, sg_end = tt_transmitted t + n\<rparr>"
  have "next_segment t = Some (Some seg, t\<lparr>tt_pending := queue, tt_offset := off,
      tt_initial_pushes := (if initial then tt_initial_pushes t - 1 else tt_initial_pushes t),
      tt_transmitted := tt_transmitted t + length (sg_bytes seg)\<rparr>)"
    using ne open_window nb len unfolding seg_def
    by (simp add: next_segment_def pending_bytes_unsent sat_simps flip: initial_def n_def)
  moreover have "unsent t = sg_bytes seg @ drop off (concat queue)" by (simp add: rest seg_def)
  moreover have "sg_bytes seg \<noteq> []" "sg_end seg = tt_transmitted t + length (sg_bytes seg)"
    "sg_end seg \<le> tt_window_end t" "0 < sg_mss seg"
    using n ne mss len open_window by (simp_all add: seg_def)
  ultimately have "next_segment t = Some (Some seg, t\<lparr>tt_pending := queue, tt_offset := off,
       tt_initial_pushes := (if initial then tt_initial_pushes t - 1 else tt_initial_pushes t),
       tt_transmitted := tt_transmitted t + length (sg_bytes seg)\<rparr>)
     \<and> sg_bytes seg \<noteq> [] \<and> unsent t = sg_bytes seg @ drop off (concat queue) \<and> queue_wf queue off
     \<and> sg_end seg = tt_transmitted t + length (sg_bytes seg) \<and> sg_end seg \<le> tt_window_end t \<and> 0 < sg_mss seg"
    using wf' by (intro conjI)
  then show ?thesis by (intro exI)
qed

section \<open>The receiving side\<close>

text \<open>What \<^verbatim>\<open>arrive\<close> and \<^verbatim>\<open>advertise\<close> leave alone: everything the sender queues by.\<close>

definition same_sender :: "tcp_transport \<Rightarrow> tcp_transport \<Rightarrow> bool" where
  "same_sender t t' \<longleftrightarrow> tt_pending t' = tt_pending t \<and> tt_offset t' = tt_offset t \<and> tt_written t' = tt_written t
     \<and> tt_transmitted t' = tt_transmitted t \<and> tt_buffer t' = tt_buffer t \<and> tt_advmss t' = tt_advmss t
     \<and> tt_initial_mss t' = tt_initial_mss t \<and> tt_initial_goal t' = tt_initial_goal t \<and> tt_scale t' = tt_scale t"

lemma same_sender_unsent: "same_sender t t' \<Longrightarrow> unsent t' = unsent t"
  by (simp add: same_sender_def unsent_def)

lemma advertise_same: "same_sender t (advertise memory t)"
  by (simp add: advertise_def same_sender_def Let_def)

lemma measure_segment_same: "same_sender t (measure_segment len mss head t)"
  by (simp add: measure_segment_def same_sender_def Let_def)

lemma grow_threshold_same: "same_sender t (grow_threshold len memory t)"
  by (simp add: grow_threshold_def same_sender_def Let_def)

lemma same_sender_trans: "same_sender t t' \<Longrightarrow> same_sender t' t'' \<Longrightarrow> same_sender t t''"
  by (simp add: same_sender_def)

lemma measure_segment_window [simp]: "tt_window_end (measure_segment len mss head t) = tt_window_end t"
  by (simp add: measure_segment_def Let_def)

lemma measure_segment_received [simp]: "tt_received (measure_segment len mss head t) = tt_received t"
  by (simp add: measure_segment_def Let_def)

lemma grow_threshold_window [simp]: "tt_window_end (grow_threshold len memory t) = tt_window_end t"
  by (simp add: grow_threshold_def Let_def)

lemma grow_threshold_received [simp]: "tt_received (grow_threshold len memory t) = tt_received t"
  by (simp add: grow_threshold_def Let_def)

lemma grow_threshold_ratio [simp]: "tt_ratio (grow_threshold len memory t) = tt_ratio t"
  by (simp add: grow_threshold_def Let_def)

lemma advertise_ratio [simp]: "tt_ratio (advertise memory t) = tt_ratio t"
  by (simp add: advertise_def Let_def)

lemma same_sender_received: "same_sender t (t\<lparr>tt_received := r\<rparr>)"
  by (simp add: same_sender_def)

lemma same_sender_advertised: "same_sender t (t\<lparr>tt_advertised := a\<rparr>)"
  by (simp add: same_sender_def)

lemma transport_arrive_same: "same_sender t (transport_arrive len mss memory head t)"
proof -
  have "same_sender t ((grow_threshold len memory (measure_segment len mss head t))\<lparr>tt_received := r\<rparr>)" for r
    by (rule same_sender_trans [OF same_sender_trans [OF measure_segment_same grow_threshold_same] same_sender_received])
  then show ?thesis unfolding transport_arrive_def Let_def
    by (auto intro: same_sender_trans [OF _ advertise_same] same_sender_trans [OF _ same_sender_advertised])
qed

lemma ratio_bound: "saturating_mul len 256 div (len + head) \<le> 256"
proof -
  have "saturating_mul len 256 div (len + head) \<le> (256 * (len + head)) div (len + head)"
    by (intro div_le_mono) (simp add: sat_simps)
  also have "\<dots> \<le> 256" by (cases "len + head = 0") (simp_all del: distrib_left_numeral)
  finally show ?thesis .
qed

lemma measure_segment_ratio:
  "0 < tt_ratio t \<and> tt_ratio t \<le> 256 \<Longrightarrow>
   0 < tt_ratio (measure_segment len mss head t) \<and> tt_ratio (measure_segment len mss head t) \<le> 256"
  using ratio_bound [of len head] by (simp add: measure_segment_def Let_def max_def)

lemma transport_arrive_ratio:
  "0 < tt_ratio t \<and> tt_ratio t \<le> 256 \<Longrightarrow>
   0 < tt_ratio (transport_arrive len mss memory head t) \<and> tt_ratio (transport_arrive len mss memory head t) \<le> 256"
  using measure_segment_ratio [of t len mss head] by (simp add: transport_arrive_def Let_def)

text \<open>The right edge of the window never moves back.\<close>

lemma advertise_window: "tt_window_end t \<le> tt_window_end (advertise memory t)"
  by (auto simp: advertise_def next_window_end_def Let_def sat_simps)

lemma transport_arrive_window: "tt_window_end t \<le> tt_window_end (transport_arrive len mss memory head t)"
  using advertise_window [of "(grow_threshold len memory (measure_segment len mss head t))
      \<lparr>tt_received := tt_received t + len\<rparr>" memory]
  by (simp add: transport_arrive_def Let_def)

lemma advertise_received [simp]: "tt_received (advertise memory t) = tt_received t"
  by (simp add: advertise_def Let_def)

lemma transport_arrive_received: "tt_received (transport_arrive len mss memory head t) = tt_received t + len"
  by (simp add: transport_arrive_def Let_def)

section \<open>The invariant\<close>

lemma grow_scale_bounds:
  "scale \<in> {1, 2, 4, 8, 16, 32, 64, 128} \<Longrightarrow> 0 < grow_scale space scale \<and> grow_scale space scale \<le> 128"
proof (induction space scale rule: grow_scale.induct)
  case (1 space scale)
  show ?case
  proof (cases "65535 < space div scale \<and> scale < 128")
    case True
    then have "scale * 2 \<in> {1, 2, 4, 8, 16, 32, 64, 128}" using "1.prems" by fastforce
    moreover have "grow_scale space scale = grow_scale space (scale * 2)"
      using True by (subst grow_scale.simps) (simp only: if_True simp_thms)
    ultimately show ?thesis using "1.IH" [OF True] by (simp only:)
  next
    case False
    then have "grow_scale space scale = scale" by (subst grow_scale.simps) (simp only: if_False)
    moreover have "0 < scale" "scale \<le> 128" using "1.prems" by auto
    ultimately show ?thesis by (simp only: simp_thms)
  qed
qed

lemma max_1_pos: "0 < max (n::nat) 1"
  by simp

lemmas new_transport_pos = new_transport_def Let_def tcp_transport.simps max_1_pos min_less_iff_conj
  nat_0_less_mult_iff simp_thms

lemma new_transport_sizes:
  "0 < tt_advmss (new_transport buffer mtu v6 gso_size)" "0 < tt_initial_mss (new_transport buffer mtu v6 gso_size)"
  "0 < tt_initial_goal (new_transport buffer mtu v6 gso_size)"
  by (simp_all only: new_transport_pos)

lemma new_transport_fields [simp]:
  "tt_pending (new_transport buffer mtu v6 gso_size) = []" "tt_offset (new_transport buffer mtu v6 gso_size) = 0"
  "tt_written (new_transport buffer mtu v6 gso_size) = 0" "tt_transmitted (new_transport buffer mtu v6 gso_size) = 0"
  "tt_received (new_transport buffer mtu v6 gso_size) = 0" "tt_ratio (new_transport buffer mtu v6 gso_size) = 128"
  "tt_buffer (new_transport buffer mtu v6 gso_size) = buffer"
  "tt_scale (new_transport buffer mtu v6 gso_size) = grow_scale (buffer div 2) 1"
  by (simp_all only: new_transport_def Let_def tcp_transport.simps)

lemma new_transport_wf: "tt_wf (new_transport buffer mtu v6 gso_size)"
  using new_transport_sizes [of buffer mtu v6 gso_size] grow_scale_bounds [of 1 "buffer div 2"]
  by (simp add: tt_wf_def queue_wf_0 unsent_def)

lemma new_transport_unsent [simp]: "unsent (new_transport buffer mtu v6 gso_size) = []"
  by (simp add: unsent_def)

lemma transport_push_unsent: "queue_wf (tt_pending t) (tt_offset t) \<Longrightarrow> unsent (transport_push bytes t) = unsent t @ bytes"
  by (cases "tt_pending t") (simp_all add: transport_push_def unsent_def queue_wf_def)

lemma transport_push_wf: "tt_wf t \<Longrightarrow> tt_wf (transport_push bytes t)"
  using transport_push_unsent [of t bytes]
  by (auto simp: tt_wf_def queue_wf_def transport_push_def split: list.splits)

lemma transport_direct_wf:
  "tt_wf t \<Longrightarrow> transport_direct len t = (Some mss, t') \<Longrightarrow>
   tt_wf t' \<and> unsent t = [] \<and> unsent t' = [] \<and> tt_transmitted t' = tt_transmitted t + len
     \<and> tt_received t' = tt_received t \<and> tt_window_end t' = tt_window_end t \<and> tt_buffer t' = tt_buffer t"
  by (auto simp: transport_direct_def tt_wf_def unsent_def sat_simps split: if_splits)

lemma advertise_wf: "tt_wf t \<Longrightarrow> tt_wf (advertise memory t)"
  using advertise_same [of t memory] same_sender_unsent [OF advertise_same [of t memory]] advertise_window [of t memory]
  by (simp add: tt_wf_def same_sender_def)

lemma transport_arrive_wf: "tt_wf t \<Longrightarrow> tt_wf (transport_arrive len mss memory head t)"
  using transport_arrive_same [of t len mss memory head] same_sender_unsent [OF transport_arrive_same [of t len mss memory head]]
    transport_arrive_window [of t len mss memory head] transport_arrive_ratio [of t len mss memory head]
  by (simp add: tt_wf_def same_sender_def)

lemma next_segment_wf:
  assumes wf: "tt_wf t" and ne: "unsent t \<noteq> []" and open_window: "tt_transmitted t < tt_window_end t"
  obtains seg t' where "next_segment t = Some (Some seg, t')" "tt_wf t'" "sg_bytes seg \<noteq> []"
    "unsent t = sg_bytes seg @ unsent t'" "tt_transmitted t' = tt_transmitted t + length (sg_bytes seg)"
    "tt_received t' = tt_received t" "tt_window_end t' = tt_window_end t" "tt_buffer t' = tt_buffer t"
proof -
  obtain seg queue off pushes where s: "next_segment t = Some (Some seg, t\<lparr>tt_pending := queue, tt_offset := off,
       tt_initial_pushes := pushes, tt_transmitted := tt_transmitted t + length (sg_bytes seg)\<rparr>)"
     "sg_bytes seg \<noteq> []" "unsent t = sg_bytes seg @ drop off (concat queue)" "queue_wf queue off"
     "sg_end seg = tt_transmitted t + length (sg_bytes seg)" "sg_end seg \<le> tt_window_end t"
    using next_segment_Some [OF assms] by blast
  define t' where "t' = t\<lparr>tt_pending := queue, tt_offset := off, tt_initial_pushes := pushes,
    tt_transmitted := tt_transmitted t + length (sg_bytes seg)\<rparr>"
  have u: "unsent t' = drop off (concat queue)" by (simp add: unsent_def t'_def)
  have "length (unsent t) = length (sg_bytes seg) + length (unsent t')" unfolding u s(3) by (rule length_append)
  then have "tt_wf t'" using wf s by (simp add: tt_wf_def) (simp add: t'_def)
  then show thesis
    by (intro that [OF s(1) [folded t'_def]]) (use s u in \<open>simp_all add: t'_def\<close>)
qed

section \<open>Memory that is never given back\<close>

text \<open>
  The window never opens past the receive buffer by more than the rounding of the window scale, while the
  memory charged is at least every byte received: the memory of a reader that gives none of it back.
\<close>

lemma free_space_le: "tt_ratio t \<le> 256 \<Longrightarrow> free_space t memory \<le> tt_buffer t - memory"
proof -
  assume "tt_ratio t \<le> 256"
  then have "(tt_buffer t - memory) * tt_ratio t div 256 \<le> (tt_buffer t - memory) * 256 div 256"
    by (intro div_le_mono mult_le_mono2)
  then show ?thesis by (simp add: free_space_def sat_simps)
qed

lemma window_space_le: "tt_ratio t \<le> 256 \<Longrightarrow> window_space memory t \<le> tt_buffer t - memory"
  using free_space_le [of t memory] by (auto simp: window_space_def Let_def)

lemma div_ceil_0 [simp]: "div_ceil 0 b = 0"
  by (cases b) (simp_all add: div_ceil_def)

lemma next_window_le:
  assumes "tt_scale t \<le> 128"
  shows "next_window memory t \<le> window_space memory t + 127"
    and "window_space memory t = 0 \<Longrightarrow> next_window memory t = 0"
proof -
  have "div_ceil f k * k \<le> f + 127" if "k \<le> 128" for f k :: nat
  proof -
    have "div_ceil f k * k \<le> f + k - 1" unfolding div_ceil_def by (rule div_times_less_eq_dividend)
    then show ?thesis using that by linarith
  qed
  moreover have "f div m * m \<le> f + 127" for f m :: nat using div_times_less_eq_dividend [of f m] by linarith
  ultimately show "next_window memory t \<le> window_space memory t + 127"
    using assms by (simp add: next_window_def Let_def)
  show "window_space memory t = 0 \<Longrightarrow> next_window memory t = 0"
    by (simp add: next_window_def Let_def)
qed

lemma advertise_bound:
  assumes "tt_wf t" "tt_received t \<le> memory" "tt_received t \<le> tt_window_end t" "tt_window_end t \<le> tt_buffer t + 127"
  shows "tt_window_end (advertise memory t) \<le> tt_buffer t + 127"
proof (cases "memory < tt_buffer t")
  case True
  have "window_space memory t \<le> tt_buffer t - memory" "next_window memory t \<le> window_space memory t + 127"
    using assms by (auto simp: tt_wf_def intro: window_space_le next_window_le(1))
  then have "tt_received t + next_window memory t \<le> tt_buffer t + 127" using assms(2) True by linarith
  then show ?thesis using assms(4) by (simp add: advertise_def next_window_end_def Let_def)
next
  case False
  then have "next_window memory t = 0"
    using assms window_space_le [of t memory] by (intro next_window_le(2)) (auto simp: tt_wf_def)
  then show ?thesis using assms(3,4) by (simp add: advertise_def next_window_end_def Let_def sat_simps)
qed

lemma transport_arrive_bound:
  assumes wf: "tt_wf t" and "tt_received t + len \<le> memory" "tt_received t + len \<le> tt_window_end t"
    "tt_window_end t \<le> tt_buffer t + 127"
  shows "tt_window_end (transport_arrive len mss memory head t) \<le> tt_buffer t + 127"
proof -
  define t1 where "t1 = (grow_threshold len memory (measure_segment len mss head t))\<lparr>tt_received := tt_received t + len\<rparr>"
  have same: "same_sender t t1" unfolding t1_def
    by (rule same_sender_trans [OF same_sender_trans [OF measure_segment_same grow_threshold_same] same_sender_received])
  have "tt_wf t1" using wf same same_sender_unsent [OF same] measure_segment_ratio [of t len mss head]
    by (simp add: tt_wf_def same_sender_def) (simp add: t1_def)
  moreover have fields: "tt_received t1 = tt_received t + len" "tt_window_end t1 = tt_window_end t"
    by (simp_all add: t1_def)
  ultimately have "tt_window_end (advertise memory t1) \<le> tt_buffer t + 127"
    using advertise_bound [of t1 memory] assms(2-4) same by (simp add: same_sender_def)
  then show ?thesis using assms(4) fields by (simp add: transport_arrive_def Let_def flip: t1_def)
qed

lemma new_transport_window: "tt_window_end (new_transport buffer mtu v6 gso_size) \<le> buffer"
proof -
  have "min (if a < s then s div a * a else s) 65535 \<le> s" for a s :: nat
    using div_times_less_eq_dividend [of s a] by (simp add: min_le_iff_disj)
  from this [of _ "buffer div 2"] show ?thesis
    by (simp only: new_transport_def Let_def tcp_transport.simps) (meson div_le_dividend order_trans)
qed

end
