(* ===== verification/Sock_Buf.thy ===== *)
theory Sock_Buf
  imports Errno Signed_Arith
begin

text \<open>
  The socket buffers of \<^verbatim>\<open>snare/src/limits.rs\<close>: what a datagram costs its receive buffer on each host, which
  datagrams a buffer admits, the sizes \<^verbatim>\<open>SO_RCVBUF\<close> and \<^verbatim>\<open>SO_SNDBUF\<close> store, and the memory a stream's chunks and
  the error queue share with them. Option values are \<^verbatim>\<open>i32\<close>s, kept as integers; counters of bytes and of
  datagrams are natural numbers.
\<close>

section \<open>Limits\<close>

datatype socket_kind = Udp | TcpStream | TcpListener | PacketSock | Netlink | UnixSock

record sys_limits =
  sl_rmem_default :: nat
  sl_rmem_max :: nat
  sl_wmem_default :: nat
  sl_wmem_max :: nat
  sl_tcp_rmem_default :: nat
  sl_tcp_wmem_default :: nat
  sl_sockbuf_reject_at :: nat
  sl_unprivileged_port_start :: nat
  sl_enforce_rcvbuf :: bool
  sl_tcp_syn_retries :: nat
  sl_tcp_syn_linear_timeouts :: nat
  sl_listen_backlog_max :: nat
  sl_bindv6only :: bool
  sl_tcp_gso_max_size :: nat
  sl_udp_rcvbuf_overshoot :: bool
  sl_skb_small_truesize :: nat
  sl_skb_head_overhead :: nat

definition host_limits :: "target_os \<Rightarrow> sys_limits" where
  "host_limits os =
     (case os of
        MacOS \<Rightarrow>
          \<lparr>sl_rmem_default = 786896, sl_rmem_max = 8388608, sl_wmem_default = 9216, sl_wmem_max = 8388608,
           sl_tcp_rmem_default = 131072, sl_tcp_wmem_default = 131072, sl_sockbuf_reject_at = U64_MAX,
           sl_unprivileged_port_start = 1024, sl_enforce_rcvbuf = True, sl_tcp_syn_retries = 6,
           sl_tcp_syn_linear_timeouts = 0, sl_listen_backlog_max = 128, sl_bindv6only = False,
           sl_tcp_gso_max_size = 0, sl_udp_rcvbuf_overshoot = False, sl_skb_small_truesize = 960,
           sl_skb_head_overhead = 378\<rparr>
      | Linux \<Rightarrow>
          \<lparr>sl_rmem_default = 212992, sl_rmem_max = 4194304, sl_wmem_default = 212992, sl_wmem_max = 4194304,
           sl_tcp_rmem_default = 131072, sl_tcp_wmem_default = 16384, sl_sockbuf_reject_at = U64_MAX,
           sl_unprivileged_port_start = 1024, sl_enforce_rcvbuf = True, sl_tcp_syn_retries = 6,
           sl_tcp_syn_linear_timeouts = 4, sl_listen_backlog_max = 4096, sl_bindv6only = False,
           sl_tcp_gso_max_size = 65536, sl_udp_rcvbuf_overshoot = False, sl_skb_small_truesize = 960,
           sl_skb_head_overhead = 378\<rparr>
      | Windows \<Rightarrow>
          \<lparr>sl_rmem_default = 65536, sl_rmem_max = U64_MAX, sl_wmem_default = 65536, sl_wmem_max = U64_MAX,
           sl_tcp_rmem_default = 65536, sl_tcp_wmem_default = 65536, sl_sockbuf_reject_at = U64_MAX,
           sl_unprivileged_port_start = 0, sl_enforce_rcvbuf = True, sl_tcp_syn_retries = 6,
           sl_tcp_syn_linear_timeouts = 0, sl_listen_backlog_max = 200, sl_bindv6only = True,
           sl_tcp_gso_max_size = 0, sl_udp_rcvbuf_overshoot = False, sl_skb_small_truesize = 960,
           sl_skb_head_overhead = 378\<rparr>)"

section \<open>The charge of a datagram\<close>

definition SK_BUFF_SIZE :: nat where "SK_BUFF_SIZE = 256"

definition linux_truesize :: "nat \<Rightarrow> bool \<Rightarrow> nat \<times> nat \<Rightarrow> nat" where
  "linux_truesize len v6 skb =
     (let need = len + (if v6 then 13 else 0) + snd skb
      in if need < fst skb - SK_BUFF_SIZE then fst skb
         else case List.find (\<lambda>kmalloc. need < kmalloc) [1024, 2048, 4096, 8192] of
             Some kmalloc \<Rightarrow> kmalloc + SK_BUFF_SIZE
           | None \<Rightarrow> if need < 16384 - 1 then 16384 + SK_BUFF_SIZE else len + fst skb)"

definition UDP_HEADER :: nat where "UDP_HEADER = 8"

text \<open>
  The fragmenting loop of \<^verbatim>\<open>linux_truesize_fragmented\<close>. A largest fragment of 0 would keep the loop going; the
  caller's \<open>m > ip_header + 8\<close> keeps it at 8 or more, and the guard here returns what there is.
\<close>

function fragments_truesize :: "nat \<Rightarrow> nat \<Rightarrow> bool \<Rightarrow> nat \<times> nat \<Rightarrow> nat \<Rightarrow> nat" where
  "fragments_truesize max_fragment rest v6 skb tot =
     (if 0 < rest \<and> 0 < max_fragment
      then let fragment = min rest max_fragment;
               as_datagram = if v6 then fragment else saturating_sub fragment UDP_HEADER
           in fragments_truesize max_fragment (rest - fragment) v6 skb (tot + linux_truesize as_datagram v6 skb)
      else tot)"
  by pat_completeness auto
termination by (relation "measure (\<lambda>(max_fragment, rest, v6, skb, tot). rest)") auto

declare fragments_truesize.simps [simp del]

definition linux_truesize_fragmented :: "nat \<Rightarrow> bool \<Rightarrow> nat \<times> nat \<Rightarrow> nat option \<Rightarrow> nat" where
  "linux_truesize_fragmented len v6 skb mtu =
     (let ip_header = if v6 then 40 + 8 else 20;
          unfragmented = (if v6 then 40 else 20) + UDP_HEADER + len
      in case mtu of
           Some m \<Rightarrow> if m < unfragmented \<and> ip_header + 8 < m
                     then fragments_truesize ((m - ip_header) div 8 * 8) (UDP_HEADER + len) v6 skb 0
                     else linux_truesize len v6 skb
         | None \<Rightarrow> linux_truesize len v6 skb)"

definition SB_EFFICIENCY :: nat where "SB_EFFICIENCY = 8"

definition MBUF_SLACK :: nat where "MBUF_SLACK = 448"

definition mac_record :: "nat \<Rightarrow> bool \<Rightarrow> nat" where
  "mac_record len seen = len + 16 + (if seen then 16 else 0)"

definition mac_mbufs :: "nat \<Rightarrow> nat" where
  "mac_mbufs len = (if len \<le> 200 then 1536 else 3584)"

record charge =
  ch_mem :: nat
  ch_cc :: nat

definition no_charge :: charge where
  "no_charge = \<lparr>ch_mem = 0, ch_cc = 0\<rparr>"

record rx_account =
  ra_rmem_alloc :: nat
  ra_queued :: nat
  ra_queued_bytes :: nat
  ra_cc :: nat
  ra_seen :: bool

definition rx_account_default :: rx_account where
  "rx_account_default = \<lparr>ra_rmem_alloc = 0, ra_queued = 0, ra_queued_bytes = 0, ra_cc = 0, ra_seen = False\<rparr>"

definition rx_charge :: "target_os \<Rightarrow> rx_account \<Rightarrow> nat \<Rightarrow> bool \<Rightarrow> nat \<times> nat \<Rightarrow> nat option \<Rightarrow> charge" where
  "rx_charge os rx len v6 skb mtu =
     (case os of Linux \<Rightarrow> \<lparr>ch_mem = linux_truesize_fragmented len v6 skb mtu, ch_cc = 0\<rparr>
      | MacOS \<Rightarrow> \<lparr>ch_mem = mac_mbufs len, ch_cc = mac_record len (ra_seen rx)\<rparr>
      | Windows \<Rightarrow> \<lparr>ch_mem = len, ch_cc = 0\<rparr>)"

definition rx_fits :: "target_os \<Rightarrow> rx_account \<Rightarrow> int \<Rightarrow> nat \<Rightarrow> bool \<Rightarrow> charge \<Rightarrow> bool" where
  "rx_fits os rx rcvbuf sb_max overshoot charge =
     (let rcvbuf = nat (max rcvbuf 0)
      in case os of
           Linux \<Rightarrow> if overshoot then ra_rmem_alloc rx \<le> rcvbuf
                    else ra_rmem_alloc rx = 0 \<or> ra_rmem_alloc rx + ch_mem charge \<le> rcvbuf
         | MacOS \<Rightarrow> ch_cc charge \<le> saturating_sub rcvbuf (ra_cc rx)
             \<and> ra_rmem_alloc rx < saturating_add (min (saturating_mul rcvbuf SB_EFFICIENCY) sb_max) MBUF_SLACK
         | Windows \<Rightarrow> ra_queued_bytes rx < rcvbuf)"

definition rx_take :: "nat \<Rightarrow> charge \<Rightarrow> rx_account \<Rightarrow> rx_account" where
  "rx_take len charge rx =
     \<lparr>ra_rmem_alloc = ra_rmem_alloc rx + ch_mem charge, ra_queued = ra_queued rx + 1,
      ra_queued_bytes = ra_queued_bytes rx + len, ra_cc = ra_cc rx + ch_cc charge, ra_seen = True\<rparr>"

definition rx_give_back :: "nat \<Rightarrow> charge \<Rightarrow> rx_account \<Rightarrow> rx_account" where
  "rx_give_back len charge rx =
     rx\<lparr>ra_rmem_alloc := saturating_sub (ra_rmem_alloc rx) (ch_mem charge),
        ra_cc := saturating_sub (ra_cc rx) (ch_cc charge), ra_queued := saturating_sub (ra_queued rx) 1,
        ra_queued_bytes := saturating_sub (ra_queued_bytes rx) len\<rparr>"

section \<open>The buffers of a socket\<close>

record sock_buf =
  sb_rcvbuf :: int
  sb_sndbuf :: int
  sb_rcv_locked :: bool
  sb_enforce :: bool
  sb_enforce_error :: bool
  sb_error_mem :: nat
  sb_sb_max :: nat
  sb_overshoot :: bool
  sb_skb :: "nat \<times> nat"
  sb_rx :: rx_account
  sb_overflowed :: nat
  sb_wire_lost :: nat
  sb_drops :: "32 word"
  sb_rxq_ovfl :: bool

definition as_opt :: "nat \<Rightarrow> int" where
  "as_opt v = int (min v (2 ^ 31 - 1))"

definition sock_buf_new :: "socket_kind \<Rightarrow> sys_limits \<Rightarrow> sock_buf" where
  "sock_buf_new kind limits =
     (let tcp = kind = TcpStream \<or> kind = TcpListener
      in \<lparr>sb_rcvbuf = as_opt (if tcp then sl_tcp_rmem_default limits else sl_rmem_default limits),
          sb_sndbuf = as_opt (if tcp then sl_tcp_wmem_default limits else sl_wmem_default limits),
          sb_rcv_locked = False, sb_enforce = (sl_enforce_rcvbuf limits \<and> kind = Udp),
          sb_enforce_error = sl_enforce_rcvbuf limits, sb_error_mem = 0, sb_sb_max = sl_rmem_max limits,
          sb_overshoot = sl_udp_rcvbuf_overshoot limits,
          sb_skb = (sl_skb_small_truesize limits, sl_skb_head_overhead limits), sb_rx = rx_account_default,
          sb_overflowed = 0, sb_wire_lost = 0, sb_drops = 0, sb_rxq_ovfl = False\<rparr>)"

datatype buf_option = Rcv | Snd

definition sock_buf_set :: "target_os \<Rightarrow> buf_option \<Rightarrow> int \<Rightarrow> sock_buf \<Rightarrow> sock_buf" where
  "sock_buf_set os which v b =
     (case which of Rcv \<Rightarrow> if os = Linux then b\<lparr>sb_rcvbuf := v, sb_rcv_locked := True\<rparr> else b\<lparr>sb_rcvbuf := v\<rparr>
      | Snd \<Rightarrow> b\<lparr>sb_sndbuf := v\<rparr>)"

definition sock_buf_inherit :: "target_os \<Rightarrow> sock_buf \<Rightarrow> sock_buf \<Rightarrow> sock_buf" where
  "sock_buf_inherit os listener b =
     (let b' = b\<lparr>sb_rcvbuf := sb_rcvbuf listener, sb_sndbuf := sb_sndbuf listener\<rparr>
      in if os = Linux then b'\<lparr>sb_rcv_locked := sb_rcv_locked listener\<rparr> else b')"

definition tcp_send_space :: "sock_buf \<Rightarrow> nat" where
  "tcp_send_space b = nat (max (sb_sndbuf b) 0)"

definition tcp_recv_space :: "target_os \<Rightarrow> sock_buf \<Rightarrow> nat" where
  "tcp_recv_space os b =
     (let rcvbuf = nat (max (sb_rcvbuf b) 0) in if os = Windows then saturating_mul rcvbuf 2 else rcvbuf)"

definition buf_admit :: "target_os \<Rightarrow> nat \<Rightarrow> bool \<Rightarrow> nat option \<Rightarrow> sock_buf \<Rightarrow> (charge \<times> 32 word) option \<times> sock_buf" where
  "buf_admit os len v6 mtu b =
     (let charge = rx_charge os (sb_rx b) len v6 (sb_skb b) mtu
      in if sb_enforce b \<and> \<not> rx_fits os (sb_rx b) (sb_rcvbuf b) (sb_sb_max b) (sb_overshoot b) charge
         then (None, b\<lparr>sb_overflowed := sb_overflowed b + 1, sb_drops := sb_drops b + 1\<rparr>)
         else (Some (charge, if sb_rxq_ovfl b then sb_drops b else 0), b\<lparr>sb_rx := rx_take len charge (sb_rx b)\<rparr>))"

definition buf_consumed :: "nat \<Rightarrow> charge \<Rightarrow> sock_buf \<Rightarrow> sock_buf" where
  "buf_consumed len charge b = b\<lparr>sb_rx := rx_give_back len charge (sb_rx b)\<rparr>"

definition error_charge :: "nat \<Rightarrow> bool \<Rightarrow> sock_buf \<Rightarrow> nat" where
  "error_charge len v6 b = linux_truesize len v6 (sb_skb b)"

definition set_rmem :: "nat \<Rightarrow> sock_buf \<Rightarrow> sock_buf" where
  "set_rmem m b = b\<lparr>sb_rx := (sb_rx b)\<lparr>ra_rmem_alloc := m\<rparr>\<rparr>"

abbreviation sb_rmem :: "sock_buf \<Rightarrow> nat" where
  "sb_rmem b \<equiv> ra_rmem_alloc (sb_rx b)"

definition take_tcp :: "nat \<Rightarrow> sock_buf \<Rightarrow> nat \<times> sock_buf" where
  "take_tcp len b =
     (let charge = saturating_add (fst (sb_skb b)) len
      in (charge, set_rmem (saturating_add (sb_rmem b) charge) b))"

definition consume_tcp :: "nat \<Rightarrow> sock_buf \<Rightarrow> sock_buf" where
  "consume_tcp charge b = set_rmem (saturating_sub (sb_rmem b) charge) b"

definition admit_error :: "nat \<Rightarrow> sock_buf \<Rightarrow> bool \<times> sock_buf" where
  "admit_error charge b =
     (if sb_enforce_error b \<and> nat (max (sb_rcvbuf b) 0) \<le> saturating_add (sb_rmem b) charge then (False, b)
      else (True, (set_rmem (sb_rmem b + charge) b)\<lparr>sb_error_mem := sb_error_mem b + charge\<rparr>))"

definition consume_error :: "nat \<Rightarrow> sock_buf \<Rightarrow> sock_buf" where
  "consume_error charge b =
     (set_rmem (saturating_sub (sb_rmem b) charge) b)\<lparr>sb_error_mem := saturating_sub (sb_error_mem b) charge\<rparr>"

section \<open>Setting a buffer's size\<close>

definition SOCK_MIN_RCVBUF :: int where "SOCK_MIN_RCVBUF = 2304"

definition SOCK_MIN_SNDBUF :: int where "SOCK_MIN_SNDBUF = 4608"

definition sockbuf_value :: "target_os \<Rightarrow> sys_limits \<Rightarrow> buf_option \<Rightarrow> int \<Rightarrow> int \<Rightarrow> bool \<Rightarrow> errno + int" where
  "sockbuf_value os limits buf v current forced =
     (let max_mem = (case buf of Rcv \<Rightarrow> sl_rmem_max limits | Snd \<Rightarrow> sl_wmem_max limits)
      in case os of
           Linux \<Rightarrow>
             let low = (case buf of Rcv \<Rightarrow> SOCK_MIN_RCVBUF | Snd \<Rightarrow> SOCK_MIN_SNDBUF);
                 asked = if forced then max v 0 else min (v mod 2 ^ 32) (int (min max_mem (2 ^ 32 - 1)));
                 asked = min asked ((2 ^ 31 - 1) div 2)
             in Inr (max (asked * 2) low)
         | MacOS \<Rightarrow>
             if v \<le> 0 then Inl EINVAL
             else if sl_sockbuf_reject_at limits \<le> nat v then Inl ENOBUFS
             else if max_mem < nat v \<and> int max_mem \<le> current mod 2 ^ 64 then Inl ENOBUFS
             else Inr (as_opt (min (nat v) max_mem))
         | Windows \<Rightarrow> Inr v)"

end
