(* ===== verification/Net_Holds.thy ===== *)
theory Net_Holds
  imports Prelude
begin

text \<open>
  What holds traffic on a link. \<^verbatim>\<open>snare/src/netpolicy.rs\<close> keeps, per address, until when \<^verbatim>\<open>quiesce\<close> holds what
  arrives there and what leaves it, and on macOS the history of those windows; \<^verbatim>\<open>LinkState\<close> of
  \<^verbatim>\<open>snare/src/netif.rs\<close> keeps whether an interface is up, its scheduled carrier changes and, on macOS, the
  history of its outages. A deadline is its instant on the one clock a simulation runs on, in nanoseconds.
\<close>

section \<open>Stalls\<close>

datatype direction = Receive | Send | Both

record stall_window =
  sw_since :: nat
  sw_until :: nat

record stall =
  st_receive_until :: "nat option"
  st_send_until :: "nat option"
  st_receive_history :: "stall_window list"
  st_send_history :: "stall_window list"

definition stall_default :: stall where
  "stall_default = \<lparr>st_receive_until = None, st_send_until = None, st_receive_history = [], st_send_history = []\<rparr>"

definition cut_last :: "stall_window list \<Rightarrow> nat \<Rightarrow> stall_window list" where
  "cut_last history since =
     (if history \<noteq> [] \<and> since < sw_until (last history)
      then if since \<le> sw_since (last history) then butlast history
           else butlast history @ [(last history)\<lparr>sw_until := since\<rparr>]
      else history)"

definition replace_stall :: "stall_window list \<Rightarrow> nat \<Rightarrow> nat \<Rightarrow> stall_window list" where
  "replace_stall history since until =
     (let history = cut_last history since
      in if since < until then history @ [\<lparr>sw_since = since, sw_until = until\<rparr>] else history)"

definition stall_entry :: "('a \<Rightarrow> stall option) \<Rightarrow> 'a \<Rightarrow> stall" where
  "stall_entry stalls addr = (case stalls addr of None \<Rightarrow> stall_default | Some s \<Rightarrow> s)"

definition stall_traffic :: "('a \<Rightarrow> stall option) \<Rightarrow> 'a \<Rightarrow> direction \<Rightarrow> nat \<Rightarrow> 'a \<Rightarrow> stall option" where
  "stall_traffic stalls addr direction until =
     (let s = stall_entry stalls addr;
          s = if direction \<noteq> Send then s\<lparr>st_receive_until := Some until\<rparr> else s;
          s = if direction \<noteq> Receive then s\<lparr>st_send_until := Some until\<rparr> else s
      in stalls(addr \<mapsto> s))"

definition stall_at :: "('a \<Rightarrow> stall option) \<Rightarrow> 'a \<Rightarrow> direction \<Rightarrow> nat \<Rightarrow> nat \<Rightarrow> 'a \<Rightarrow> stall option" where
  "stall_at stalls addr direction since until =
     (let s = stall_entry stalls addr;
          s = if direction \<noteq> Send
              then s\<lparr>st_receive_until := Some until,
                     st_receive_history := replace_stall (st_receive_history s) since until\<rparr> else s;
          s = if direction \<noteq> Receive
              then s\<lparr>st_send_until := Some until,
                     st_send_history := replace_stall (st_send_history s) since until\<rparr> else s
      in stalls(addr \<mapsto> s))"

text \<open>\<^verbatim>\<open>held_until\<close> and, on macOS, \<^verbatim>\<open>held_until_on\<close>: the same rule, read on the clock the caller names.\<close>

definition latest_ahead :: "nat \<Rightarrow> nat option list \<Rightarrow> nat option" where
  "latest_ahead now ends =
     (let ahead = filter (\<lambda>t. now < t) (List.map_filter id ends)
      in if ahead = [] then None else Some (Max (set ahead)))"

definition held_until :: "('a \<Rightarrow> stall option) \<Rightarrow> nat \<Rightarrow> 'a \<Rightarrow> 'a \<Rightarrow> nat option" where
  "held_until stalls now from to =
     latest_ahead now [Option.bind (stalls to) st_receive_until, Option.bind (stalls from) st_send_until]"

definition held_until_pair :: "('a \<Rightarrow> stall option) \<Rightarrow> nat \<Rightarrow> 'a \<Rightarrow> 'a \<Rightarrow> 'a \<Rightarrow> nat option" where
  "held_until_pair stalls now from to bound =
     latest_ahead now [Option.bind (stalls from) st_send_until, Option.bind (stalls to) st_receive_until,
       if bound \<noteq> to then Option.bind (stalls bound) st_receive_until else None]"

text \<open>The loop of \<^verbatim>\<open>effective_arrival\<close> over the two histories, merged by their starts.\<close>

function merge_windows :: "stall_window list \<Rightarrow> stall_window list \<Rightarrow> nat \<Rightarrow> nat" where
  "merge_windows [] [] t = t"
| "merge_windows (a # send) (b # receive) t =
     (if sw_since a \<le> sw_since b
      then if t < sw_since a then t else merge_windows send (b # receive) (if t < sw_until a then sw_until a else t)
      else if t < sw_since b then t else merge_windows (a # send) receive (if t < sw_until b then sw_until b else t))"
| "merge_windows [] (b # receive) t =
     (if t < sw_since b then t else merge_windows [] receive (if t < sw_until b then sw_until b else t))"
| "merge_windows (a # send) [] t =
     (if t < sw_since a then t else merge_windows send [] (if t < sw_until a then sw_until a else t))"
  by pat_completeness auto
termination by (relation "measure (\<lambda>(send, receive, t). length send + length receive)") auto

definition history_of :: "(stall \<Rightarrow> stall_window list) \<Rightarrow> stall option \<Rightarrow> stall_window list" where
  "history_of field s = (case s of None \<Rightarrow> [] | Some s \<Rightarrow> field s)"

definition effective_arrival :: "('a \<Rightarrow> stall option) \<Rightarrow> 'a \<Rightarrow> 'a \<Rightarrow> nat \<Rightarrow> nat" where
  "effective_arrival stalls from to t =
     merge_windows (history_of st_send_history (stalls from)) (history_of st_receive_history (stalls to)) t"

lemma merge_windows_ge: "t \<le> merge_windows send receive t"
proof (induction send receive t rule: merge_windows.induct)
  case (2 a send b receive t)
  then show ?case by (auto split: if_splits intro: less_imp_le order_trans)
qed (auto intro: order_trans split: if_splits)

lemma merge_windows_cases:
  "merge_windows send receive t = t \<or> merge_windows send receive t \<in> sw_until ` (set send \<union> set receive)"
proof (induction send receive t rule: merge_windows.induct)
  case (2 a send b receive t)
  then show ?case by (auto split: if_splits)
qed (auto split: if_splits)

section \<open>Links\<close>

text \<open>
  A scheduled change of carrier. \<open>lt_stale\<close> is whether, on Windows, the adapter has been restarted since it was
  scheduled, so that the change no longer applies.
\<close>

record link_transition =
  lt_at :: nat
  lt_carrier :: bool
  lt_stale :: bool

record link_state =
  lk_admin_up :: bool
  lk_carrier :: bool
  lk_removed :: bool
  lk_downs :: "nat list"
  lk_holds :: "(nat \<times> nat option) list"
  lk_schedule :: "link_transition list"

definition link_new :: "bool \<Rightarrow> bool \<Rightarrow> link_state" where
  "link_new admin_up carrier =
     \<lparr>lk_admin_up = admin_up, lk_carrier = carrier, lk_removed = False, lk_downs = [],
      lk_holds = (if admin_up \<and> carrier then [] else [(0, None)]), lk_schedule = []\<rparr>"

definition link_up :: "link_state \<Rightarrow> bool" where
  "link_up l \<longleftrightarrow> lk_admin_up l \<and> lk_carrier l"

definition end_hold :: "(nat \<times> nat option) list \<Rightarrow> nat \<Rightarrow> (nat \<times> nat option) list" where
  "end_hold holds t = (if holds = [] then [] else butlast holds @ [(fst (last holds), Some t)])"

definition link_set :: "bool option \<Rightarrow> bool option \<Rightarrow> nat \<Rightarrow> link_state \<Rightarrow> bool \<times> link_state" where
  "link_set admin carrier t l =
     (let admin' = (case admin of None \<Rightarrow> lk_admin_up l | Some a \<Rightarrow> a);
          carrier' = (case carrier of None \<Rightarrow> lk_carrier l | Some c \<Rightarrow> c);
          l' = l\<lparr>lk_admin_up := admin', lk_carrier := carrier'\<rparr>;
          changed = admin' \<noteq> lk_admin_up l \<or> carrier' \<noteq> lk_carrier l
      in (changed,
          if link_up l \<and> \<not> link_up l' then l'\<lparr>lk_downs := lk_downs l @ [t], lk_holds := lk_holds l @ [(t, None)]\<rparr>
          else if \<not> link_up l \<and> link_up l' then l'\<lparr>lk_holds := end_hold (lk_holds l) t\<rparr>
          else l'))"

text \<open>What \<^verbatim>\<open>apply_due\<close> records: how long ago, and the interface's flags then.\<close>

record nic_changed =
  nc_ago :: nat
  nc_admin_up :: bool
  nc_carrier :: bool

fun apply_changes :: "nat \<Rightarrow> link_transition list \<Rightarrow> link_state \<Rightarrow> nic_changed list \<times> link_state" where
  "apply_changes now [] l = ([], l)"
| "apply_changes now (c # due) l =
     (if lt_stale c then apply_changes now due l
      else let (changed, l1) = link_set None (Some (lt_carrier c)) (lt_at c) l;
               (events, l2) = apply_changes now due l1
           in (if changed then \<lparr>nc_ago = saturating_sub now (lt_at c), nc_admin_up = lk_admin_up l1,
                                nc_carrier = lt_carrier c\<rparr> # events else events, l2))"

definition apply_due :: "nat \<Rightarrow> link_state \<Rightarrow> nic_changed list \<times> link_state" where
  "apply_due now l =
     apply_changes now (takeWhile (\<lambda>c. lt_at c \<le> now) (lk_schedule l))
       (l\<lparr>lk_schedule := dropWhile (\<lambda>c. lt_at c \<le> now) (lk_schedule l)\<rparr>)"

definition link_usable :: "nat \<Rightarrow> link_state \<Rightarrow> bool" where
  "link_usable now l = link_up (snd (apply_due now l))"

definition link_releases :: "nat \<Rightarrow> link_state \<Rightarrow> bool" where
  "link_releases now l \<longleftrightarrow> lk_removed l \<or> link_usable now l"

fun pass_holds :: "(nat \<times> nat option) list \<Rightarrow> nat \<Rightarrow> nat" where
  "pass_holds [] t = t"
| "pass_holds ((since, until) # holds) t =
     (if t < since then t
      else pass_holds holds
        (case until of Some u \<Rightarrow> if t < u then t + (u - t) else t | None \<Rightarrow> t))"

definition link_effective_arrival :: "nat \<Rightarrow> link_state \<Rightarrow> nat \<Rightarrow> nat" where
  "link_effective_arrival now l t = pass_holds (lk_holds (snd (apply_due now l))) t"

definition link_remove :: "nat \<Rightarrow> link_state \<Rightarrow> link_state" where
  "link_remove t l =
     (let l' = snd (link_set (Some False) (Some False) t l)
      in l'\<lparr>lk_holds := end_hold (lk_holds l') t, lk_removed := True\<rparr>)"

definition link_epoch :: "nat \<Rightarrow> link_state \<Rightarrow> nat" where
  "link_epoch now l = length (lk_downs (snd (apply_due now l)))"

definition lost_in_flight :: "nat \<Rightarrow> nat \<Rightarrow> nat \<Rightarrow> link_state \<Rightarrow> bool" where
  "lost_in_flight now epoch arrival l \<longleftrightarrow>
     list_ex (\<lambda>down. down < arrival) (drop epoch (lk_downs (snd (apply_due now l))))"

section \<open>When what is on its way arrives\<close>

text \<open>
  \<^verbatim>\<open>Pipe::effective_shutdown_arrival\<close> of \<^verbatim>\<open>stream.rs\<close>: the link's outages and the stalls push an arrival back in
  turn until neither moves it. Each turn but the last moves it to the end of a window, so the loop ends.
\<close>

definition arrival_step :: "(nat \<times> nat option) list \<Rightarrow> stall_window list \<Rightarrow> stall_window list \<Rightarrow> nat \<Rightarrow> nat" where
  "arrival_step holds send receive t = merge_windows send receive (pass_holds holds t)"

definition window_ends :: "(nat \<times> nat option) list \<Rightarrow> stall_window list \<Rightarrow> stall_window list \<Rightarrow> nat set" where
  "window_ends holds send receive = {u. \<exists>since. (since, Some u) \<in> set holds} \<union> sw_until ` (set send \<union> set receive)"

lemma pass_holds_ge: "t \<le> pass_holds holds t"
  by (induction holds t rule: pass_holds.induct) (auto split: option.splits intro: order_trans)

lemma pass_holds_cases: "pass_holds holds t = t \<or> (\<exists>since. (since, Some (pass_holds holds t)) \<in> set holds)"
proof (induction holds t rule: pass_holds.induct)
  case (2 since until holds t)
  then show ?case by (cases until) (auto split: if_splits)
qed simp

lemma arrival_step_ge: "t \<le> arrival_step holds send receive t"
  using pass_holds_ge merge_windows_ge order_trans unfolding arrival_step_def by blast

lemma arrival_step_cases:
  "arrival_step holds send receive t = t \<or> arrival_step holds send receive t \<in> window_ends holds send receive"
  using pass_holds_cases [of holds t] merge_windows_cases [of send receive "pass_holds holds t"]
  unfolding arrival_step_def window_ends_def by auto

lemma finite_window_ends [simp]: "finite (window_ends holds send receive)"
proof -
  have "{u. \<exists>since. (since, Some u) \<in> set holds} \<subseteq> (the \<circ> snd) ` set holds" by force
  then have "finite {u. \<exists>since. (since, Some u) \<in> set holds}" by (rule finite_subset) simp
  then show ?thesis unfolding window_ends_def by simp
qed

function settle_arrival :: "(nat \<times> nat option) list \<Rightarrow> stall_window list \<Rightarrow> stall_window list \<Rightarrow> nat \<Rightarrow> nat" where
  "settle_arrival holds send receive t =
     (let t' = arrival_step holds send receive t
      in if t' = t then t' else settle_arrival holds send receive t')"
  by pat_completeness auto
termination
proof (relation "measure (\<lambda>(holds, send, receive, t). card {u \<in> window_ends holds send receive. t < u})")
  fix holds send receive t t'
  assume t': "t' = arrival_step holds send receive t" "t' \<noteq> t"
  then have "t < t'" "t' \<in> window_ends holds send receive"
    using arrival_step_ge [of t holds send receive] arrival_step_cases [of holds send receive t] by auto
  then have "{u \<in> window_ends holds send receive. t' < u} \<subset> {u \<in> window_ends holds send receive. t < u}" by auto
  then show "((holds, send, receive, t'), (holds, send, receive, t))
      \<in> measure (\<lambda>(holds, send, receive, t). card {u \<in> window_ends holds send receive. t < u})"
    by (simp add: psubset_card_mono)
qed simp

declare settle_arrival.simps [simp del]

definition effective_shutdown_arrival ::
  "nat \<Rightarrow> link_state option \<Rightarrow> (('a \<Rightarrow> stall option) \<times> 'a \<times> 'a) option \<Rightarrow> nat \<Rightarrow> nat" where
  "effective_shutdown_arrival now via ends t =
     settle_arrival (case via of None \<Rightarrow> [] | Some l \<Rightarrow> lk_holds (snd (apply_due now l)))
       (case ends of None \<Rightarrow> [] | Some (stalls, from, to) \<Rightarrow> history_of st_send_history (stalls from))
       (case ends of None \<Rightarrow> [] | Some (stalls, from, to) \<Rightarrow> history_of st_receive_history (stalls to)) t"

section \<open>The windows cover what they push back\<close>

definition in_stall :: "stall_window list \<Rightarrow> nat \<Rightarrow> bool" where
  "in_stall history x \<longleftrightarrow> (\<exists>w \<in> set history. sw_since w \<le> x \<and> x < sw_until w)"

definition in_hold :: "(nat \<times> nat option) list \<Rightarrow> nat \<Rightarrow> bool" where
  "in_hold holds x \<longleftrightarrow> (\<exists>(since, until) \<in> set holds. since \<le> x \<and> (\<exists>u. until = Some u \<and> x < u))"

abbreviation starts_sorted :: "stall_window list \<Rightarrow> bool" where
  "starts_sorted history \<equiv> sorted (map sw_since history)"

lemma in_stall_Nil [simp]: "\<not> in_stall [] x"
  by (simp add: in_stall_def)

lemma in_stall_Cons: "in_stall (w # ws) x \<longleftrightarrow> sw_since w \<le> x \<and> x < sw_until w \<or> in_stall ws x"
  by (auto simp: in_stall_def)

lemma in_stall_append: "in_stall (ws @ vs) x \<longleftrightarrow> in_stall ws x \<or> in_stall vs x"
  by (auto simp: in_stall_def)

lemma in_hold_Nil [simp]: "\<not> in_hold [] x"
  by (simp add: in_hold_def)

lemma in_hold_Cons:
  "in_hold ((since, until) # hs) x \<longleftrightarrow> since \<le> x \<and> (\<exists>u. until = Some u \<and> x < u) \<or> in_hold hs x"
  by (auto simp: in_hold_def)

lemma not_in_stall_before: "\<forall>w \<in> set ws. x < sw_since w \<Longrightarrow> \<not> in_stall ws x"
  by (auto simp: in_stall_def)

lemma not_in_hold_before: "\<forall>h \<in> set hs. x < fst h \<Longrightarrow> \<not> in_hold hs x"
  by (force simp: in_hold_def)

lemma not_in_sorted_stall: "starts_sorted (w # ws) \<Longrightarrow> x < sw_since w \<Longrightarrow> \<not> in_stall (w # ws) x"
  by (rule not_in_stall_before) (auto intro: less_le_trans)

lemma not_in_sorted_hold: "sorted (map fst (h # hs)) \<Longrightarrow> x < fst h \<Longrightarrow> \<not> in_hold (h # hs) x"
  by (rule not_in_hold_before) (auto intro: less_le_trans)

lemma merge_windows_covered:
  "t \<le> x \<Longrightarrow> x < merge_windows send receive t \<Longrightarrow> in_stall send x \<or> in_stall receive x"
proof (induction send receive t arbitrary: x rule: merge_windows.induct)
  case (2 a send b receive t)
  show ?case
  proof (cases "sw_since a \<le> sw_since b")
    case True
    then show ?thesis using 2 by (cases "x < sw_until a") (auto simp: in_stall_Cons split: if_splits)
  next
    case False
    then show ?thesis using 2 by (cases "x < sw_until b") (auto simp: in_stall_Cons split: if_splits)
  qed
next
  case (3 b receive t)
  then show ?case by (cases "x < sw_until b") (auto simp: in_stall_Cons split: if_splits)
next
  case (4 a send t)
  then show ?case by (cases "x < sw_until a") (auto simp: in_stall_Cons split: if_splits)
qed simp

lemma merge_windows_clear:
  "starts_sorted send \<Longrightarrow> starts_sorted receive \<Longrightarrow> x = merge_windows send receive t \<Longrightarrow>
   \<not> in_stall send x \<and> \<not> in_stall receive x"
proof (induction send receive t rule: merge_windows.induct)
  case (2 a send b receive t)
  let ?a = "if t < sw_until a then sw_until a else t" and ?b = "if t < sw_until b then sw_until b else t"
  consider (stop) "t < sw_since a" "t < sw_since b" | (a) "sw_since a \<le> sw_since b" "sw_since a \<le> t"
    | (b) "\<not> sw_since a \<le> sw_since b" "sw_since b \<le> t" by linarith
  then show ?case
  proof cases
    case stop
    then have "x = t" using 2 by (auto split: if_splits)
    then show ?thesis using stop "2.prems"(1,2) by (simp add: not_in_sorted_stall)
  next
    case a
    then have x: "x = merge_windows send (b # receive) ?a" using 2 by simp
    then show ?thesis using 2 a merge_windows_ge [of ?a send "b # receive"]
      by (auto simp: in_stall_Cons split: if_splits)
  next
    case b
    then have x: "x = merge_windows (a # send) receive ?b" using 2 by simp
    then show ?thesis using 2 b merge_windows_ge [of ?b "a # send" receive]
      by (auto simp: in_stall_Cons split: if_splits)
  qed
next
  case (3 b receive t)
  let ?b = "if t < sw_until b then sw_until b else t"
  show ?case
  proof (cases "t < sw_since b")
    case False
    then show ?thesis using 3 merge_windows_ge [of ?b "[]" receive] by (auto simp: in_stall_Cons split: if_splits)
  qed (use "3.prems" in \<open>simp add: not_in_sorted_stall\<close>)
next
  case (4 a send t)
  let ?a = "if t < sw_until a then sw_until a else t"
  show ?case
  proof (cases "t < sw_since a")
    case False
    then show ?thesis using 4 merge_windows_ge [of ?a send "[]"] by (auto simp: in_stall_Cons split: if_splits)
  qed (use "4.prems" in \<open>simp add: not_in_sorted_stall\<close>)
qed simp

lemma pass_holds_covered: "t \<le> x \<Longrightarrow> x < pass_holds holds t \<Longrightarrow> in_hold holds x"
proof (induction holds t arbitrary: x rule: pass_holds.induct)
  case (2 since until holds t)
  then show ?case
    by (cases until; cases "\<exists>u. until = Some u \<and> x < u") (auto simp: in_hold_Cons split: if_splits)
qed simp

lemma pass_holds_clear: "sorted (map fst holds) \<Longrightarrow> x = pass_holds holds t \<Longrightarrow> \<not> in_hold holds x"
proof (induction holds t rule: pass_holds.induct)
  case (2 since until holds t)
  let ?t = "case until of Some u \<Rightarrow> if t < u then t + (u - t) else t | None \<Rightarrow> t"
  show ?case
  proof (cases "t < since")
    case True
    then have "x = t" using "2.prems" by simp
    then show ?thesis using True "2.prems"(1) by (simp add: not_in_sorted_hold)
  next
    case False
    then have x: "x = pass_holds holds ?t" using "2.prems" by simp
    then have "?t \<le> x" by (simp only: pass_holds_ge)
    then show ?thesis using 2 False x by (cases until) (auto simp: in_hold_Cons split: if_splits)
  qed
qed simp

lemma settle_arrival_least:
  "r = settle_arrival holds send receive t \<Longrightarrow>
   t \<le> r \<and> arrival_step holds send receive r = r
     \<and> (\<forall>x. t \<le> x \<and> x < r \<longrightarrow> in_hold holds x \<or> in_stall send x \<or> in_stall receive x)"
proof (induction holds send receive t rule: settle_arrival.induct)
  case (1 holds send receive t)
  define t' where "t' = arrival_step holds send receive t"
  show ?case
  proof (cases "t' = t")
    case True
    then have "r = t" using "1.prems" by (subst (asm) settle_arrival.simps) (simp add: Let_def t'_def)
    then show ?thesis using True t'_def by auto
  next
    case False
    then have "r = settle_arrival holds send receive t'"
      using "1.prems" by (subst (asm) settle_arrival.simps) (simp add: Let_def t'_def)
    from "1.IH" [OF t'_def False this] have IH: "t' \<le> r" "arrival_step holds send receive r = r"
      "\<forall>x. t' \<le> x \<and> x < r \<longrightarrow> in_hold holds x \<or> in_stall send x \<or> in_stall receive x" by auto
    have "in_hold holds x \<or> in_stall send x \<or> in_stall receive x" if "t \<le> x" "x < t'" for x
      using that pass_holds_covered [of t x holds] merge_windows_covered [of "pass_holds holds t" x send receive]
      unfolding t'_def arrival_step_def by force
    then show ?thesis using IH arrival_step_ge [of t holds send receive] unfolding t'_def [symmetric]
      by (meson le_less_linear order_trans)
  qed
qed

lemma arrival_step_fixed:
  assumes "arrival_step holds send receive r = r" "sorted (map fst holds)" "starts_sorted send" "starts_sorted receive"
  shows "\<not> in_hold holds r \<and> \<not> in_stall send r \<and> \<not> in_stall receive r"
proof -
  have p: "pass_holds holds r = r"
    using assms(1) pass_holds_ge [of r holds] merge_windows_ge [of "pass_holds holds r" send receive]
    unfolding arrival_step_def by linarith
  then show ?thesis
    using pass_holds_clear [OF assms(2), of r r] merge_windows_clear [OF assms(3,4), of r r] assms(1)
    unfolding arrival_step_def by simp
qed

section \<open>The histories in order\<close>

definition history_wf :: "stall_window list \<Rightarrow> bool" where
  "history_wf h \<longleftrightarrow> sorted_wrt (\<lambda>v w. sw_until v \<le> sw_since w) h \<and> (\<forall>w \<in> set h. sw_since w < sw_until w)"

lemma history_wf_sorted: "history_wf h \<Longrightarrow> starts_sorted h"
proof (induction h)
  case (Cons w h)
  then show ?case by (fastforce simp: history_wf_def intro: order_trans less_imp_le)
qed simp

lemma history_wf_snoc:
  "history_wf (h @ [w]) \<longleftrightarrow> history_wf h \<and> (\<forall>v \<in> set h. sw_until v \<le> sw_since w) \<and> sw_since w < sw_until w"
  by (auto simp: history_wf_def sorted_wrt_append)

lemma cut_last_wf:
  assumes wf: "history_wf h" and before: "\<forall>w \<in> set h. sw_since w \<le> since"
  shows "history_wf (cut_last h since) \<and> (\<forall>w \<in> set (cut_last h since). sw_until w \<le> since)
    \<and> (in_stall (cut_last h since) x \<longleftrightarrow> x < since \<and> in_stall h x)"
proof (cases h rule: rev_cases)
  case Nil
  then show ?thesis by (simp add: cut_last_def history_wf_def)
next
  case (snoc h' w)
  have w: "history_wf h'" "\<forall>v \<in> set h'. sw_until v \<le> sw_since w" "sw_since w < sw_until w" "sw_since w \<le> since"
    using wf before by (simp_all add: snoc history_wf_snoc)
  have h': "in_stall h' x \<Longrightarrow> x < since" using w by (fastforce simp: in_stall_def)
  show ?thesis using w h'
    by (auto simp: cut_last_def snoc history_wf_snoc in_stall_append in_stall_Cons intro: order_trans)
qed

text \<open>
  A new stall replaces what is left of the one before it: from \<open>since\<close> on, only the new window counts, even
  when the earlier one ended later.
\<close>

lemma replace_stall_wf:
  assumes "history_wf h" "\<forall>w \<in> set h. sw_since w \<le> since"
  shows "history_wf (replace_stall h since until)"
    and "in_stall (replace_stall h since until) x \<longleftrightarrow> (if x < since then in_stall h x else x < until)"
    and "\<forall>w \<in> set (replace_stall h since until). sw_since w \<le> since"
proof -
  note cut = cut_last_wf [OF assms, of x]
  show "history_wf (replace_stall h since until)"
    using cut by (simp add: replace_stall_def Let_def history_wf_snoc)
  show "in_stall (replace_stall h since until) x \<longleftrightarrow> (if x < since then in_stall h x else x < until)"
    using cut by (auto simp: replace_stall_def Let_def in_stall_append in_stall_Cons)
  have "\<forall>w \<in> set (cut_last h since). sw_since w \<le> since"
    using cut by (fastforce simp: history_wf_def intro: less_imp_le order_trans)
  then show "\<forall>w \<in> set (replace_stall h since until). sw_since w \<le> since"
    by (simp add: replace_stall_def Let_def)
qed

definition stall_wf :: "nat \<Rightarrow> stall \<Rightarrow> bool" where
  "stall_wf now s \<longleftrightarrow> history_wf (st_receive_history s) \<and> history_wf (st_send_history s)
     \<and> (\<forall>w \<in> set (st_receive_history s) \<union> set (st_send_history s). sw_since w \<le> now)"

definition stalls_wf :: "nat \<Rightarrow> ('a \<Rightarrow> stall option) \<Rightarrow> bool" where
  "stalls_wf now stalls \<longleftrightarrow> (\<forall>a s. stalls a = Some s \<longrightarrow> stall_wf now s)"

lemma stall_wf_later: "stall_wf now s \<Longrightarrow> now \<le> later \<Longrightarrow> stall_wf later s"
  by (auto simp: stall_wf_def intro: order_trans)

lemma stalls_wf_empty: "stalls_wf now Map.empty"
  by (simp add: stalls_wf_def)

lemma stall_wf_entry: "stalls_wf now stalls \<Longrightarrow> stall_wf now (stall_entry stalls a)"
  by (auto simp: stall_entry_def stalls_wf_def stall_wf_def stall_default_def history_wf_def split: option.splits)

lemma stall_at_wf:
  assumes "stalls_wf now stalls" "now \<le> since"
  shows "stalls_wf since (stall_at stalls a direction since until)"
proof -
  have e: "stall_wf since (stall_entry stalls a)"
    using assms by (blast intro: stall_wf_later stall_wf_entry)
  let ?r = "replace_stall (st_receive_history (stall_entry stalls a)) since until"
    and ?s = "replace_stall (st_send_history (stall_entry stalls a)) since until"
  have "history_wf ?r \<and> history_wf ?s \<and> (\<forall>w \<in> set ?r \<union> set ?s. sw_since w \<le> since)"
    using e replace_stall_wf(1,3) [of "st_receive_history (stall_entry stalls a)" since until]
      replace_stall_wf(1,3) [of "st_send_history (stall_entry stalls a)" since until]
    unfolding stall_wf_def by blast
  then have "stall_wf since (the (stall_at stalls a direction since until a))"
    using e by (cases direction) (simp_all add: stall_at_def stall_wf_def ball_Un Let_def)
  moreover have "stalls b = Some s \<Longrightarrow> stall_wf since s" for b s
    using assms stall_wf_later unfolding stalls_wf_def by blast
  ultimately show ?thesis
    by (cases direction) (simp_all add: stalls_wf_def stall_at_def Let_def)
qed

definition link_wf :: "link_state \<Rightarrow> bool" where
  "link_wf l \<longleftrightarrow> sorted (map fst (lk_holds l)) \<and> sorted (map lt_at (lk_schedule l))
     \<and> (\<forall>h \<in> set (lk_holds l). \<forall>c \<in> set (lk_schedule l). fst h \<le> lt_at c)"

lemma end_hold_starts [simp]: "map fst (end_hold holds t) = map fst holds"
  by (cases holds rule: rev_cases) (simp_all add: end_hold_def)

lemma link_set_starts:
  "map fst (lk_holds (snd (link_set admin carrier t l))) \<in> {map fst (lk_holds l), map fst (lk_holds l) @ [t]}"
  by (simp add: link_set_def Let_def)

lemma link_set_schedule [simp]: "lk_schedule (snd (link_set admin carrier t l)) = lk_schedule l"
  by (simp add: link_set_def Let_def)

lemma apply_changes_Cons:
  "snd (apply_changes now (c # due) l) =
     (if lt_stale c then snd (apply_changes now due l)
      else snd (apply_changes now due (snd (link_set None (Some (lt_carrier c)) (lt_at c) l))))"
  by (simp add: Let_def split: prod.splits)

lemma apply_changes_schedule [simp]: "lk_schedule (snd (apply_changes now due l)) = lk_schedule l"
  by (induction due arbitrary: l) (simp_all add: apply_changes_Cons del: apply_changes.simps(2))

lemma sorted_skip: "sorted (hs @ c # xs) \<Longrightarrow> hs' \<in> {hs, hs @ [c]} \<Longrightarrow> sorted (hs' @ xs)"
  by (auto simp: sorted_append)

lemma apply_changes_sorted:
  "sorted (map fst (lk_holds l) @ map lt_at (due @ rest)) \<Longrightarrow>
   sorted (map fst (lk_holds (snd (apply_changes now due l))) @ map lt_at rest)"
proof (induction due arbitrary: l)
  case (Cons c due)
  let ?l = "snd (link_set None (Some (lt_carrier c)) (lt_at c) l)"
  have "sorted (map fst (lk_holds ?l) @ map lt_at (due @ rest))" "sorted (map fst (lk_holds l) @ map lt_at (due @ rest))"
    using Cons.prems link_set_starts [of None "Some (lt_carrier c)" "lt_at c" l]
    by (auto intro!: sorted_skip [of "map fst (lk_holds l)" "lt_at c" "map lt_at (due @ rest)"]
        simp del: map_append)
  then show ?case using Cons.IH by (simp add: apply_changes_Cons del: apply_changes.simps(2))
qed simp

lemma link_wf_sorted: "link_wf l \<longleftrightarrow> sorted (map fst (lk_holds l) @ map lt_at (lk_schedule l))"
  by (auto simp: link_wf_def sorted_append)

lemma apply_due_wf: "link_wf l \<Longrightarrow> link_wf (snd (apply_due now l))"
  using apply_changes_sorted [of "l\<lparr>lk_schedule := dropWhile (\<lambda>c. lt_at c \<le> now) (lk_schedule l)\<rparr>"
      "takeWhile (\<lambda>c. lt_at c \<le> now) (lk_schedule l)" "dropWhile (\<lambda>c. lt_at c \<le> now) (lk_schedule l)" now]
  unfolding link_wf_sorted apply_due_def takeWhile_dropWhile_id by simp

definition path_held ::
  "nat \<Rightarrow> link_state option \<Rightarrow> (('a \<Rightarrow> stall option) \<times> 'a \<times> 'a) option \<Rightarrow> nat \<Rightarrow> bool" where
  "path_held now via ends x \<longleftrightarrow>
     in_hold (case via of None \<Rightarrow> [] | Some l \<Rightarrow> lk_holds (snd (apply_due now l))) x
     \<or> in_stall (case ends of None \<Rightarrow> [] | Some (stalls, from, to) \<Rightarrow> history_of st_send_history (stalls from)) x
     \<or> in_stall (case ends of None \<Rightarrow> [] | Some (stalls, from, to) \<Rightarrow> history_of st_receive_history (stalls to)) x"

lemma history_of_sorted:
  "stalls_wf now stalls \<Longrightarrow> starts_sorted (history_of st_send_history (stalls a))"
  "stalls_wf now stalls \<Longrightarrow> starts_sorted (history_of st_receive_history (stalls a))"
  by (auto simp: history_of_def stalls_wf_def stall_wf_def intro!: history_wf_sorted split: option.splits)



end
