(* ===== verification/Stream_Pipe.thy ===== *)
theory Stream_Pipe
  imports Tcp_Transport Sock_Buf Net_Holds
begin

text \<open>
  \<^verbatim>\<open>snare/src/stream.rs\<close>: one direction of a TCP byte stream. A pipe is written at one end and read at the other;
  between them its bytes cross a link that may be down, stalled or slow, and on Linux the segments of
  \<^verbatim>\<open>tcp_transport.rs\<close>. What a call reads of the rest of the simulation (the time, the link, the stalls, the policy's
  receive window, the limits) is the record \<open>pipe_env\<close>, one for each call, and what it tells the rest of it is
  the log of \<open>pipe_event\<close>s. A deadline is its instant on the one clock of the simulation. \<open>None\<close> is a panic or
  a loop that does not end.
\<close>

section \<open>State\<close>

datatype read = Data nat | WouldBlock | Eof | Reset | Shut

record flight =
  fl_at :: nat
  fl_bytes :: string
  fl_mss :: nat

datatype pipe_event =
    Bump
  | Count_Delivered nat
  | Wake_Waiters_Then nat
  | Transmit_Hook string nat nat
  | Tcp_Transmitted nat nat nat string
  | Sent_Hook string nat "nat option"
  | Closed_Hook nat
  | Reader_Unestablished
  | Writer_Unestablished
  | Reader_Error errno "nat option"

record pipe =
  pp_buf :: string
  pp_chunks :: "nat list"
  pp_rx_memory :: "(nat \<times> nat) list"
  pp_closed :: bool
  pp_write_shut :: bool
  pp_writer_aborted :: bool
  pp_read_shut :: bool
  pp_reader_gone :: bool
  pp_reset :: bool
  pp_in_flight :: "flight list"
  pp_transport :: "tcp_transport option"
  pp_transport_delay :: nat
  pp_tcp_tail :: "(nat \<times> string) option"
  pp_tcp_reports :: "(nat \<times> nat \<times> nat) list"
  pp_reader :: "sock_buf option"
  pp_writer :: "sock_buf option"
  pp_pending_recv_space :: "nat option"
  pp_pending_recv_locked :: "bool option"
  pp_mtu :: "nat option"
  pp_transmitted :: bool
  pp_ends :: bool
  pp_read_wakes :: nat
  pp_write_wakes :: nat
  pp_log :: "pipe_event list"

text \<open>\<^verbatim>\<open>Pipe::new\<close>.\<close>

definition pipe_new :: "bool \<Rightarrow> pipe" where
  "pipe_new ends =
     \<lparr>pp_buf = [], pp_chunks = [], pp_rx_memory = [], pp_closed = False, pp_write_shut = False,
      pp_writer_aborted = False, pp_read_shut = False, pp_reader_gone = False, pp_reset = False,
      pp_in_flight = [], pp_transport = None, pp_transport_delay = 0, pp_tcp_tail = None, pp_tcp_reports = [],
      pp_reader = None, pp_writer = None, pp_pending_recv_space = None, pp_pending_recv_locked = None,
      pp_mtu = None, pp_transmitted = False, pp_ends = ends, pp_read_wakes = 0, pp_write_wakes = 0, pp_log = []\<rparr>"

text \<open>
  What a call reads of the rest of the simulation. \<open>pe_tcp_requested\<close> is \<^verbatim>\<open>tstamp::tcp_requested\<close> of the writer's
  socket: whether its timestamping options ask for transmit stamps now.
\<close>

record pipe_env =
  pe_now :: nat
  pe_link :: "link_state option"
  pe_stalls :: "nat \<Rightarrow> stall option"
  pe_from :: nat
  pe_to :: nat
  pe_window :: "nat option"
  pe_limits :: sys_limits
  pe_to_v6 :: bool
  pe_tcp_requested :: bool

section \<open>Reading the state\<close>

definition log_event :: "pipe_event \<Rightarrow> pipe \<Rightarrow> pipe" where
  "log_event e p = p\<lparr>pp_log := pp_log p @ [e]\<rparr>"

definition sending_closed :: "target_os \<Rightarrow> pipe \<Rightarrow> bool" where
  "sending_closed os p \<longleftrightarrow> os = MacOS \<and> pp_writer_aborted p \<or> pp_closed p"

definition transport_pending :: "pipe \<Rightarrow> nat" where
  "transport_pending p = (case pp_transport p of None \<Rightarrow> 0 | Some t \<Rightarrow> pending_bytes t)"

definition pipe_used :: "target_os \<Rightarrow> pipe \<Rightarrow> nat" where
  "pipe_used os p =
     length (pp_buf p) + sum_list (map (length \<circ> fl_bytes) (pp_in_flight p))
       + (if os = Linux then transport_pending p else 0)"

definition pipe_pending :: "target_os \<Rightarrow> pipe \<Rightarrow> bool" where
  "pipe_pending os p \<longleftrightarrow> pp_in_flight p \<noteq> [] \<or> os = Linux \<and> 0 < transport_pending p"

definition pipe_held :: "pipe_env \<Rightarrow> pipe \<Rightarrow> nat option" where
  "pipe_held env p = (if pp_ends p then held_until (pe_stalls env) (pe_now env) (pe_from env) (pe_to env) else None)"

definition via_releases :: "pipe_env \<Rightarrow> bool" where
  "via_releases env = (case pe_link env of None \<Rightarrow> True | Some l \<Rightarrow> link_releases (pe_now env) l)"

definition pipe_effective :: "pipe_env \<Rightarrow> pipe \<Rightarrow> nat \<Rightarrow> nat" where
  "pipe_effective env p t =
     effective_shutdown_arrival (pe_now env) (pe_link env)
       (if pp_ends p then Some (pe_stalls env, pe_from env, pe_to env) else None) t"

definition flight_due :: "target_os \<Rightarrow> pipe_env \<Rightarrow> pipe \<Rightarrow> flight \<Rightarrow> bool" where
  "flight_due os env p f \<longleftrightarrow> (if os = MacOS then pipe_effective env p (fl_at f) else fl_at f) \<le> pe_now env"

definition remaining :: "pipe_env \<Rightarrow> nat \<Rightarrow> nat" where
  "remaining env t = saturating_sub t (pe_now env)"

section \<open>Arrival and transmission\<close>

text \<open>The Linux part of \<^verbatim>\<open>arrive\<close>: the memory a chunk takes, and what the transport makes of it.\<close>

definition charge_arrival :: "pipe_env \<Rightarrow> nat \<Rightarrow> nat \<Rightarrow> pipe \<Rightarrow> pipe" where
  "charge_arrival env len mss p =
     (let (head, charge, memory, reader) =
        (case pp_reader p of
           Some b \<Rightarrow> let (charge, b') = take_tcp len b in (error_charge 0 False b, charge, sb_rmem b', Some b')
         | None \<Rightarrow> let head = sl_skb_small_truesize (pe_limits env); charge = head + len
                   in (head, charge, sum_list (map snd (pp_rx_memory p)) + charge, None))
      in p\<lparr>pp_reader := reader, pp_rx_memory := pp_rx_memory p @ [(len, charge)],
           pp_transport := map_option (transport_arrive len mss memory head) (pp_transport p)\<rparr>)"

definition pipe_arrive :: "target_os \<Rightarrow> pipe_env \<Rightarrow> string \<Rightarrow> nat \<Rightarrow> pipe \<Rightarrow> pipe" where
  "pipe_arrive os env bytes mss p =
     (if bytes = [] \<or> os = MacOS \<and> pp_read_shut p then p
      else let p1 = p\<lparr>pp_buf := pp_buf p @ bytes, pp_chunks := pp_chunks p @ [length bytes],
                      pp_read_wakes := wrapping_add (pp_read_wakes p) 1\<rparr>;
               p2 = if pp_reader p1 \<noteq> None then log_event (Count_Delivered (length bytes)) p1 else p1
           in if os = Linux \<and> pp_ends p2 then charge_arrival env (length bytes) mss p2 else p2)"

text \<open>The timestamp reports a segment completes, oldest first.\<close>

definition send_reports :: "pipe_env \<Rightarrow> segment \<Rightarrow> pipe \<Rightarrow> pipe" where
  "send_reports env seg p =
     (if pp_writer p \<noteq> None \<and> pe_tcp_requested env
      then let due = takeWhile (\<lambda>r. fst r \<le> sg_end seg) (pp_tcp_reports p)
           in p\<lparr>pp_tcp_reports := dropWhile (\<lambda>r. fst r \<le> sg_end seg) (pp_tcp_reports p),
                pp_tcp_tail := Some (sg_end seg, sg_bytes seg),
                pp_log := pp_log p @ map (\<lambda>(end, request, rtt).
                  Tcp_Transmitted request (length (sg_bytes seg)) rtt (sg_bytes seg)) due\<rparr>
      else p)"

definition latest :: "nat \<Rightarrow> nat option list \<Rightarrow> nat" where
  "latest t holds = fold (\<lambda>h t. case h of Some later \<Rightarrow> if t < later then later else t | None \<Rightarrow> t) holds t"

definition last_arrival :: "pipe \<Rightarrow> nat option" where
  "last_arrival p = (if pp_in_flight p = [] then None else Some (fl_at (last (pp_in_flight p))))"

definition run_hook :: "string \<Rightarrow> nat \<Rightarrow> nat \<Rightarrow> pipe \<Rightarrow> pipe" where
  "run_hook bytes left mss p = (if pp_transmitted p then log_event (Transmit_Hook bytes left mss) p else p)"

text \<open>Whether what is sent now lands at once: no delay, nothing ahead of it, no stall, the link up.\<close>

definition lands_at_once :: "pipe_env \<Rightarrow> nat \<Rightarrow> pipe \<Rightarrow> bool" where
  "lands_at_once env delay p \<longleftrightarrow> delay = 0 \<and> pp_in_flight p = [] \<and> pipe_held env p = None \<and> via_releases env"

definition fly :: "pipe_env \<Rightarrow> nat \<Rightarrow> string \<Rightarrow> nat \<Rightarrow> pipe \<Rightarrow> pipe" where
  "fly env t bytes mss p =
     (log_event (Wake_Waiters_Then t) p)\<lparr>pp_in_flight := pp_in_flight p @ [\<lparr>fl_at = t, fl_bytes = bytes, fl_mss = mss\<rparr>]\<rparr>"

definition send_segment :: "pipe_env \<Rightarrow> segment \<Rightarrow> pipe \<Rightarrow> pipe" where
  "send_segment env seg p =
     (let p1 = send_reports env seg p; delay = pp_transport_delay p1
      in if lands_at_once env delay p1
         then pipe_arrive Linux env (sg_bytes seg) (sg_mss seg) (run_hook (sg_bytes seg) 0 (sg_mss seg) p1)
         else let t = latest (pe_now env + delay) [last_arrival p1, pipe_held env p1]
              in fly env t (sg_bytes seg) (sg_mss seg) (run_hook (sg_bytes seg) (remaining env t) (sg_mss seg) p1))"

partial_function (option) transmit :: "pipe_env \<Rightarrow> pipe \<Rightarrow> pipe option" where
  "transmit env p =
     (case pp_transport p of None \<Rightarrow> Some p
      | Some t \<Rightarrow>
          (case next_segment t of None \<Rightarrow> None
           | Some (None, t') \<Rightarrow> Some (p\<lparr>pp_transport := Some t'\<rparr>)
           | Some (Some seg, t') \<Rightarrow> transmit env (send_segment env seg (p\<lparr>pp_transport := Some t'\<rparr>))))"

text \<open>The loops of \<^verbatim>\<open>land\<close> and \<^verbatim>\<open>reset_quiet_at\<close>: chunks arrive from the front while they are due.\<close>

fun land_while :: "(pipe \<Rightarrow> flight \<Rightarrow> bool) \<Rightarrow> target_os \<Rightarrow> pipe_env \<Rightarrow> flight list \<Rightarrow> pipe \<Rightarrow> pipe" where
  "land_while due os env [] p = p\<lparr>pp_in_flight := []\<rparr>"
| "land_while due os env (f # fs) p =
     (if due p f
      then land_while due os env fs (pipe_arrive os env (fl_bytes f) (fl_mss f) (p\<lparr>pp_in_flight := fs\<rparr>))
      else p\<lparr>pp_in_flight := f # fs\<rparr>)"

definition pipe_land :: "target_os \<Rightarrow> pipe_env \<Rightarrow> pipe \<Rightarrow> pipe option" where
  "pipe_land os env p =
     (if \<not> via_releases env \<or> os \<noteq> MacOS \<and> pipe_held env p \<noteq> None then Some p
      else let p1 = land_while (flight_due os env) os env (pp_in_flight p) p
           in if os = Linux then transmit env p1 else Some p1)"

section \<open>Writing\<close>

definition recv_room :: "target_os \<Rightarrow> pipe_env \<Rightarrow> pipe \<Rightarrow> nat option" where
  "recv_room os env p =
     (if pp_ends p
      then let room = (case pp_reader p of Some b \<Rightarrow> Some (tcp_recv_space os b) | None \<Rightarrow> pp_pending_recv_space p)
           in case (pe_window env, room) of (Some w, Some r) \<Rightarrow> Some (min w r)
                | (Some w, None) \<Rightarrow> Some w | (None, r) \<Rightarrow> r
      else None)"

definition capacity :: "target_os \<Rightarrow> pipe_env \<Rightarrow> pipe \<Rightarrow> nat option" where
  "capacity os env p =
     map_option (\<lambda>window. saturating_add window (case pp_writer p of None \<Rightarrow> 0 | Some b \<Rightarrow> tcp_send_space b))
       (recv_room os env p)"

definition MAC_SNDLOWAT :: nat where "MAC_SNDLOWAT = 2048"

definition takes :: "target_os \<Rightarrow> nat \<Rightarrow> nat \<Rightarrow> nat \<Rightarrow> bool \<Rightarrow> nat" where
  "takes os cap used len own =
     (let free = saturating_sub cap used
      in if len \<le> free then len
         else if \<not> own then free
         else if os = Windows then if 0 < free then len else 0
         else if os = MacOS then if min MAC_SNDLOWAT cap \<le> free then free else 0
         else free)"

definition uses_transport :: "target_os \<Rightarrow> pipe_env \<Rightarrow> pipe \<Rightarrow> bool" where
  "uses_transport os env p \<longleftrightarrow> os = Linux \<and> pp_ends p
     \<and> ((case pp_reader p of None \<Rightarrow> False | Some b \<Rightarrow> sb_rcv_locked b)
        \<or> pp_pending_recv_locked p = Some True \<or> pp_writer p \<noteq> None \<and> pe_tcp_requested env)"

definition pipe_transport :: "pipe_env \<Rightarrow> pipe \<Rightarrow> tcp_transport" where
  "pipe_transport env p =
     (case pp_transport p of Some t \<Rightarrow> t
      | None \<Rightarrow>
          new_transport
            (case pp_reader p of Some b \<Rightarrow> nat (max (sb_rcvbuf b) 0)
             | None \<Rightarrow> (case pp_pending_recv_space p of Some n \<Rightarrow> n | None \<Rightarrow> sl_tcp_rmem_default (pe_limits env)))
            (case pp_mtu p of Some m \<Rightarrow> m | None \<Rightarrow> 65536) (pe_to_v6 env) (sl_tcp_gso_max_size (pe_limits env)))"

text \<open>The branch of \<^verbatim>\<open>write_after\<close> that sends through the transport.\<close>

definition write_transport :: "pipe_env \<Rightarrow> string \<Rightarrow> nat \<Rightarrow> pipe \<Rightarrow> pipe option" where
  "write_transport env bytes delay p =
     (let t = pipe_transport env p; p1 = p\<lparr>pp_transport := Some t, pp_transport_delay := delay\<rparr>;
          direct = if lands_at_once env delay p1 then transport_direct (length bytes) t else (None, t)
      in case direct of
           (Some mss, t') \<Rightarrow>
             let p2 = run_hook bytes 0 mss (pipe_arrive Linux env bytes mss (p1\<lparr>pp_transport := Some t'\<rparr>));
                 p3 = if pp_writer p2 \<noteq> None \<and> pe_tcp_requested env
                      then p2\<lparr>pp_tcp_tail := map_option (\<lambda>t. (tt_transmitted t, bytes)) (pp_transport p2)\<rparr> else p2
             in Some (log_event Bump p3)
         | (None, t') \<Rightarrow>
             map_option (log_event Bump) (transmit env (p1\<lparr>pp_transport := Some (transport_push bytes t')\<rparr>)))"

definition write_plain :: "target_os \<Rightarrow> pipe_env \<Rightarrow> string \<Rightarrow> nat \<Rightarrow> pipe \<Rightarrow> pipe" where
  "write_plain os env bytes delay p =
     (let (t, p1) =
        (if lands_at_once env delay p then (pe_now env, pipe_arrive os env bytes 0 p)
         else let t = latest (pe_now env + delay)
                        [last_arrival p, if os = MacOS then None else pipe_held env p]
              in (t, fly env t bytes 0 p));
          arrival = if os = MacOS \<and> pp_ends p1 then remaining env (pipe_effective env p1 t) else remaining env t
      in log_event Bump (log_event (Sent_Hook bytes arrival (if pp_read_shut p1 then Some t else None)) p1))"

definition write_after :: "target_os \<Rightarrow> pipe_env \<Rightarrow> string \<Rightarrow> nat \<Rightarrow> pipe \<Rightarrow> (nat option \<times> pipe) option" where
  "write_after os env bytes delay p =
     (if sending_closed os p then Some (None, p)
      else let n = (case capacity os env p of None \<Rightarrow> length bytes
                    | Some cap \<Rightarrow> takes os cap (pipe_used os p) (length bytes) (pp_writer p \<noteq> None))
           in if n = 0 then Some (Some 0, p)
              else if uses_transport os env p
              then map_option (\<lambda>p'. (Some n, p')) (write_transport env (take n bytes) delay p)
              else Some (Some n, write_plain os env (take n bytes) delay p))"

section \<open>Reading\<close>

fun drop_chunks :: "nat \<Rightarrow> nat list \<Rightarrow> nat list option" where
  "drop_chunks left chunks =
     (if left = 0 then Some chunks
      else case chunks of [] \<Rightarrow> None
        | front # rest \<Rightarrow> if front \<le> left then drop_chunks (left - front) rest else Some ((front - left) # rest))"

declare drop_chunks.simps [simp del]

fun return_memory :: "nat \<Rightarrow> (nat \<times> nat) list \<Rightarrow> nat \<times> (nat \<times> nat) list" where
  "return_memory left [] = (0, [])"
| "return_memory left ((unread, charge) # rest) =
     (if left = 0 then (0, (unread, charge) # rest)
      else if unread \<le> left
      then let (returned, rest') = return_memory (left - unread) rest in (returned + charge, rest')
      else (0, (unread - left, charge) # rest))"

text \<open>The Linux part of \<^verbatim>\<open>read_chunk\<close>, for a socket of the code under test: its memory, and the window it opens.\<close>

definition release_memory :: "pipe_env \<Rightarrow> nat \<Rightarrow> sock_buf \<Rightarrow> pipe \<Rightarrow> pipe option" where
  "release_memory env n b p =
     (let (returned, rx) = return_memory n (pp_rx_memory p); b' = consume_tcp returned b
      in transmit env (p\<lparr>pp_rx_memory := rx, pp_reader := Some b',
           pp_transport := map_option (advertise (sb_rmem b')) (pp_transport p)\<rparr>))"

text \<open>What a read finds with nothing readable.\<close>

definition read_empty :: "target_os \<Rightarrow> pipe_env \<Rightarrow> pipe \<Rightarrow> read" where
  "read_empty os env p =
     (if pp_reset p \<and> \<not> pipe_pending os p then Reset
      else if pp_closed p \<and> \<not> pipe_pending os p \<and> pipe_held env p = None \<or> pp_read_shut p then Eof
      else WouldBlock)"

definition finish_read :: "target_os \<Rightarrow> pipe_env \<Rightarrow> nat \<Rightarrow> pipe \<Rightarrow> pipe" where
  "finish_read os env n p =
     (let p1 = if 0 < n then p\<lparr>pp_write_wakes := wrapping_add (pp_write_wakes p) 1\<rparr> else p
      in if 0 < n \<and> capacity os env p1 \<noteq> None then log_event Bump p1 else p1)"

text \<open>\<open>space\<close> is the length of the output buffer; what the call wrote into it is the second result.\<close>

definition take_data :: "target_os \<Rightarrow> pipe_env \<Rightarrow> nat \<Rightarrow> pipe \<Rightarrow> (string \<times> pipe) option" where
  "take_data os env space p =
     (let n = min (length (pp_buf p)) space
      in case drop_chunks n (pp_chunks p) of None \<Rightarrow> None
        | Some chunks \<Rightarrow>
            let p1 = p\<lparr>pp_buf := drop n (pp_buf p), pp_chunks := chunks\<rparr>
            in case (if os = Linux then (case pp_reader p1 of Some b \<Rightarrow> release_memory env n b p1 | None \<Rightarrow> Some p1)
                     else Some p1) of None \<Rightarrow> None
              | Some p2 \<Rightarrow> Some (take n (pp_buf p), finish_read os env n p2))"

definition read_chunk :: "target_os \<Rightarrow> pipe_env \<Rightarrow> nat \<Rightarrow> pipe \<Rightarrow> (read \<times> string \<times> pipe) option" where
  "read_chunk os env space p =
     (if os = Windows \<and> pp_reset p then Some (Reset, [], p)
      else if pp_read_shut p \<and> os \<noteq> Linux then Some (Shut, [], p)
      else case pipe_land os env p of None \<Rightarrow> None
        | Some p1 \<Rightarrow>
            if pp_buf p1 = [] then Some (read_empty os env p1, [], p1)
            else map_option (\<lambda>(bytes, p2). (Data (length bytes), bytes, p2)) (take_data os env space p1))"

partial_function (option) read_loop ::
  "target_os \<Rightarrow> pipe_env \<Rightarrow> nat \<Rightarrow> string \<Rightarrow> pipe \<Rightarrow> (read \<times> string \<times> pipe) option" where
  "read_loop os env space out p =
     (case read_chunk os env (space - length out) p of None \<Rightarrow> None
      | Some (r, bytes, p') \<Rightarrow>
          (case r of
             Data n \<Rightarrow>
               if length out + n = space \<or> os \<noteq> Linux \<or> \<not> pp_ends p' then Some (Data (length out + n), out @ bytes, p')
               else read_loop os env space (out @ bytes) p'
           | _ \<Rightarrow> if out = [] then Some (r, [], p') else Some (Data (length out), out, p')))"

definition pipe_read :: "target_os \<Rightarrow> pipe_env \<Rightarrow> nat \<Rightarrow> pipe \<Rightarrow> (read \<times> string \<times> pipe) option" where
  "pipe_read os env space p = read_loop os env space [] p"

definition pipe_peek :: "target_os \<Rightarrow> pipe_env \<Rightarrow> nat \<Rightarrow> pipe \<Rightarrow> (read \<times> string \<times> pipe) option" where
  "pipe_peek os env space p =
     (if os = Windows \<and> pp_reset p then Some (Reset, [], p)
      else if pp_read_shut p \<and> os \<noteq> Linux then Some (Shut, [], p)
      else map_option (\<lambda>p1.
        if pp_buf p1 = [] then (read_empty os env p1, [], p1)
        else (Data (min (length (pp_buf p1)) space), take space (pp_buf p1), p1)) (pipe_land os env p))"

section \<open>Ending the stream\<close>

definition wake_read :: "pipe \<Rightarrow> pipe" where
  "wake_read p = p\<lparr>pp_read_wakes := wrapping_add (pp_read_wakes p) 1\<rparr>"

definition wake_both :: "pipe \<Rightarrow> pipe" where
  "wake_both p = p\<lparr>pp_read_wakes := wrapping_add (pp_read_wakes p) 1, pp_write_wakes := wrapping_add (pp_write_wakes p) 1\<rparr>"

definition shut_read :: "target_os \<Rightarrow> pipe_env \<Rightarrow> pipe \<Rightarrow> pipe option" where
  "shut_read os env p =
     map_option (\<lambda>p1. log_event Bump (wake_read (p1\<lparr>pp_read_shut := True\<rparr>)))
       (if os = MacOS then map_option (\<lambda>p1. p1\<lparr>pp_buf := [], pp_chunks := []\<rparr>) (pipe_land os env p) else Some p)"

definition close_pipe :: "target_os \<Rightarrow> pipe_env \<Rightarrow> pipe \<Rightarrow> pipe" where
  "close_pipe os env p =
     (let left = (case last_arrival p of None \<Rightarrow> 0 | Some t \<Rightarrow> remaining env t);
          p1 = p\<lparr>pp_closed := True, pp_write_shut := (if os = Windows then pp_write_shut p else True)\<rparr>
      in log_event Bump (wake_both (log_event (Closed_Hook left) p1)))"

definition reset_state :: "target_os \<Rightarrow> pipe_env \<Rightarrow> pipe \<Rightarrow> pipe option" where
  "reset_state os env p =
     map_option (\<lambda>p1. wake_both
         (if os = Windows
          then (if pp_reader p1 \<noteq> None then log_event Reader_Unestablished p1 else p1)
                 \<lparr>pp_buf := [], pp_chunks := [], pp_in_flight := []\<rparr>
          else p1))
       (pipe_land os env (p\<lparr>pp_reset := True, pp_closed := True\<rparr>))"

definition reset_pipe :: "target_os \<Rightarrow> pipe_env \<Rightarrow> pipe \<Rightarrow> pipe option" where
  "reset_pipe os env p = map_option (log_event Bump) (reset_state os env p)"

text \<open>\<^verbatim>\<open>reset_quiet_at\<close>, which only macOS has.\<close>

definition due_by :: "pipe_env \<Rightarrow> nat \<Rightarrow> pipe \<Rightarrow> flight \<Rightarrow> bool" where
  "due_by env cutoff p f \<longleftrightarrow> pipe_effective env p (fl_at f) \<le> cutoff \<and> flight_due MacOS env p f"

definition reset_quiet_at :: "pipe_env \<Rightarrow> nat \<Rightarrow> pipe \<Rightarrow> pipe" where
  "reset_quiet_at env cutoff p =
     wake_both ((land_while (due_by env cutoff) MacOS env (pp_in_flight p) p)
       \<lparr>pp_in_flight := [], pp_closed := True, pp_reset := True\<rparr>)"

definition shutdown_arrival :: "pipe \<Rightarrow> nat option" where
  "shutdown_arrival p = (case pp_in_flight p of [] \<Rightarrow> None | f # _ \<Rightarrow> Some (fl_at f))"

definition abort_writer :: "pipe \<Rightarrow> pipe" where
  "abort_writer p =
     (let p1 = p\<lparr>pp_writer_aborted := True, pp_write_shut := True\<rparr>
      in wake_both (if pp_writer p1 \<noteq> None then log_event Writer_Unestablished p1 else p1))"

definition abandon_reader :: "pipe \<Rightarrow> pipe" where
  "abandon_reader p = p\<lparr>pp_reader_gone := True\<rparr>"

definition reset_reader :: "pipe \<Rightarrow> pipe" where
  "reset_reader p =
     (if pp_reader p \<noteq> None then log_event Reader_Unestablished (log_event (Reader_Error ECONNRESET (last_arrival p)) p)
      else p)"

definition reset_reader_at :: "nat option \<Rightarrow> pipe \<Rightarrow> pipe" where
  "reset_reader_at visible p =
     (if pp_reader p \<noteq> None then log_event Reader_Unestablished (log_event (Reader_Error ECONNRESET visible) p) else p)"

definition close_writer :: "pipe \<Rightarrow> pipe" where
  "close_writer p = (if pp_writer p \<noteq> None then log_event Writer_Unestablished p else p)"

section \<open>Queries\<close>

definition fin_seen :: "target_os \<Rightarrow> pipe_env \<Rightarrow> pipe \<Rightarrow> bool" where
  "fin_seen os env p \<longleftrightarrow> pp_closed p \<and> \<not> pipe_pending os p \<and> pipe_held env p = None"

definition read_eof :: "target_os \<Rightarrow> pipe_env \<Rightarrow> pipe \<Rightarrow> (bool \<times> pipe) option" where
  "read_eof os env p =
     map_option (\<lambda>p1. (pp_read_shut p1 \<or> pp_reset p1 \<or> fin_seen os env p1, p1)) (pipe_land os env p)"

definition readable_or_closed :: "target_os \<Rightarrow> pipe_env \<Rightarrow> pipe \<Rightarrow> (bool \<times> pipe) option" where
  "readable_or_closed os env p =
     map_option (\<lambda>p1. (pp_buf p1 \<noteq> [] \<or> pp_reset p1 \<and> \<not> pipe_pending os p1 \<or> pp_read_shut p1 \<or> fin_seen os env p1, p1))
       (pipe_land os env p)"

definition has_unread :: "target_os \<Rightarrow> pipe_env \<Rightarrow> pipe \<Rightarrow> (bool \<times> pipe) option" where
  "has_unread os env p = map_option (\<lambda>p1. (pp_buf p1 \<noteq> [], p1)) (pipe_land os env p)"

definition queued_bytes :: "target_os \<Rightarrow> pipe_env \<Rightarrow> pipe \<Rightarrow> (nat \<times> pipe) option" where
  "queued_bytes os env p = map_option (\<lambda>p1. (length (pp_buf p1), p1)) (pipe_land os env p)"

definition acknowledged :: "target_os \<Rightarrow> pipe_env \<Rightarrow> pipe \<Rightarrow> (bool \<times> pipe) option" where
  "acknowledged os env p =
     map_option (\<lambda>p1. (pp_reset p1 \<or> \<not> pipe_pending os p1
         \<and> (case recv_room os env p of None \<Rightarrow> True | Some room \<Rightarrow> pipe_used os p1 \<le> room), p1)) (pipe_land os env p)"

definition pipe_room :: "target_os \<Rightarrow> pipe_env \<Rightarrow> pipe \<Rightarrow> (nat option \<times> pipe) option" where
  "pipe_room os env p =
     (case capacity os env p of None \<Rightarrow> Some (None, p)
      | Some cap \<Rightarrow> map_option (\<lambda>p1. (Some (saturating_sub cap (pipe_used os p1)), p1)) (pipe_land os env p))"

definition can_write :: "target_os \<Rightarrow> pipe_env \<Rightarrow> nat \<Rightarrow> pipe \<Rightarrow> (bool \<times> pipe) option" where
  "can_write os env len p =
     (case capacity os env p of None \<Rightarrow> Some (True, p)
      | Some cap \<Rightarrow>
          map_option (\<lambda>p1. (sending_closed os p1 \<or> 0 < takes os cap (pipe_used os p1) len (pp_writer p1 \<noteq> None), p1))
            (pipe_land os env p))"

definition writable :: "target_os \<Rightarrow> pipe_env \<Rightarrow> pipe \<Rightarrow> (bool \<times> pipe) option" where
  "writable os env p =
     (case capacity os env p of None \<Rightarrow> Some (True, p)
      | Some cap \<Rightarrow>
          map_option (\<lambda>p1.
              let used = pipe_used os p1; free = saturating_sub cap used
              in (sending_closed os p1
                  \<or> (case os of Linux \<Rightarrow> 0 < free \<and> used div 2 \<le> free
                      | MacOS \<Rightarrow> min MAC_SNDLOWAT cap \<le> free | Windows \<Rightarrow> 0 < free), p1))
            (pipe_land os env p))"

definition pending_time :: "pipe_env \<Rightarrow> pipe \<Rightarrow> bool" where
  "pending_time env p \<longleftrightarrow> pp_in_flight p \<noteq> [] \<or> pipe_held env p \<noteq> None"

definition queued :: "pipe \<Rightarrow> nat \<times> nat" where
  "queued p = (length (pp_chunks p), length (pp_buf p))"

section \<open>Attaching sockets\<close>

definition pending_reader :: "target_os \<Rightarrow> sock_buf \<Rightarrow> pipe \<Rightarrow> pipe" where
  "pending_reader os b p =
     (let p1 = if pp_pending_recv_space p = None then p\<lparr>pp_pending_recv_space := Some (tcp_recv_space os b)\<rparr> else p
      in if os = Linux \<and> pp_pending_recv_locked p1 = None then p1\<lparr>pp_pending_recv_locked := Some (sb_rcv_locked b)\<rparr>
         else p1)"

definition set_mtu :: "nat \<Rightarrow> pipe \<Rightarrow> pipe" where
  "set_mtu mtu p = (if pp_mtu p = None then p\<lparr>pp_mtu := Some mtu\<rparr> else p)"

definition on_transmit :: "pipe \<Rightarrow> pipe" where
  "on_transmit p = p\<lparr>pp_transmitted := True\<rparr>"

fun charge_chunks :: "nat list \<Rightarrow> sock_buf \<Rightarrow> (nat \<times> nat) list \<times> sock_buf" where
  "charge_chunks [] b = ([], b)"
| "charge_chunks (len # chunks) b =
     (let (charge, b1) = take_tcp len b; (rx, b2) = charge_chunks chunks b1 in ((len, charge) # rx, b2))"

definition read_by :: "target_os \<Rightarrow> sock_buf \<Rightarrow> pipe \<Rightarrow> pipe" where
  "read_by os b p =
     (if pp_reader p \<noteq> None then p
      else if os = Linux \<and> pp_ends p
      then let (rx, b') = charge_chunks (pp_chunks p) b in p\<lparr>pp_reader := Some b', pp_rx_memory := rx\<rparr>
      else p\<lparr>pp_reader := Some b\<rparr>)"

definition write_by :: "sock_buf \<Rightarrow> pipe \<Rightarrow> pipe" where
  "write_by b p = (if pp_writer p = None then p\<lparr>pp_writer := Some b\<rparr> else p)"

text \<open>
  \<^verbatim>\<open>timestamp_write\<close>, given what \<^verbatim>\<open>tstamp::tcp_written\<close> answered: the request to report, or nothing.
\<close>

definition timestamp_write :: "nat option \<Rightarrow> string \<Rightarrow> nat \<Rightarrow> pipe \<Rightarrow> pipe" where
  "timestamp_write request bytes rtt p =
     (case (pp_writer p, request) of
        (Some _, Some r) \<Rightarrow>
          (case pp_transport p of
             Some t \<Rightarrow>
               if tt_transmitted t < tt_written t then p\<lparr>pp_tcp_reports := pp_tcp_reports p @ [(tt_written t, r, rtt)]\<rparr>
               else (case pp_tcp_tail p of
                   Some (tail_end, tail) \<Rightarrow>
                     if tail_end < tt_written t then p else log_event (Tcp_Transmitted r (length tail) rtt tail) p
                 | None \<Rightarrow> p)
           | None \<Rightarrow> log_event (Tcp_Transmitted r (length bytes) rtt bytes) p)
      | _ \<Rightarrow> p)"

section \<open>Sending\<close>

text \<open>
  \<^verbatim>\<open>Pipe::send\<close> around the caller's \<^verbatim>\<open>write\<close>. Each wait of a blocking send takes the state to what the other threads
  made of it meanwhile and answers a \<open>wait_result\<close>: whether it woke, whether a signal handler interrupted it, what
  the two calls of \<^verbatim>\<open>error\<close> after it answered, and whether the deadline of \<^verbatim>\<open>SO_SNDTIMEO\<close> had passed. \<open>Waiting\<close>, which
  the source does not have, is a send still waiting when the given waits are used up.
\<close>

datatype sent = Bytes nat | Closed | Send_WouldBlock | TimedOut | Stuck | Send_Error | Interrupted | Waiting

record wait_result =
  wr_woke :: bool
  wr_interrupted :: bool
  wr_error :: bool
  wr_error_again :: bool
  wr_passed :: bool

definition after_wait :: "nat \<Rightarrow> wait_result \<Rightarrow> sent option" where
  "after_wait k w =
     (if 0 < k \<and> (\<not> wr_woke w \<or> wr_error w) then Some (Bytes k)
      else if wr_interrupted w then Some Interrupted
      else if \<not> wr_woke w then Some (if wr_passed w then TimedOut else Stuck)
      else if wr_error_again w then Some Send_Error
      else None)"

fun pipe_send ::
  "(string \<Rightarrow> 's \<Rightarrow> (nat option \<times> 's) option) \<Rightarrow> bool \<Rightarrow> string \<Rightarrow> nat \<Rightarrow> ('s \<Rightarrow> wait_result \<times> 's) list \<Rightarrow> 's \<Rightarrow> (sent \<times> 's) option" where
  "pipe_send write nonblocking bytes k waits s =
     (case write (drop k bytes) s of None \<Rightarrow> None
      | Some (None, s') \<Rightarrow> Some (if k = 0 then Closed else Bytes k, s')
      | Some (Some n, s') \<Rightarrow>
          if k + n = length bytes then Some (Bytes (k + n), s')
          else if nonblocking then Some (if 0 < k + n then Bytes (k + n) else Send_WouldBlock, s')
          else (case waits of [] \<Rightarrow> Some (Waiting, s')
            | wait # rest \<Rightarrow>
                let (answer, s'') = wait s'
                in (case after_wait (k + n) answer of Some r \<Rightarrow> Some (r, s'')
                    | None \<Rightarrow> pipe_send write nonblocking bytes (k + n) rest s'')))"

declare pipe_send.simps [simp del]

section \<open>What a pipe holds\<close>

definition unsent_of :: "pipe \<Rightarrow> string" where
  "unsent_of p = (case pp_transport p of None \<Rightarrow> [] | Some t \<Rightarrow> unsent t)"

definition flying :: "pipe \<Rightarrow> string" where
  "flying p = concat (map fl_bytes (pp_in_flight p))"

text \<open>The bytes of the stream written and not yet read, in the order the reader gets them.\<close>

definition content :: "pipe \<Rightarrow> string" where
  "content p = pp_buf p @ flying p @ unsent_of p"

definition pipe_wf :: "target_os \<Rightarrow> pipe \<Rightarrow> bool" where
  "pipe_wf os p \<longleftrightarrow> sum_list (pp_chunks p) = length (pp_buf p) \<and> 0 \<notin> set (pp_chunks p)
     \<and> sorted (map fl_at (pp_in_flight p)) \<and> [] \<notin> fl_bytes ` set (pp_in_flight p)
     \<and> (case pp_transport p of None \<Rightarrow> True | Some t \<Rightarrow> os = Linux \<and> tt_wf t)"

definition same_flags :: "pipe \<Rightarrow> pipe \<Rightarrow> bool" where
  "same_flags p p' \<longleftrightarrow> pp_closed p' = pp_closed p \<and> pp_read_shut p' = pp_read_shut p \<and> pp_reset p' = pp_reset p
     \<and> pp_ends p' = pp_ends p \<and> pp_writer_aborted p' = pp_writer_aborted p \<and> pp_writer p' = pp_writer p
     \<and> pp_pending_recv_locked p' = pp_pending_recv_locked p
     \<and> map_option sb_rcv_locked (pp_reader p') = map_option sb_rcv_locked (pp_reader p)"

lemma same_flags_refl [simp]: "same_flags p p"
  by (simp add: same_flags_def)

lemma same_flags_trans: "same_flags p p' \<Longrightarrow> same_flags p' p'' \<Longrightarrow> same_flags p p''"
  by (simp add: same_flags_def)

lemma transport_pending_unsent: "transport_pending p = length (unsent_of p)"
  by (simp add: transport_pending_def unsent_of_def pending_bytes_unsent split: option.splits)

lemma pipe_used_content: "pipe_wf os p \<Longrightarrow> pipe_used os p = length (content p)"
  by (auto simp: pipe_used_def content_def flying_def length_concat transport_pending_unsent comp_def pipe_wf_def
      unsent_of_def split: option.splits)

lemma pipe_pending_content: "pipe_wf os p \<Longrightarrow> pipe_pending os p \<longleftrightarrow> flying p @ unsent_of p \<noteq> []"
  by (cases "pp_in_flight p")
    (auto simp: pipe_pending_def flying_def transport_pending_unsent pipe_wf_def unsent_of_def split: option.splits)

lemma log_event_fields [simp]:
  "pp_buf (log_event e p) = pp_buf p" "pp_chunks (log_event e p) = pp_chunks p"
  "pp_in_flight (log_event e p) = pp_in_flight p" "pp_transport (log_event e p) = pp_transport p"
  "pp_rx_memory (log_event e p) = pp_rx_memory p" "pp_reader (log_event e p) = pp_reader p"
  "pp_ends (log_event e p) = pp_ends p" "pp_read_shut (log_event e p) = pp_read_shut p"
  "same_flags p (log_event e p)" "content (log_event e p) = content p" "pipe_wf os (log_event e p) = pipe_wf os p"
  by (simp_all add: log_event_def same_flags_def content_def flying_def unsent_of_def pipe_wf_def)

lemma take_tcp_locked: "take_tcp len b = (charge, b') \<Longrightarrow> sb_rcv_locked b' = sb_rcv_locked b"
  by (auto simp: take_tcp_def set_rmem_def Let_def)

lemma charge_arrival_facts:
  "pp_buf (charge_arrival env len mss p) = pp_buf p" "pp_chunks (charge_arrival env len mss p) = pp_chunks p"
  "pp_in_flight (charge_arrival env len mss p) = pp_in_flight p" "same_flags p (charge_arrival env len mss p)"
  "unsent_of (charge_arrival env len mss p) = unsent_of p"
  "pipe_wf os p \<Longrightarrow> pipe_wf os (charge_arrival env len mss p)"
  by (auto simp: charge_arrival_def same_flags_def unsent_of_def pipe_wf_def Let_def transport_arrive_wf take_tcp_locked
      same_sender_unsent [OF transport_arrive_same] split: option.splits prod.splits)

lemma pipe_arrive_facts:
  assumes "\<not> (os = MacOS \<and> pp_read_shut p)"
  shows "pp_buf (pipe_arrive os env bytes mss p) = pp_buf p @ bytes"
    "pp_in_flight (pipe_arrive os env bytes mss p) = pp_in_flight p" "same_flags p (pipe_arrive os env bytes mss p)"
    "unsent_of (pipe_arrive os env bytes mss p) = unsent_of p"
    "pipe_wf os p \<Longrightarrow> pipe_wf os (pipe_arrive os env bytes mss p)"
proof -
  define p1 where "p1 = p\<lparr>pp_buf := pp_buf p @ bytes, pp_chunks := pp_chunks p @ [length bytes],
                      pp_read_wakes := wrapping_add (pp_read_wakes p) 1\<rparr>"
  define p2 where "p2 = (if pp_reader p1 \<noteq> None then log_event (Count_Delivered (length bytes)) p1 else p1)"
  have r: "pipe_arrive os env bytes mss p =
      (if bytes = [] then p else if os = Linux \<and> pp_ends p2 then charge_arrival env (length bytes) mss p2 else p2)"
    using assms by (auto simp: pipe_arrive_def Let_def p1_def p2_def)
  have p1: "pp_buf p1 = pp_buf p @ bytes" "pp_in_flight p1 = pp_in_flight p" "same_flags p p1"
    "unsent_of p1 = unsent_of p" "bytes \<noteq> [] \<Longrightarrow> pipe_wf os p \<Longrightarrow> pipe_wf os p1"
    by (auto simp: p1_def same_flags_def unsent_of_def pipe_wf_def)
  have p2: "pp_buf p2 = pp_buf p @ bytes" "pp_in_flight p2 = pp_in_flight p" "same_flags p p2"
    "unsent_of p2 = unsent_of p" "bytes \<noteq> [] \<Longrightarrow> pipe_wf os p \<Longrightarrow> pipe_wf os p2"
    using p1 by (auto simp: p2_def unsent_of_def intro: same_flags_trans)
  show "pp_buf (pipe_arrive os env bytes mss p) = pp_buf p @ bytes"
    "pp_in_flight (pipe_arrive os env bytes mss p) = pp_in_flight p" "same_flags p (pipe_arrive os env bytes mss p)"
    "unsent_of (pipe_arrive os env bytes mss p) = unsent_of p"
    "pipe_wf os p \<Longrightarrow> pipe_wf os (pipe_arrive os env bytes mss p)"
    unfolding r using p2 by (auto simp: charge_arrival_facts intro: same_flags_trans [OF _ charge_arrival_facts(4)])
qed

lemma latest_bounds: "t \<le> latest t holds \<and> (\<forall>h. Some h \<in> set holds \<longrightarrow> h \<le> latest t holds)"
proof (induction holds arbitrary: t)
  case (Cons x holds)
  define t' where "t' = (case x of Some later \<Rightarrow> if t < later then later else t | None \<Rightarrow> t)"
  have l: "latest t (x # holds) = latest t' holds" by (simp add: latest_def t'_def)
  have "t \<le> t'" "\<And>h. x = Some h \<Longrightarrow> h \<le> t'" by (auto simp: t'_def split: option.splits)
  then show ?case using Cons.IH [of t'] unfolding l by (auto intro: order_trans)
qed (simp add: latest_def)

lemmas latest_ge = conjunct1 [OF latest_bounds] mp [OF spec [OF conjunct2 [OF latest_bounds]]]

lemma sorted_last_le: "sorted (map f xs) \<Longrightarrow> x \<in> set xs \<Longrightarrow> f x \<le> f (last xs)"
  by (cases xs rule: rev_cases) (auto simp: sorted_append)

lemma run_hook_facts [simp]:
  "pp_buf (run_hook bytes left mss p) = pp_buf p" "pp_in_flight (run_hook bytes left mss p) = pp_in_flight p"
  "pp_transport (run_hook bytes left mss p) = pp_transport p" "pp_ends (run_hook bytes left mss p) = pp_ends p"
  "pp_reader (run_hook bytes left mss p) = pp_reader p" "pp_rx_memory (run_hook bytes left mss p) = pp_rx_memory p"
  "same_flags p (run_hook bytes left mss p)"
  "pipe_wf os (run_hook bytes left mss p) = pipe_wf os p" "unsent_of (run_hook bytes left mss p) = unsent_of p"
  by (simp_all add: run_hook_def unsent_of_def)

lemma send_reports_facts [simp]:
  "pp_buf (send_reports env seg p) = pp_buf p" "pp_in_flight (send_reports env seg p) = pp_in_flight p"
  "pp_transport (send_reports env seg p) = pp_transport p" "pp_ends (send_reports env seg p) = pp_ends p"
  "pp_reader (send_reports env seg p) = pp_reader p" "pp_rx_memory (send_reports env seg p) = pp_rx_memory p"
  "pp_transport_delay (send_reports env seg p) = pp_transport_delay p"
  "same_flags p (send_reports env seg p)"
  "pipe_wf os (send_reports env seg p) = pipe_wf os p" "unsent_of (send_reports env seg p) = unsent_of p"
  by (simp_all add: send_reports_def Let_def same_flags_def pipe_wf_def unsent_of_def)

lemma fly_facts:
  "pp_buf (fly env t bytes mss p) = pp_buf p" "flying (fly env t bytes mss p) = flying p @ bytes"
  "unsent_of (fly env t bytes mss p) = unsent_of p" "same_flags p (fly env t bytes mss p)"
  "pp_transport (fly env t bytes mss p) = pp_transport p"
  by (simp_all add: fly_def flying_def unsent_of_def same_flags_def log_event_def)

lemma fly_wf:
  assumes wf: "pipe_wf os p" and "bytes \<noteq> []" "last_arrival p \<in> set holds"
  shows "pipe_wf os (fly env (latest t holds) bytes mss p)"
proof -
  have "\<forall>f \<in> set (pp_in_flight p). fl_at f \<le> latest t holds"
  proof
    fix f assume f: "f \<in> set (pp_in_flight p)"
    then have "last_arrival p = Some (fl_at (last (pp_in_flight p)))" by (auto simp: last_arrival_def)
    then have "fl_at (last (pp_in_flight p)) \<le> latest t holds" using assms(3) latest_ge(2) by metis
    moreover have "fl_at f \<le> fl_at (last (pp_in_flight p))" using wf f by (intro sorted_last_le) (simp_all add: pipe_wf_def)
    ultimately show "fl_at f \<le> latest t holds" by simp
  qed
  then show ?thesis using wf assms(2) by (auto simp: pipe_wf_def fly_def log_event_def sorted_append)
qed

lemma send_segment_facts:
  assumes wf: "pipe_wf Linux p" and "sg_bytes seg \<noteq> []"
  shows "pp_buf (send_segment env seg p) @ flying (send_segment env seg p) = pp_buf p @ flying p @ sg_bytes seg"
    "unsent_of (send_segment env seg p) = unsent_of p" "same_flags p (send_segment env seg p)"
    "pipe_wf Linux (send_segment env seg p)"
proof -
  define p1 where "p1 = send_reports env seg p"
  define t where "t = latest (pe_now env + pp_transport_delay p1) [last_arrival p1, pipe_held env p1]"
  have p1: "pp_buf p1 = pp_buf p" "pp_in_flight p1 = pp_in_flight p" "same_flags p p1" "pipe_wf Linux p1"
    "unsent_of p1 = unsent_of p" using wf by (simp_all add: p1_def)
  have cases: "lands_at_once env (pp_transport_delay p1) p1 \<and> pp_in_flight p1 = [] \<and>
       send_segment env seg p = pipe_arrive Linux env (sg_bytes seg) (sg_mss seg) (run_hook (sg_bytes seg) 0 (sg_mss seg) p1)
     \<or> send_segment env seg p =
       fly env t (sg_bytes seg) (sg_mss seg) (run_hook (sg_bytes seg) (remaining env t) (sg_mss seg) p1)"
    by (simp add: send_segment_def Let_def lands_at_once_def flip: p1_def t_def)
  have "last_arrival (run_hook b l m p1) = last_arrival p1" for b l m by (simp add: last_arrival_def)
  then have fl: "pipe_wf Linux (fly env t (sg_bytes seg) (sg_mss seg) (run_hook (sg_bytes seg) l (sg_mss seg) p1))" for l
    unfolding t_def using p1(4) assms(2) by (intro fly_wf) simp_all
  show "pp_buf (send_segment env seg p) @ flying (send_segment env seg p) = pp_buf p @ flying p @ sg_bytes seg"
    using cases p1 by (auto simp: pipe_arrive_facts fly_facts flying_def [of "pipe_arrive _ _ _ _ _"] flying_def [of p]
        flying_def [of "run_hook _ _ _ _"])
  show "unsent_of (send_segment env seg p) = unsent_of p"
    using cases p1 by (auto simp: pipe_arrive_facts fly_facts)
  show "same_flags p (send_segment env seg p)"
    using cases p1(3) run_hook_facts(7) pipe_arrive_facts(3) fly_facts(4) same_flags_trans by (metis target_os.distinct(1))
  show "pipe_wf Linux (send_segment env seg p)"
    using cases p1(4) fl by (auto simp: pipe_arrive_facts)
qed

text \<open>\<^verbatim>\<open>transmit\<close> ends, and moves bytes from the transport to the link without changing their order.\<close>

lemma transmit_returns:
  assumes "pipe_wf Linux p"
  obtains p' where "transmit env p = Some p'" "pipe_wf Linux p'" "content p' = content p" "same_flags p p'"
  using assms
proof (induction "length (unsent_of p)" arbitrary: p thesis rule: less_induct)
  case less
  show ?case
  proof (cases "pp_transport p")
    case None
    show ?thesis by (rule less.prems(1) [of p]) (use None less.prems(2) in \<open>simp_all add: transmit.simps\<close>)
  next
    case (Some t)
    then have wf: "tt_wf t" using less.prems(2) by (simp add: pipe_wf_def)
    show ?thesis
    proof (cases "unsent t = [] \<or> tt_window_end t \<le> tt_transmitted t")
      case True
      have "p\<lparr>pp_transport := Some t\<rparr> = p" using Some by simp
      then show ?thesis
        by (intro less.prems(1) [of p]) (use Some less.prems(2) next_segment_None [OF wf True] in \<open>simp_all add: transmit.simps\<close>)
    next
      case False
      then obtain seg t' where seg: "next_segment t = Some (Some seg, t')" "tt_wf t'" "sg_bytes seg \<noteq> []"
        "unsent t = sg_bytes seg @ unsent t'" using next_segment_wf [OF wf] by (metis not_le)
      define q where "q = p\<lparr>pp_transport := Some t'\<rparr>"
      have q: "pipe_wf Linux q" "pp_buf q = pp_buf p" "flying q = flying p" "unsent_of q = unsent t'" "same_flags p q"
        using less.prems(2) seg(2) Some by (simp_all add: q_def pipe_wf_def flying_def unsent_of_def same_flags_def)
      note s = send_segment_facts [OF q(1) seg(3), of env]
      have c: "content (send_segment env seg q) = content p"
        using s(1,2) q seg(4) Some by (simp add: content_def unsent_of_def [of p])
      have "length (unsent_of (send_segment env seg q)) < length (unsent_of p)"
        using s(2) q(4) seg Some by (simp add: unsent_of_def [of p])
      from less.hyps [OF this _ s(4)] obtain p' where p': "transmit env (send_segment env seg q) = Some p'"
        "pipe_wf Linux p'" "content p' = content (send_segment env seg q)" "same_flags (send_segment env seg q) p'" by blast
      show ?thesis
      proof (rule less.prems(1) [of p'])
        show "transmit env p = Some p'" using p'(1) seg(1) Some by (subst transmit.simps) (simp add: q_def)
        show "pipe_wf Linux p'" "content p' = content p" using p' c by simp_all
        show "same_flags p p'" using q(5) s(3) p'(4) by (blast intro: same_flags_trans)
      qed
    qed
  qed
qed

end
