(* ===== verification/Stream_Order.thy ===== *)
theory Stream_Order
  imports Stream_Pipe "HOL-Library.Sublist"
begin

text \<open>
  What the operations of \<^verbatim>\<open>stream.rs\<close> do to the bytes of a stream. Every operation returns on a well-formed pipe
  and leaves it well-formed; writes append to the content, reads take from its front, and everything else leaves
  it alone. On macOS a reader that shut its receive side makes the pipe drop what arrives; such a pipe is
  \<open>deaf\<close>.
\<close>

definition deaf :: "target_os \<Rightarrow> pipe \<Rightarrow> bool" where
  "deaf os p \<longleftrightarrow> os = MacOS \<and> pp_read_shut p"

lemma deaf_flags: "same_flags p p' \<Longrightarrow> deaf os p' = deaf os p"
  by (simp add: deaf_def same_flags_def)

lemma same_flags_log [simp]: "same_flags p (log_event e q) = same_flags p q"
  by (simp add: same_flags_def log_event_def)

section \<open>Landing\<close>

lemma pipe_arrive_wf: "pipe_wf os p \<Longrightarrow> pipe_wf os (pipe_arrive os env bytes mss p)"
  by (cases "os = MacOS \<and> pp_read_shut p") (simp add: pipe_arrive_def, simp add: pipe_arrive_facts)

lemma pipe_arrive_flags: "same_flags p (pipe_arrive os env bytes mss p)"
  by (cases "os = MacOS \<and> pp_read_shut p") (simp add: pipe_arrive_def, simp add: pipe_arrive_facts)

lemma pipe_arrive_flight [simp]: "pp_in_flight (pipe_arrive os env bytes mss p) = pp_in_flight p"
  by (cases "os = MacOS \<and> pp_read_shut p") (simp add: pipe_arrive_def, simp add: pipe_arrive_facts)

lemma same_flags_flight [simp]: "same_flags p (p\<lparr>pp_in_flight := fs\<rparr>)"
  by (simp add: same_flags_def)

lemma pipe_wf_tail: "pipe_wf os (p\<lparr>pp_in_flight := f # fs\<rparr>) \<Longrightarrow> pipe_wf os (p\<lparr>pp_in_flight := fs\<rparr>)"
  by (simp add: pipe_wf_def)

lemma flight_id: "pp_in_flight p = fs \<Longrightarrow> p\<lparr>pp_in_flight := fs\<rparr> = p"
  by simp

lemma land_while_facts:
  "pipe_wf os (p\<lparr>pp_in_flight := fs\<rparr>) \<Longrightarrow>
   pipe_wf os (land_while due os env fs p) \<and> same_flags p (land_while due os env fs p)
     \<and> (\<not> deaf os p \<longrightarrow> content (land_while due os env fs p) = content (p\<lparr>pp_in_flight := fs\<rparr>))"
proof (induction fs arbitrary: p)
  case (Cons f fs)
  show ?case
  proof (cases "due p f")
    case True
    define q where "q = pipe_arrive os env (fl_bytes f) (fl_mss f) (p\<lparr>pp_in_flight := fs\<rparr>)"
    have fs: "pp_in_flight q = fs" by (simp add: q_def)
    have wf: "pipe_wf os (q\<lparr>pp_in_flight := fs\<rparr>)" unfolding flight_id [OF fs]
      unfolding q_def by (intro pipe_arrive_wf pipe_wf_tail [OF Cons.prems])
    have flags: "same_flags p q" unfolding q_def
      by (rule same_flags_trans [OF same_flags_flight pipe_arrive_flags])
    have "content q = content (p\<lparr>pp_in_flight := f # fs\<rparr>)" if "\<not> deaf os p"
    proof -
      have "\<not> (os = MacOS \<and> pp_read_shut (p\<lparr>pp_in_flight := fs\<rparr>))" using that by (simp add: deaf_def)
      note a = pipe_arrive_facts [OF this, of env "fl_bytes f" "fl_mss f", folded q_def]
      show ?thesis using a by (simp add: content_def flying_def) (simp add: unsent_of_def)
    qed
    then show ?thesis using Cons.IH [OF wf] flags True flight_id [OF fs]
      by (auto simp: deaf_flags simp flip: q_def intro: same_flags_trans)
  qed (use Cons.prems in simp)
qed simp

lemma pipe_land_returns:
  assumes wf: "pipe_wf os p"
  obtains p' where "pipe_land os env p = Some p'" "pipe_wf os p'" "same_flags p p'"
    "\<not> deaf os p \<Longrightarrow> content p' = content p"
proof -
  define p1 where "p1 = land_while (flight_due os env) os env (pp_in_flight p) p"
  have p1: "pipe_wf os p1" "same_flags p p1" "\<not> deaf os p \<Longrightarrow> content p1 = content p"
    using land_while_facts [where due = "flight_due os env" and os = os and p = p and fs = "pp_in_flight p" and env = env] wf by (simp_all add: p1_def)
  have land: "pipe_land os env p = (if \<not> via_releases env \<or> os \<noteq> MacOS \<and> pipe_held env p \<noteq> None then Some p
      else if os = Linux then transmit env p1 else Some p1)"
    by (simp only: pipe_land_def p1_def Let_def)
  then consider "pipe_land os env p = Some p" | "os = Linux" "pipe_land os env p = transmit env p1"
    | "pipe_land os env p = Some p1" by argo
  then show thesis
  proof cases
    case 1
    then show thesis by (rule that) (simp_all add: wf)
  next
    case 2
    then obtain p2 where "transmit env p1 = Some p2" "pipe_wf Linux p2" "content p2 = content p1" "same_flags p1 p2"
      using p1(1) transmit_returns [of p1 env] by blast
    then show thesis using 2 p1 by (intro that [of p2]) (auto intro: same_flags_trans)
  next
    case 3
    then show thesis by (rule that) (simp_all add: p1)
  qed
qed

section \<open>Writing\<close>

lemma takes_le: "takes os cap used len own \<le> len"
  by (simp add: takes_def Let_def sat_simps)

lemma pipe_transport_wf: "pipe_wf Linux p \<Longrightarrow> tt_wf (pipe_transport env p)"
  by (auto simp: pipe_transport_def pipe_wf_def new_transport_wf split: option.splits)

lemma pipe_transport_unsent: "unsent (pipe_transport env p) = unsent_of p"
  by (simp add: pipe_transport_def unsent_of_def split: option.splits)

lemma tail_facts [simp]:
  "same_flags p (p\<lparr>pp_tcp_tail := x\<rparr>)" "pipe_wf os (p\<lparr>pp_tcp_tail := x\<rparr>) = pipe_wf os p"
  "unsent_of (p\<lparr>pp_tcp_tail := x\<rparr>) = unsent_of p"
  by (simp_all add: same_flags_def pipe_wf_def unsent_of_def)

lemma write_transport_returns:
  assumes wf: "pipe_wf Linux p" and ne: "bytes \<noteq> []"
  obtains p' where "write_transport env bytes delay p = Some p'" "pipe_wf Linux p'" "same_flags p p'"
    "content p' = content p @ bytes"
proof -
  define t where "t = pipe_transport env p"
  define p1 where "p1 = p\<lparr>pp_transport := Some t, pp_transport_delay := delay\<rparr>"
  have t: "tt_wf t" "unsent t = unsent_of p" using wf by (simp_all add: t_def pipe_transport_wf pipe_transport_unsent)
  show thesis
  proof (cases "lands_at_once env delay p1 \<and> fst (transport_direct (length bytes) t) \<noteq> None")
    case True
    then obtain mss t' where d: "transport_direct (length bytes) t = (Some mss, t')" by (cases "transport_direct (length bytes) t") auto
    note t' = transport_direct_wf [OF t(1) d]
    define p2 where "p2 = pipe_arrive Linux env bytes mss (p1\<lparr>pp_transport := Some t'\<rparr>)"
    define p3 where "p3 = (if pp_writer p \<noteq> None \<and> pe_tcp_requested env
      then (run_hook bytes 0 mss p2)\<lparr>pp_tcp_tail := map_option (\<lambda>t. (tt_transmitted t, bytes)) (pp_transport p2)\<rparr>
      else run_hook bytes 0 mss p2)"
    have q: "pipe_wf Linux (p1\<lparr>pp_transport := Some t'\<rparr>)" "same_flags p (p1\<lparr>pp_transport := Some t'\<rparr>)"
      using wf t' by (simp_all add: p1_def pipe_wf_def same_flags_def)
    have p2: "pipe_wf Linux p2" "same_flags p p2" "pp_buf p2 = pp_buf p @ bytes" "pp_in_flight p2 = pp_in_flight p"
      "unsent_of p2 = []"
      using q t' unfolding p2_def
      by (simp_all add: pipe_arrive_facts same_flags_trans [OF _ pipe_arrive_flags]) (simp_all add: p1_def unsent_of_def)
    have p3: "pipe_wf Linux p3" "same_flags p2 p3" "pp_buf p3 = pp_buf p2" "pp_in_flight p3 = pp_in_flight p2"
      "unsent_of p3 = unsent_of p2"
      using p2(1) same_flags_trans [OF run_hook_facts(7) tail_facts(1)] by (simp_all add: p3_def)
    have "pp_writer (run_hook bytes 0 mss p2) = pp_writer p"
      using run_hook_facts(7) [of p2 bytes 0 mss] p2(2) by (simp add: same_flags_def)
    then have "write_transport env bytes delay p = Some (log_event Bump p3)"
      using True d unfolding write_transport_def Let_def t_def [symmetric] p1_def [symmetric]
      by (simp add: p3_def flip: p2_def)
    moreover have "content p3 = content p @ bytes"
      using p3 p2 t' t True by (simp add: content_def flying_def lands_at_once_def) (simp add: p1_def)
    ultimately show thesis using p3 p2 by (intro that [of "log_event Bump p3"]) (auto intro: same_flags_trans)
  next
    case False
    define q where "q = p1\<lparr>pp_transport := Some (transport_push bytes t)\<rparr>"
    have d: "transport_direct (length bytes) t = (None, t)" if "lands_at_once env delay p1"
      using False that by (simp add: transport_direct_def split: if_splits)
    have qwf: "queue_wf (tt_pending t) (tt_offset t)" using t(1) by (simp add: tt_wf_def)
    have q: "pipe_wf Linux q" "same_flags p q" "content q = content p @ bytes"
      using wf t(1) t(2) transport_push_wf [OF t(1), of bytes] transport_push_unsent [OF qwf, of bytes]
      by (simp_all add: q_def p1_def pipe_wf_def same_flags_def content_def flying_def) (simp add: unsent_of_def)
    obtain p2 where p2: "transmit env q = Some p2" "pipe_wf Linux p2" "content p2 = content q" "same_flags q p2"
      using transmit_returns [OF q(1)] by blast
    have "write_transport env bytes delay p = Some (log_event Bump p2)"
      using d p2(1) unfolding write_transport_def Let_def t_def [symmetric] p1_def [symmetric] by (simp add: q_def)
    then show thesis using p2 q by (intro that [of "log_event Bump p2"]) (auto intro: same_flags_trans)
  qed
qed

lemma write_plain_facts:
  assumes wf: "pipe_wf os p" and ne: "bytes \<noteq> []"
  shows "pipe_wf os (write_plain os env bytes delay p)" "same_flags p (write_plain os env bytes delay p)"
    "\<not> deaf os p \<Longrightarrow> unsent_of p = [] \<Longrightarrow> content (write_plain os env bytes delay p) = content p @ bytes"
proof -
  let ?holds = "[last_arrival p, if os = MacOS then None else pipe_held env p]"
  let ?t = "latest (pe_now env + delay) ?holds"
  define q where "q = (if lands_at_once env delay p then pipe_arrive os env bytes 0 p else fly env ?t bytes 0 p)"
  have w: "\<exists>e1 e2. write_plain os env bytes delay p = log_event e1 (log_event e2 q)"
    by (auto simp: write_plain_def Let_def q_def)
  have "pipe_wf os (fly env ?t bytes 0 p)" using wf ne by (intro fly_wf) simp_all
  then have q: "pipe_wf os q" "same_flags p q"
    using wf by (simp_all add: q_def pipe_arrive_wf pipe_arrive_flags fly_facts)
  have "content q = content p @ bytes" if "\<not> deaf os p" "unsent_of p = []"
    using that pipe_arrive_facts [of os p env bytes 0]
    by (auto simp: q_def content_def fly_facts lands_at_once_def flying_def [of p] flying_def [of "pipe_arrive _ _ _ _ _"] deaf_def)
  then show "pipe_wf os (write_plain os env bytes delay p)" "same_flags p (write_plain os env bytes delay p)"
    "\<not> deaf os p \<Longrightarrow> unsent_of p = [] \<Longrightarrow> content (write_plain os env bytes delay p) = content p @ bytes"
    using w q by (auto intro: same_flags_trans)
qed

text \<open>
  A write keeps the order of the stream as long as it goes where the bytes before it went: through the
  transport, or around it with nothing left in it.
\<close>

definition keeps_path :: "target_os \<Rightarrow> pipe_env \<Rightarrow> pipe \<Rightarrow> bool" where
  "keeps_path os env p \<longleftrightarrow> uses_transport os env p \<or> unsent_of p = []"

lemma write_after_returns:
  assumes wf: "pipe_wf os p"
  obtains r p' where "write_after os env bytes delay p = Some (r, p')" "pipe_wf os p'" "same_flags p p'"
    "r = None \<Longrightarrow> p' = p" "r = None \<longleftrightarrow> sending_closed os p" "\<And>n. r = Some n \<Longrightarrow> n \<le> length bytes"
    "\<And>n. r = Some n \<Longrightarrow> \<not> deaf os p \<Longrightarrow> keeps_path os env p \<Longrightarrow> content p' = content p @ take n bytes"
proof -
  define n where "n = (case capacity os env p of None \<Rightarrow> length bytes
    | Some cap \<Rightarrow> takes os cap (pipe_used os p) (length bytes) (pp_writer p \<noteq> None))"
  have n: "n \<le> length bytes" by (auto simp: n_def takes_le split: option.splits)
  consider "sending_closed os p" | "\<not> sending_closed os p" "n = 0"
    | "\<not> sending_closed os p" "take n bytes \<noteq> []" "0 < n" "uses_transport os env p"
    | "\<not> sending_closed os p" "take n bytes \<noteq> []" "0 < n" "\<not> uses_transport os env p" using n by fastforce
  then show thesis
  proof cases
    case 1
    then show thesis by (intro that [of None p]) (simp_all add: write_after_def wf)
  next
    case 2
    then show thesis by (intro that [of "Some 0" p]) (simp_all add: write_after_def wf flip: n_def)
  next
    case 3
    then have "os = Linux" by (simp add: uses_transport_def)
    then obtain p' where p': "write_transport env (take n bytes) delay p = Some p'" "pipe_wf os p'" "same_flags p p'"
      "content p' = content p @ take n bytes"
      using write_transport_returns [of p "take n bytes" env delay] wf 3 by blast
    show thesis by (rule that [of "Some n" p']) (use 3 p' n in \<open>simp_all add: write_after_def flip: n_def\<close>)
  next
    case 4
    note p' = write_plain_facts [OF wf 4(2), of env delay]
    show thesis by (rule that [of "Some n" "write_plain os env (take n bytes) delay p"])
        (use 4 p' n in \<open>simp_all add: write_after_def keeps_path_def flip: n_def\<close>)
  qed
qed

section \<open>Reading\<close>

lemma drop_chunks_returns:
  "n \<le> sum_list chunks \<Longrightarrow>
   \<exists>rest. drop_chunks n chunks = Some rest \<and> sum_list rest = sum_list chunks - n \<and> (0 \<notin> set chunks \<longrightarrow> 0 \<notin> set rest)"
proof (induction chunks arbitrary: n)
  case (Cons c chunks)
  consider "n = 0" | "0 < n" "c \<le> n" | "0 < n" "n < c" by linarith
  then show ?case
  proof cases
    case 2
    then have "n - c \<le> sum_list chunks" using Cons.prems by simp
    from Cons.IH [OF this] obtain rest where "drop_chunks (n - c) chunks = Some rest"
      "sum_list rest = sum_list chunks - (n - c)" "0 \<notin> set chunks \<longrightarrow> 0 \<notin> set rest" by blast
    then show ?thesis using 2 by (subst drop_chunks.simps) simp
  qed (use Cons.prems in \<open>subst drop_chunks.simps, simp\<close>)+
qed (simp add: drop_chunks.simps)

lemma release_memory_returns:
  assumes "pipe_wf Linux p" "pp_reader p = Some b"
  obtains p' where "release_memory env n b p = Some p'" "pipe_wf Linux p'" "content p' = content p" "same_flags p p'"
proof -
  obtain returned rx where r: "return_memory n (pp_rx_memory p) = (returned, rx)" by fastforce
  define b' where "b' = consume_tcp returned b"
  define q where "q = p\<lparr>pp_rx_memory := rx, pp_reader := Some b', pp_transport := map_option (advertise (sb_rmem b')) (pp_transport p)\<rparr>"
  have q: "pipe_wf Linux q" "same_flags p q" "content q = content p"
    using assms by (auto simp: q_def b'_def consume_tcp_def set_rmem_def pipe_wf_def same_flags_def content_def flying_def
        unsent_of_def advertise_wf
        same_sender_unsent [OF advertise_same] split: option.splits)
  have "release_memory env n b p = transmit env q" by (simp add: release_memory_def r q_def b'_def Let_def)
  moreover obtain p' where "transmit env q = Some p'" "pipe_wf Linux p'" "content p' = content q" "same_flags q p'"
    using transmit_returns [OF q(1)] by blast
  ultimately show thesis using q by (intro that [of p']) (auto intro: same_flags_trans)
qed

lemma finish_read_facts:
  "same_flags q (finish_read os env n p) = same_flags q p" "pipe_wf os' (finish_read os env n p) = pipe_wf os' p"
  "content (finish_read os env n p) = content p"
  by (simp_all add: finish_read_def Let_def) (simp_all add: same_flags_def pipe_wf_def content_def flying_def unsent_of_def)

lemma take_data_returns:
  assumes wf: "pipe_wf os p"
  obtains p' where "take_data os env space p = Some (take space (pp_buf p), p')" "pipe_wf os p'" "same_flags p p'"
    "content p = take space (pp_buf p) @ content p'"
proof -
  define n where "n = min (length (pp_buf p)) space"
  have tk: "take n (pp_buf p) = take space (pp_buf p)" by (simp add: n_def min_def)
  obtain rest where rest: "drop_chunks n (pp_chunks p) = Some rest" "sum_list rest = length (pp_buf p) - n" "0 \<notin> set rest"
    using drop_chunks_returns [of n "pp_chunks p"] wf by (auto simp: pipe_wf_def n_def)
  define p1 where "p1 = p\<lparr>pp_buf := drop n (pp_buf p), pp_chunks := rest\<rparr>"
  have p1: "pipe_wf os p1" "same_flags p p1" "content p = take n (pp_buf p) @ content p1"
    using wf rest by (simp_all add: p1_def pipe_wf_def same_flags_def content_def flying_def unsent_of_def)
  obtain p2 where p2: "(if os = Linux then (case pp_reader p1 of Some b \<Rightarrow> release_memory env n b p1 | None \<Rightarrow> Some p1)
      else Some p1) = Some p2" "pipe_wf os p2" "content p2 = content p1" "same_flags p1 p2"
  proof (cases "os = Linux \<and> pp_reader p1 \<noteq> None")
    case True
    then obtain b where b: "pp_reader p1 = Some b" by auto
    obtain p' where "release_memory env n b p1 = Some p'" "pipe_wf Linux p'" "content p' = content p1" "same_flags p1 p'"
      using release_memory_returns [of p1 b env n] b True p1(1) by blast
    then show ?thesis using b True by (intro that [of p']) simp_all
  next
    case False
    then show ?thesis using p1(1) by (intro that [of p1]) (auto split: option.splits)
  qed
  have "take_data os env space p = Some (take n (pp_buf p), finish_read os env n p2)"
    by (simp only: take_data_def Let_def n_def [symmetric] rest(1) option.case p1_def [symmetric] p2(1))
  then show thesis using p2 p1 unfolding tk
    by (intro that [of "finish_read os env n p2"]) (auto simp: finish_read_facts intro: same_flags_trans)
qed

definition eof_reached :: "target_os \<Rightarrow> pipe \<Rightarrow> bool" where
  "eof_reached os p \<longleftrightarrow> pp_read_shut p \<or> pp_closed p \<and> \<not> pp_reset p \<and> content p = []"

lemma read_empty_facts:
  assumes "pipe_wf os p" "pp_buf p = []"
  shows "read_empty os env p \<noteq> Data n" "read_empty os env p = Eof \<Longrightarrow> eof_reached os p"
  using assms pipe_pending_content [of os p]
  by (auto simp: read_empty_def eof_reached_def content_def split: if_splits)

text \<open>What a read of at most \<open>space\<close> bytes did to \<open>p\<close>, with \<open>out\<close> already copied before it took \<open>bytes\<close>.\<close>

definition read_ok :: "target_os \<Rightarrow> pipe \<Rightarrow> nat \<Rightarrow> string \<Rightarrow> read \<Rightarrow> string \<Rightarrow> pipe \<Rightarrow> bool" where
  "read_ok os p space out r bytes p' \<longleftrightarrow> pipe_wf os p' \<and> same_flags p p'
     \<and> (if deaf os p then bytes = [] else content p = bytes @ content p')
     \<and> (case r of Data n \<Rightarrow> n = length (out @ bytes) \<and> n \<le> space | _ \<Rightarrow> out @ bytes = [])
     \<and> (r = Eof \<longrightarrow> eof_reached os p')"

lemma read_empty_cases: "read_empty os env p \<in> {Reset, Eof, WouldBlock}"
  by (simp add: read_empty_def)

lemma read_chunk_returns:
  assumes wf: "pipe_wf os p"
  shows "\<exists>r bytes p'. read_chunk os env space p = Some (r, bytes, p') \<and> read_ok os p space [] r bytes p'
    \<and> (\<forall>n. r = Data n \<longrightarrow> 0 < space \<longrightarrow> 0 < n)"
proof -
  consider "os = Windows \<and> pp_reset p" | "\<not> (os = Windows \<and> pp_reset p)" "pp_read_shut p \<and> os \<noteq> Linux"
    | "\<not> (os = Windows \<and> pp_reset p)" "\<not> (pp_read_shut p \<and> os \<noteq> Linux)" by blast
  then show ?thesis
  proof cases
    case 1
    then show ?thesis using wf by (simp add: read_chunk_def read_ok_def)
  next
    case 2
    then have "read_chunk os env space p = Some (Shut, [], p)" by (simp add: read_chunk_def)
    then show ?thesis using wf by (simp add: read_ok_def)
  next
    case 3
    obtain p1 where p1: "pipe_land os env p = Some p1" "pipe_wf os p1" "same_flags p p1"
      "\<not> deaf os p \<Longrightarrow> content p1 = content p" using pipe_land_returns [OF wf] by blast
    have nd: "\<not> deaf os p" using 3 unfolding deaf_def by blast
    have c: "read_chunk os env space p = (if pp_buf p1 = [] then Some (read_empty os env p1, [], p1)
        else map_option (\<lambda>(bytes, p2). (Data (length bytes), bytes, p2)) (take_data os env space p1))"
      unfolding read_chunk_def p1(1) option.case using 3 by (simp only: if_False)
    show ?thesis
    proof (cases "pp_buf p1 = []")
      case True
      then have "read_ok os p space [] (read_empty os env p1) [] p1"
        using p1 nd read_empty_cases [of os env p1] read_empty_facts [OF p1(2) True, of env]
        by (auto simp: read_ok_def split: read.splits)
      then show ?thesis using c True read_empty_facts(1) [OF p1(2) True, of env] by auto
    next
      case False
      obtain p2 where p2: "take_data os env space p1 = Some (take space (pp_buf p1), p2)" "pipe_wf os p2" "same_flags p1 p2"
        "content p1 = take space (pp_buf p1) @ content p2" using take_data_returns [OF p1(2)] by blast
      define bytes where "bytes = take space (pp_buf p1)"
      have "read_ok os p space [] (Data (length bytes)) bytes p2"
        using p1 p2 nd same_flags_trans [OF p1(3) p2(3)] by (simp add: read_ok_def bytes_def)
      moreover have "0 < space \<longrightarrow> 0 < length bytes" using False by (simp add: bytes_def)
      ultimately show ?thesis using c False p2(1) by (auto simp: bytes_def)
    qed
  qed
qed

lemma read_ok_trans:
  assumes "read_ok os p space' [] (Data n) bytes p'" "read_ok os p' space (out @ bytes) r extra p''"
  shows "read_ok os p space out r (bytes @ extra) p''"
  using assms deaf_flags [of p p' os] same_flags_trans [of p p' p'']
  by (auto simp: read_ok_def split: read.splits)

lemma read_loop_returns:
  "pipe_wf os p \<Longrightarrow> length out \<le> space \<Longrightarrow>
   \<exists>r bytes p'. read_loop os env space out p = Some (r, out @ bytes, p') \<and> read_ok os p space out r bytes p'"
proof (induction "space - length out" arbitrary: out p rule: less_induct)
  case less
  obtain r bytes p' where c: "read_chunk os env (space - length out) p = Some (r, bytes, p')"
    "read_ok os p (space - length out) [] r bytes p'" "\<forall>n. r = Data n \<longrightarrow> 0 < space - length out \<longrightarrow> 0 < n"
    using read_chunk_returns [OF less.prems(1), of env "space - length out"] by blast
  show ?case
  proof (cases "\<exists>n. r = Data n")
    case False
    then have nb: "bytes = []" using c(2) by (auto simp: read_ok_def split: read.splits)
    have "read_loop os env space out p = Some (if out = [] then r else Data (length out), out @ [], p')"
      using False c(1) by (subst read_loop.simps) (auto split: read.splits)
    moreover have "read_ok os p space out (if out = [] then r else Data (length out)) [] p'"
      using c(2) nb False less.prems(2) by (auto simp: read_ok_def split: read.splits if_splits)
    ultimately show ?thesis by blast
  next
    case True
    then obtain n where r: "r = Data n" by blast
    have n: "n = length bytes" "n \<le> space - length out" "0 < space - length out \<longrightarrow> 0 < n"
      using c(2,3) r by (auto simp: read_ok_def)
    show ?thesis
    proof (cases "length out + n = space \<or> os \<noteq> Linux \<or> \<not> pp_ends p'")
      case True
      then have "read_loop os env space out p = Some (Data (length out + n), out @ bytes, p')"
        using c(1) r by (subst read_loop.simps) (simp only: option.case prod.case read.case if_True)
      moreover have "read_ok os p space out (Data (length out + n)) bytes p'"
        using c(2) r n less.prems(2) by (auto simp: read_ok_def)
      ultimately show ?thesis by blast
    next
      case False
      then have step: "read_loop os env space out p = read_loop os env space (out @ bytes) p'"
        using c(1) r by (subst read_loop.simps) (simp only: option.case prod.case read.case if_False)
      have "0 < length bytes" "length out + length bytes \<le> space" using False n less.prems(2) by auto
      then have "space - length (out @ bytes) < space - length out" "length (out @ bytes) \<le> space"
        unfolding length_append by linarith+
      moreover have "pipe_wf os p'" using c(2) by (simp add: read_ok_def)
      ultimately obtain r2 extra p2 where h: "read_loop os env space (out @ bytes) p' = Some (r2, (out @ bytes) @ extra, p2)"
        "read_ok os p' space (out @ bytes) r2 extra p2" using less.hyps by blast
      show ?thesis using h read_ok_trans [OF c(2) [unfolded r] h(2)] step by (metis append.assoc)
    qed
  qed
qed

lemma pipe_read_returns:
  "pipe_wf os p \<Longrightarrow> \<exists>r bytes p'. pipe_read os env space p = Some (r, bytes, p') \<and> read_ok os p space [] r bytes p'"
  using read_loop_returns [of os p "[]" space env] by (simp add: pipe_read_def)

section \<open>Runs\<close>

text \<open>
  The calls on a pipe in any order and with any environment, beside the bytes its writes accepted and the bytes
  its reads returned. The queries that change the pipe land what has arrived, as \<open>land\<close> does. The hypothesis of
  \<open>wrote\<close> is what the source leaves to its callers: a stream does not leave the transport with bytes still in it.
\<close>

definition attached :: "target_os \<Rightarrow> pipe \<Rightarrow> pipe set" where
  "attached os p =
     {p'. \<exists>b. p' = read_by os b p \<or> p' = write_by b p \<or> p' = pending_reader os b p}
     \<union> {p'. \<exists>m r bytes rtt. p' = set_mtu m p \<or> p' = on_transmit p \<or> p' = timestamp_write r bytes rtt p}
     \<union> {p'. \<exists>v. p' = abandon_reader p \<or> p' = reset_reader p \<or> p' = reset_reader_at v p \<or> p' = close_writer p}"

inductive pipe_step :: "target_os \<Rightarrow> pipe \<times> string \<times> string \<Rightarrow> pipe \<times> string \<times> string \<Rightarrow> bool" for os where
  wrote: "keeps_path os env p \<Longrightarrow> write_after os env bytes delay p = Some (Some n, p') \<Longrightarrow>
    pipe_step os (p, w, d) (p', w @ take n bytes, d)"
| refused: "write_after os env bytes delay p = Some (None, p') \<Longrightarrow> pipe_step os (p, w, d) (p', w, d)"
| read: "pipe_read os env space p = Some (r, bytes, p') \<Longrightarrow> pipe_step os (p, w, d) (p', w, d @ bytes)"
| peek: "pipe_peek os env space p = Some (r, bytes, p') \<Longrightarrow> pipe_step os (p, w, d) (p', w, d)"
| land: "pipe_land os env p = Some p' \<Longrightarrow> pipe_step os (p, w, d) (p', w, d)"
| shut: "shut_read os env p = Some p' \<Longrightarrow> pipe_step os (p, w, d) (p', w, d)"
| close: "pipe_step os (p, w, d) (close_pipe os env p, w, d)"
| reset: "reset_pipe os env p = Some p' \<Longrightarrow> pipe_step os (p, w, d) (p', w, d)"
| quiet: "os = MacOS \<Longrightarrow> pipe_step os (p, w, d) (reset_quiet_at env cutoff p, w, d)"
| abort: "os = MacOS \<Longrightarrow> pipe_step os (p, w, d) (abort_writer p, w, d)"
| attach: "p' \<in> attached os p \<Longrightarrow> pipe_step os (p, w, d) (p', w, d)"

abbreviation pipe_run :: "target_os \<Rightarrow> pipe \<times> string \<times> string \<Rightarrow> pipe \<times> string \<times> string \<Rightarrow> bool" where
  "pipe_run os \<equiv> (pipe_step os)\<^sup>*\<^sup>*"

definition stream_inv :: "target_os \<Rightarrow> pipe \<Rightarrow> string \<Rightarrow> string \<Rightarrow> bool" where
  "stream_inv os p w d \<longleftrightarrow> pipe_wf os p
     \<and> (if deaf os p then prefix d w
        else \<exists>lost. w = d @ content p @ lost \<and> (lost \<noteq> [] \<longrightarrow> os \<noteq> Linux \<and> pp_closed p \<and> pp_reset p))"

text \<open>An operation that only carries bytes along, and ends the stream at most.\<close>

definition carries :: "target_os \<Rightarrow> pipe \<Rightarrow> pipe \<Rightarrow> bool" where
  "carries os p p' \<longleftrightarrow> pipe_wf os p' \<and> pp_read_shut p' = pp_read_shut p \<and> (pp_closed p \<longrightarrow> pp_closed p')
     \<and> (pp_reset p \<longrightarrow> pp_reset p') \<and> (\<not> deaf os p \<longrightarrow> content p' = content p)"

lemma carries_inv: "carries os p p' \<Longrightarrow> stream_inv os p w d \<Longrightarrow> stream_inv os p' w d"
  by (auto simp: carries_def stream_inv_def deaf_def)

lemma carries_flags: "pipe_wf os p' \<Longrightarrow> same_flags p p' \<Longrightarrow> (\<not> deaf os p \<Longrightarrow> content p' = content p) \<Longrightarrow> carries os p p'"
  by (simp add: carries_def same_flags_def)

lemma carries_trans: "carries os p p' \<Longrightarrow> carries os p' p'' \<Longrightarrow> carries os p p''"
  by (simp add: carries_def deaf_def)

lemma carries_log [simp]: "carries os p (log_event e p') = carries os p p'"
  by (simp add: carries_def) (simp add: log_event_def)

lemma wake_carries [simp]: "carries os p (wake_both p') = carries os p p'" "carries os p (wake_read p') = carries os p p'"
  by (simp_all add: carries_def wake_both_def wake_read_def pipe_wf_def content_def flying_def unsent_of_def)

lemma carries_refl: "pipe_wf os p \<Longrightarrow> carries os p p"
  by (simp add: carries_def)

lemma land_carries: "pipe_wf os p \<Longrightarrow> pipe_land os env p = Some p' \<Longrightarrow> carries os p p'"
proof -
  assume wf: "pipe_wf os p" and p': "pipe_land os env p = Some p'"
  obtain q where q: "pipe_land os env p = Some q" "pipe_wf os q" "same_flags p q" "\<not> deaf os p \<Longrightarrow> content q = content p"
    using pipe_land_returns [OF wf] by blast
  then show ?thesis using p' by (auto intro: carries_flags)
qed

lemma peek_carries: "pipe_wf os p \<Longrightarrow> pipe_peek os env space p = Some (r, bytes, p') \<Longrightarrow> carries os p p'"
  by (auto simp: pipe_peek_def carries_refl split: if_splits dest: land_carries)

lemma carries_plain:
  "pipe_wf os p \<Longrightarrow> pp_buf p' = pp_buf p \<Longrightarrow> pp_chunks p' = pp_chunks p \<Longrightarrow> pp_in_flight p' = pp_in_flight p \<Longrightarrow>
   pp_transport p' = pp_transport p \<Longrightarrow> pp_read_shut p' = pp_read_shut p \<Longrightarrow> (pp_closed p \<Longrightarrow> pp_closed p') \<Longrightarrow>
   pp_reset p' = pp_reset p \<Longrightarrow> carries os p p'"
  by (simp add: carries_def pipe_wf_def content_def flying_def unsent_of_def)

lemma close_carries: "pipe_wf os p \<Longrightarrow> carries os p (close_pipe os env p)"
  by (rule carries_plain) (simp_all add: close_pipe_def wake_both_def log_event_def Let_def)

lemma abort_carries: "pipe_wf os p \<Longrightarrow> carries os p (abort_writer p)"
  by (rule carries_plain) (simp_all add: abort_writer_def wake_both_def log_event_def Let_def)

lemma attach_carries: "pipe_wf os p \<Longrightarrow> p' \<in> attached os p \<Longrightarrow> carries os p p'"
  unfolding attached_def
  by (elim UnE CollectE exE disjE; rule carries_plain)
    (simp_all add: read_by_def write_by_def pending_reader_def set_mtu_def on_transmit_def timestamp_write_def
      abandon_reader_def reset_reader_def reset_reader_at_def close_writer_def log_event_def Let_def
      split: prod.splits option.splits)

lemma shut_read_inv:
  assumes inv: "stream_inv os p w d" and p': "shut_read os env p = Some p'"
  shows "stream_inv os p' w d"
proof (cases "os = MacOS")
  case True
  then obtain q where q: "pipe_land os env p = Some q"
    "p' = log_event Bump (wake_read ((q\<lparr>pp_buf := [], pp_chunks := []\<rparr>)\<lparr>pp_read_shut := True\<rparr>))"
    using p' by (auto simp: shut_read_def)
  have "pipe_wf os q" using land_carries [OF _ q(1)] inv by (simp add: stream_inv_def carries_def)
  then have "pipe_wf os p'" unfolding q(2) by (simp add: wake_read_def pipe_wf_def)
  moreover have "prefix d w" using inv by (auto simp: stream_inv_def split: if_splits)
  ultimately show ?thesis using True q(2) by (simp add: stream_inv_def deaf_def wake_read_def)
next
  case False
  then have p': "p' = log_event Bump (wake_read (p\<lparr>pp_read_shut := True\<rparr>))" using p' by (simp add: shut_read_def)
  have "content p' = content p" "pipe_wf os p' = pipe_wf os p" "pp_closed p' = pp_closed p" "pp_reset p' = pp_reset p"
    unfolding p' by (simp_all add: wake_read_def content_def flying_def unsent_of_def pipe_wf_def log_event_def)
  then show ?thesis using inv False by (simp add: stream_inv_def deaf_def)
qed

text \<open>Bytes still on their way when the stream is torn down are lost; nothing that remains carries ahead of them.\<close>

lemma torn_down_inv:
  assumes inv: "stream_inv os p w d" and "pipe_wf os p'" "os \<noteq> Linux" "pp_closed p'" "pp_reset p'"
    "pp_read_shut p' = pp_read_shut p" "\<not> deaf os p \<Longrightarrow> prefix (content p') (content p)"
  shows "stream_inv os p' w d"
proof (cases "deaf os p")
  case False
  then obtain lost where "w = d @ content p @ lost" using inv by (auto simp: stream_inv_def)
  moreover obtain gone where "content p = content p' @ gone" using assms(7) False by (auto simp: prefix_def)
  ultimately have "w = d @ content p' @ (gone @ lost)" by simp
  then show ?thesis using assms False by (auto simp: stream_inv_def deaf_def)
qed (use assms in \<open>simp add: stream_inv_def deaf_def\<close>)

lemma reset_inv:
  assumes inv: "stream_inv os p w d" and p': "reset_pipe os env p = Some p'"
  shows "stream_inv os p' w d"
proof -
  define p0 where "p0 = p\<lparr>pp_reset := True, pp_closed := True\<rparr>"
  have wf: "pipe_wf os p" using inv by (simp add: stream_inv_def)
  then have p0: "carries os p p0" "pp_reset p0" "pp_closed p0"
    by (simp_all add: carries_def p0_def pipe_wf_def content_def flying_def unsent_of_def)
  obtain q where q: "pipe_land os env p0 = Some q" using p' by (auto simp: reset_pipe_def reset_state_def p0_def)
  have "carries os p0 q" using p0(1) by (intro land_carries [OF _ q]) (simp add: carries_def)
  then have m: "carries os p q" "pp_reset q" "pp_closed q" using p0 carries_trans by (auto simp: carries_def deaf_def)
  show ?thesis
  proof (cases "os = Windows")
    case True
    then have "p' = log_event Bump (wake_both ((if pp_reader q \<noteq> None then log_event Reader_Unestablished q else q)
        \<lparr>pp_buf := [], pp_chunks := [], pp_in_flight := []\<rparr>))"
      using p' q by (simp add: reset_pipe_def reset_state_def flip: p0_def)
    then have "pp_transport p' = pp_transport q" "content p' = unsent_of q" "pp_chunks p' = []" "pp_buf p' = []"
      "pp_in_flight p' = []" "pp_reset p'" "pp_closed p'" "pp_read_shut p' = pp_read_shut q"
      using m(2,3) by (auto simp: wake_both_def log_event_def content_def flying_def unsent_of_def)
    moreover have "unsent_of q = []" "pp_transport q = None" using m(1) True
      by (auto simp: carries_def pipe_wf_def unsent_of_def split: option.splits)
    ultimately show ?thesis using m(1) True
      by (intro torn_down_inv [OF inv]) (auto simp: pipe_wf_def carries_def)
  next
    case False
    then have "p' = log_event Bump (wake_both q)" using p' q by (simp add: reset_pipe_def reset_state_def flip: p0_def)
    then have "carries os p p'" using m(1) by simp
    then show ?thesis using inv by (rule carries_inv)
  qed
qed

lemma quiet_inv:
  assumes inv: "stream_inv MacOS p w d"
  shows "stream_inv MacOS (reset_quiet_at env cutoff p) w d"
proof -
  define q where "q = land_while (due_by env cutoff) MacOS env (pp_in_flight p) p"
  define p' where "p' = reset_quiet_at env cutoff p"
  have wf: "pipe_wf MacOS p" using inv by (simp add: stream_inv_def)
  have q: "pipe_wf MacOS q" "same_flags p q" "\<not> deaf MacOS p \<longrightarrow> content q = content p"
    using land_while_facts [where due = "due_by env cutoff" and os = MacOS and p = p and fs = "pp_in_flight p" and env = env] wf
    by (simp_all add: q_def)
  have fields: "pp_buf p' = pp_buf q" "pp_chunks p' = pp_chunks q" "pp_in_flight p' = []" "pp_transport p' = pp_transport q"
    "pp_closed p'" "pp_reset p'" "pp_read_shut p' = pp_read_shut p"
    using q(2) by (simp_all add: p'_def reset_quiet_at_def wake_both_def same_flags_def flip: q_def)
  have "unsent_of q = []" using q(1) by (auto simp: pipe_wf_def unsent_of_def split: option.splits)
  then have "content p' = pp_buf q" using fields by (simp add: content_def flying_def unsent_of_def)
  then have "prefix (content p') (content q)" by (simp add: content_def)
  then show ?thesis unfolding p'_def [symmetric]
    by (intro torn_down_inv [OF inv]) (use q fields in \<open>auto simp: pipe_wf_def\<close>)
qed

lemma write_inv:
  assumes inv: "stream_inv os p w d" and "keeps_path os env p" "write_after os env bytes delay p = Some (Some n, p')"
  shows "stream_inv os p' (w @ take n bytes) d"
proof -
  have wf: "pipe_wf os p" using inv by (simp add: stream_inv_def)
  have p': "pipe_wf os p'" "same_flags p p'" "\<not> sending_closed os p" "\<not> deaf os p \<Longrightarrow> content p' = content p @ take n bytes"
    using write_after_returns [OF wf, of env bytes delay] assms(2,3) by (metis option.distinct(1) option.inject prod.inject)+
  show ?thesis
  proof (cases "deaf os p")
    case True
    then show ?thesis using inv p' deaf_flags [OF p'(2), of os] by (auto simp: stream_inv_def prefix_def)
  next
    case False
    moreover have "\<not> pp_closed p" using p'(3) by (simp add: sending_closed_def)
    ultimately have "w = d @ content p" using inv by (auto simp: stream_inv_def)
    then show ?thesis using p' False deaf_flags [OF p'(2), of os] by (simp add: stream_inv_def)
  qed
qed

lemma refused_inv:
  assumes "stream_inv os p w d" "write_after os env bytes delay p = Some (None, p')"
  shows "p' = p"
  using assms write_after_returns [of os p env bytes delay] by (metis option.inject prod.inject stream_inv_def)

lemma read_inv:
  assumes inv: "stream_inv os p w d" and r: "pipe_read os env space p = Some (r, bytes, p')"
  shows "stream_inv os p' w (d @ bytes)"
proof -
  have "read_ok os p space [] r bytes p'"
    using pipe_read_returns [of os p env space] inv r by (auto simp: stream_inv_def)
  then show ?thesis using inv deaf_flags [of p p' os]
    by (auto simp: read_ok_def stream_inv_def same_flags_def split: if_splits)
qed

lemma step_carries: "stream_inv os p w d \<Longrightarrow> (pipe_wf os p \<Longrightarrow> carries os p p') \<Longrightarrow> stream_inv os p' w d"
  by (rule carries_inv) (simp_all add: stream_inv_def)

lemma pipe_step_inv:
  assumes "pipe_step os (p, w, d) (p', w', d')" "stream_inv os p w d"
  shows "stream_inv os p' w' d'"
  using assms(1)
proof cases
  case (wrote env bytes delay n)
  then show ?thesis using assms(2) by (simp add: write_inv)
next
  case (refused env bytes delay)
  then show ?thesis using refused_inv [OF assms(2)] assms(2) by blast
next
  case (read env space r bytes)
  then show ?thesis using assms(2) by (simp add: read_inv)
next
  case (peek env space r bytes)
  then show ?thesis using step_carries [OF assms(2) peek_carries] by blast
next
  case (land env)
  then show ?thesis using step_carries [OF assms(2) land_carries] by blast
next
  case (shut env)
  then show ?thesis using shut_read_inv [OF assms(2)] by simp
next
  case (close env)
  then show ?thesis using step_carries [OF assms(2) close_carries] by simp
next
  case (reset env)
  then show ?thesis using reset_inv [OF assms(2)] by simp
next
  case (quiet env cutoff)
  then show ?thesis using assms(2) by (simp add: quiet_inv)
next
  case abort
  then show ?thesis using step_carries [OF assms(2) abort_carries] by simp
next
  case attach
  then show ?thesis using step_carries [OF assms(2) attach_carries] by simp
qed

lemma pipe_new_inv: "stream_inv os (pipe_new ends) [] []"
  by (simp add: stream_inv_def pipe_new_def pipe_wf_def content_def flying_def unsent_of_def deaf_def)

lemma pipe_run_inv:
  assumes "pipe_run os s0 s" "s0 = (pipe_new ends, [], [])"
  shows "stream_inv os (fst s) (fst (snd s)) (snd (snd s))"
  using assms(1)
proof (induction rule: rtranclp_induct)
  case base
  then show ?case by (simp add: assms(2) pipe_new_inv)
next
  case (step y z)
  then show ?case using pipe_step_inv [of os "fst y" "fst (snd y)" "snd (snd y)"] by (cases z) auto
qed


text \<open>A simulation with no link, no stall and no policy in the way, at a time of its clock.\<close>

definition quiet_env :: "nat \<Rightarrow> pipe_env" where
  "quiet_env now =
     \<lparr>pe_now = now, pe_link = None, pe_stalls = Map.empty, pe_from = 1, pe_to = 2, pe_window = None,
      pe_limits = host_limits Linux, pe_to_v6 = False, pe_tcp_requested = False\<rparr>"

lemma quiet_env_held [simp]: "pipe_held (quiet_env now) p = None" "via_releases (quiet_env now)"
  by (simp_all add: pipe_held_def quiet_env_def held_until_def latest_ahead_def List.map_filter_def via_releases_def)

lemma quiet_env_fields [simp]: "pe_now (quiet_env now) = now" "pe_tcp_requested (quiet_env now) = False"
  by (simp_all add: quiet_env_def)


end
