(* ===== verification/Stream_Send.thy ===== *)
theory Stream_Send
  imports Stream_Order
begin

text \<open>
  \<^verbatim>\<open>Pipe::send\<close> of \<^verbatim>\<open>snare/src/stream.rs\<close> against the contract of what it writes to. The loop knows its stream only
  through the caller's \<^verbatim>\<open>write\<close>, so the contract is a locale: a write returns, accepts a prefix of what it is
  given, and keeps the state in order. The model's pipes provide it.
\<close>

section \<open>The contract of a sink\<close>

text \<open>
  What \<^verbatim>\<open>send\<close> expects of a wait. A wait that a handler interrupted did not also wake for room, as \<^verbatim>\<open>readiness.rs\<close>
  answers it. No error appears between the two looks at the pending error after a wait: the source does not rule
  this out, and a send it happens to after a partial write loses its count. Other threads do not write to the
  stream during the wait.
\<close>

definition settled :: "wait_result \<Rightarrow> bool" where
  "settled a \<longleftrightarrow> (wr_interrupted a \<longrightarrow> \<not> wr_woke a) \<and> (wr_error_again a \<longrightarrow> wr_error a)"

definition waits_keep :: "('s \<Rightarrow> bool) \<Rightarrow> ('s \<Rightarrow> string) \<Rightarrow> ('s \<Rightarrow> wait_result \<times> 's) list \<Rightarrow> bool" where
  "waits_keep ok accepted waits \<longleftrightarrow> (\<forall>wait \<in> set waits. \<forall>s. ok s \<longrightarrow>
     settled (fst (wait s)) \<and> ok (snd (wait s)) \<and> accepted (snd (wait s)) = accepted s)"

lemma waits_keep_Cons:
  "waits_keep ok accepted (wait # rest) \<Longrightarrow> ok s \<Longrightarrow> wait s = (answer, s') \<Longrightarrow>
   settled answer \<and> ok s' \<and> accepted s' = accepted s \<and> waits_keep ok accepted rest"
  unfolding waits_keep_def by (metis fst_conv list.set_intros(1) list.set_intros(2) snd_conv)

text \<open>What an answer of \<^verbatim>\<open>send\<close> says about \<open>m\<close>, the bytes it has written.\<close>

definition answer_counts :: "sent \<Rightarrow> nat \<Rightarrow> bool" where
  "answer_counts r m \<longleftrightarrow> (case r of Bytes n \<Rightarrow> n = m | Waiting \<Rightarrow> True | _ \<Rightarrow> m = 0)"

lemma after_wait_counts: "settled a \<Longrightarrow> after_wait k a = Some r \<Longrightarrow> answer_counts r k"
  by (auto simp: after_wait_def settled_def answer_counts_def split: if_splits)

locale byte_sink =
  fixes put :: "string \<Rightarrow> 's \<Rightarrow> (nat option \<times> 's) option"
    and accepted :: "'s \<Rightarrow> string"
    and ok :: "'s \<Rightarrow> bool"
  assumes put_returns: "ok s \<Longrightarrow> \<exists>r s'. put b s = Some (r, s') \<and> ok s'"
    and put_some: "ok s \<Longrightarrow> put b s = Some (Some n, s') \<Longrightarrow> n \<le> length b \<and> accepted s' = accepted s @ take n b"
    and put_none: "ok s \<Longrightarrow> put b s = Some (None, s') \<Longrightarrow> accepted s' = accepted s"
begin

lemma send_write:
  assumes ok: "ok s" and k: "k \<le> length bytes"
  shows "(\<exists>r m s'. (\<forall>waits. pipe_send put nonblocking bytes k waits s = Some (r, s')) \<and> ok s' \<and> k \<le> m \<and> m \<le> length bytes
       \<and> accepted s' = accepted s @ take (m - k) (drop k bytes) \<and> answer_counts r m)
     \<or> (\<exists>n s'. (\<forall>waits. pipe_send put nonblocking bytes k waits s =
         (case waits of [] \<Rightarrow> Some (Waiting, s')
          | wait # rest \<Rightarrow> (case after_wait (k + n) (fst (wait s')) of Some a \<Rightarrow> Some (a, snd (wait s'))
              | None \<Rightarrow> pipe_send put nonblocking bytes (k + n) rest (snd (wait s')))))
       \<and> ok s' \<and> k + n \<le> length bytes \<and> accepted s' = accepted s @ take n (drop k bytes))"
proof -
  obtain r s' where p: "put (drop k bytes) s = Some (r, s')" "ok s'" using put_returns [OF ok] by blast
  show ?thesis
  proof (cases r)
    case None
    then have "pipe_send put nonblocking bytes k waits s = Some (if k = 0 then Closed else Bytes k, s')" for waits
      using p(1) by (simp add: pipe_send.simps [of put nonblocking bytes k])
    moreover have "accepted s' = accepted s @ take (k - k) (drop k bytes)"
      using put_none [OF ok, of "drop k bytes" s'] p(1) None by simp
    moreover have "answer_counts (if k = 0 then Closed else Bytes k) k" by (simp add: answer_counts_def)
    ultimately show ?thesis using p(2) k by blast
  next
    case (Some n)
    have n: "k + n \<le> length bytes" "accepted s' = accepted s @ take (k + n - k) (drop k bytes)"
      using put_some [OF ok, of "drop k bytes" n s'] p Some k by auto
    show ?thesis
    proof (cases "k + n = length bytes \<or> nonblocking")
      case True
      let ?r = "if k + n = length bytes \<or> 0 < k + n then Bytes (k + n) else Send_WouldBlock"
      have "pipe_send put nonblocking bytes k waits s = Some (?r, s')" for waits
        using True p(1) Some by (auto simp: pipe_send.simps [of put nonblocking bytes k])
      moreover have "answer_counts ?r (k + n)" by (simp add: answer_counts_def)
      ultimately show ?thesis using p(2) n le_add1 [of k n] by blast
    next
      case False
      then have "pipe_send put nonblocking bytes k waits s =
         (case waits of [] \<Rightarrow> Some (Waiting, s')
          | wait # rest \<Rightarrow> (case after_wait (k + n) (fst (wait s')) of Some a \<Rightarrow> Some (a, snd (wait s'))
              | None \<Rightarrow> pipe_send put nonblocking bytes (k + n) rest (snd (wait s'))))" for waits
        using p(1) Some by (subst pipe_send.simps) (simp add: case_prod_beta split: list.split)
      then show ?thesis using p(2) n unfolding add_diff_cancel_left' by blast
    qed
  qed
qed

lemma send_counts:
  "ok s \<Longrightarrow> k \<le> length bytes \<Longrightarrow> waits_keep ok accepted waits \<Longrightarrow>
   \<exists>r m s'. pipe_send put nonblocking bytes k waits s = Some (r, s') \<and> ok s' \<and> k \<le> m \<and> m \<le> length bytes
     \<and> accepted s' = accepted s @ take (m - k) (drop k bytes) \<and> answer_counts r m"
proof (induction waits arbitrary: k s)
  case Nil
  from send_write [OF Nil(1,2), of nonblocking] show ?case
  proof (elim disjE exE conjE)
    fix n s'
    assume "\<forall>waits. pipe_send put nonblocking bytes k waits s =
         (case waits of [] \<Rightarrow> Some (Waiting, s')
          | wait # rest \<Rightarrow> (case after_wait (k + n) (fst (wait s')) of Some a \<Rightarrow> Some (a, snd (wait s'))
              | None \<Rightarrow> pipe_send put nonblocking bytes (k + n) rest (snd (wait s'))))"
      "ok s'" "k + n \<le> length bytes" "accepted s' = accepted s @ take n (drop k bytes)"
    then show ?thesis
      by (intro exI [of _ Waiting] exI [of _ "k + n"] exI [of _ s']) (simp add: answer_counts_def)
  qed metis
next
  case (Cons wait rest)
  from send_write [OF Cons.prems(1,2), of nonblocking] show ?case
  proof (elim disjE exE conjE)
    fix n s'
    assume step: "\<forall>waits. pipe_send put nonblocking bytes k waits s =
         (case waits of [] \<Rightarrow> Some (Waiting, s')
          | wait # rest \<Rightarrow> (case after_wait (k + n) (fst (wait s')) of Some a \<Rightarrow> Some (a, snd (wait s'))
              | None \<Rightarrow> pipe_send put nonblocking bytes (k + n) rest (snd (wait s'))))"
      and s': "ok s'" "k + n \<le> length bytes" "accepted s' = accepted s @ take n (drop k bytes)"
    obtain answer s'' where w: "wait s' = (answer, s'')" by fastforce
    note kept = waits_keep_Cons [OF Cons.prems(3) s'(1) w]
    show ?thesis
    proof (cases "after_wait (k + n) answer")
      case None
      obtain a m t where IH: "pipe_send put nonblocking bytes (k + n) rest s'' = Some (a, t)" "ok t" "k + n \<le> m"
        "m \<le> length bytes" "accepted t = accepted s'' @ take (m - (k + n)) (drop (k + n) bytes)" "answer_counts a m"
        using Cons.IH [of s'' "k + n"] kept s'(2) by blast
      have "take n (drop k bytes) @ take (m - (k + n)) (drop (k + n) bytes) = take (m - k) (drop k bytes)"
        using IH(3) take_add [of n "m - (k + n)" "drop k bytes"] by (simp add: add.commute)
      then show ?thesis using IH kept s'(3) step None w by (intro exI [of _ a] exI [of _ m] exI [of _ t]) simp
    next
      case answer: (Some a)
      then show ?thesis using step kept s' w after_wait_counts [of answer "k + n" a]
        by (intro exI [of _ a] exI [of _ "k + n"] exI [of _ s'']) simp
    qed
  qed metis
qed

end

section \<open>Pipes as sinks\<close>

text \<open>
  The state a send runs on: the environment of its next write, the pipe, and the bytes written to it and read
  from it so far.
\<close>

type_synonym sink = "pipe_env \<times> pipe \<times> string \<times> string"

definition stream_put :: "target_os \<Rightarrow> nat \<Rightarrow> string \<Rightarrow> sink \<Rightarrow> (nat option \<times> sink) option" where
  "stream_put os delay b s =
     (case s of (env, p, w, d) \<Rightarrow>
        map_option (\<lambda>(r, p'). (r, env, p', w @ (case r of None \<Rightarrow> [] | Some n \<Rightarrow> take n b), d))
          (write_after os env b delay p))"

definition sink_written :: "sink \<Rightarrow> string" where
  "sink_written s = (case s of (env, p, w, d) \<Rightarrow> w)"

definition sink_ok :: "target_os \<Rightarrow> sink \<Rightarrow> bool" where
  "sink_ok os s = (case s of (env, p, w, d) \<Rightarrow> stream_inv os p w d \<and> keeps_path os env p)"

lemma uses_transport_flags: "same_flags p p' \<Longrightarrow> uses_transport os env p' = uses_transport os env p"
  by (cases "pp_reader p"; cases "pp_reader p'") (auto simp: uses_transport_def same_flags_def)

lemma write_plain_unsent: "unsent_of (write_plain os env bytes delay p) = unsent_of p"
proof -
  have "unsent_of (pipe_arrive os env bytes mss p) = unsent_of p" for mss
    by (cases "os = MacOS \<and> pp_read_shut p") (simp add: pipe_arrive_def, simp add: pipe_arrive_facts)
  moreover have "unsent_of (log_event e q) = unsent_of q" for e q by (simp add: unsent_of_def)
  ultimately show ?thesis by (simp add: write_plain_def Let_def fly_facts)
qed

lemma write_keeps_path:
  assumes "pipe_wf os p" "keeps_path os env p" "write_after os env bytes delay p = Some (r, p')"
  shows "keeps_path os env p'"
proof (cases "uses_transport os env p")
  case True
  obtain r' q where "write_after os env bytes delay p = Some (r', q)" "same_flags p q"
    using write_after_returns [OF assms(1), of env bytes delay] by metis
  then show ?thesis using True assms(3) uses_transport_flags [of p q os env] by (simp add: keeps_path_def)
next
  case False
  then have "unsent_of p' = unsent_of p"
    using assms(3) by (auto simp: write_after_def Let_def write_plain_unsent split: if_splits)
  then show ?thesis using assms(2) False by (simp add: keeps_path_def)
qed

interpretation stream_sink: byte_sink "stream_put os delay" sink_written "sink_ok os" for os delay
proof
  fix s :: sink and b
  obtain env p w d where s: "s = (env, p, w, d)" by (cases s)
  assume "sink_ok os s"
  then have ok: "stream_inv os p w d" "keeps_path os env p" by (simp_all add: sink_ok_def s)
  then have wf: "pipe_wf os p" by (simp add: stream_inv_def)
  obtain r p' where r: "write_after os env b delay p = Some (r, p')" "\<And>n. r = Some n \<Longrightarrow> n \<le> length b" "r = None \<Longrightarrow> p' = p"
    using write_after_returns [OF wf, of env b delay] by metis
  have put: "stream_put os delay b s = Some (r, env, p', w @ (case r of None \<Rightarrow> [] | Some n \<Rightarrow> take n b), d)"
    by (simp add: stream_put_def s r(1))
  have "stream_inv os p' (w @ (case r of None \<Rightarrow> [] | Some n \<Rightarrow> take n b)) d"
    using r ok write_inv [OF ok] by (cases r) auto
  moreover have "keeps_path os env p'" using write_keeps_path [OF wf ok(2) r(1)] .
  ultimately show "\<exists>r s'. stream_put os delay b s = Some (r, s') \<and> sink_ok os s'" using put by (auto simp: sink_ok_def)
  show "n \<le> length b \<and> sink_written s' = sink_written s @ take n b"
    if "stream_put os delay b s = Some (Some n, s')" for n s'
    using that put r(2) by (auto simp: sink_written_def s)
  show "sink_written s' = sink_written s" if "stream_put os delay b s = Some (None, s')" for s'
    using that put by (auto simp: sink_written_def s)
qed

text \<open>
  C39: a send on a stream, blocking or not, returns and writes a prefix of its bytes, when the waits of a blocking
  send are \<open>settled\<close> and the other threads meanwhile keep the stream in order and do not write to it themselves.
  A count it reports is the length of that prefix, and any other answer means that nothing was written (a send
  that has used up the given waits is still waiting and reports neither). What has been read stays a prefix of
  what was written.
\<close>

theorem send_exact:
  assumes run: "pipe_run os (pipe_new ends, [], []) (p, w, d)" and path: "keeps_path os env p"
    and waits: "waits_keep (sink_ok os) sink_written waits"
  shows "\<exists>r m env' p' d'. pipe_send (stream_put os delay) nonblocking bytes 0 waits (env, p, w, d)
       = Some (r, env', p', w @ take m bytes, d')
     \<and> m \<le> length bytes \<and> answer_counts r m \<and> prefix d' (w @ take m bytes)"
proof -
  have "sink_ok os (env, p, w, d)" using pipe_run_inv [OF run refl] path by (simp add: sink_ok_def)
  then obtain r m s' where s: "pipe_send (stream_put os delay) nonblocking bytes 0 waits (env, p, w, d) = Some (r, s')"
    "sink_ok os s'" "m \<le> length bytes" "sink_written s' = w @ take m bytes" "answer_counts r m"
    using stream_sink.send_counts [of os "(env, p, w, d)" 0 bytes waits delay nonblocking] waits
    by (auto simp: sink_written_def)
  obtain env' p' w' d' where s': "s' = (env', p', w', d')" by (cases s')
  have "prefix d' w'" using s(2) by (auto simp: s' sink_ok_def stream_inv_def split: if_splits)
  then show ?thesis using s by (auto simp: s' sink_written_def)
qed

text \<open>A receive window of two bytes and a send that times out waiting for room.\<close>

definition narrow_env :: pipe_env where
  "narrow_env = (quiet_env 0)\<lparr>pe_window := Some 2\<rparr>"

definition timed_out :: "sink \<Rightarrow> wait_result \<times> sink" where
  "timed_out s = (\<lparr>wr_woke = False, wr_interrupted = False, wr_error = False, wr_error_again = False, wr_passed = True\<rparr>, s)"

lemma narrow_send:
  "\<exists>s. pipe_send (stream_put Windows 0) False ''abc'' 0 [timed_out] (narrow_env, pipe_new True, [], []) = Some (Bytes 2, s)"
  by (simp add: pipe_send.simps stream_put_def write_after_def sending_closed_def pipe_new_def capacity_def recv_room_def
      narrow_env_def quiet_env_def takes_def pipe_used_def uses_transport_def sat_simps U64_MAX_eq timed_out_def after_wait_def)

theorem send_exact_witness:
  "\<exists>m env p d. pipe_send (stream_put Windows 0) False ''abc'' 0 [timed_out] (narrow_env, pipe_new True, [], [])
       = Some (Bytes m, env, p, take m ''abc'', d) \<and> m = 2 \<and> prefix d (take m ''abc'')"
proof -
  have "keeps_path Windows narrow_env (pipe_new True)" by (simp add: keeps_path_def unsent_of_def pipe_new_def)
  moreover have "waits_keep (sink_ok Windows) sink_written [timed_out]"
    by (simp add: waits_keep_def timed_out_def settled_def)
  ultimately obtain r m env p d where
    "pipe_send (stream_put Windows 0) False ''abc'' 0 [timed_out] (narrow_env, pipe_new True, [], [])
       = Some (r, env, p, [] @ take m ''abc'', d)" "answer_counts r m" "prefix d ([] @ take m ''abc'')"
    using send_exact [of Windows True "pipe_new True" "[]" "[]" narrow_env "[timed_out]" 0 False "''abc''"] by blast
  then show ?thesis using narrow_send by (auto simp: answer_counts_def)
qed

end
