(* ===== verification/Spec2Isabelle.thy ===== *)
theory Spec2Isabelle
  imports Mutex_Owners Fs_Perm Fs_Locks Clock_Runs Futures_Timer Mktime_Tzcode Pending_Ring Qdisc Stream_Send
begin

text \<open>
  A verification library for snare, which runs unmodified programs inside a simulation of the operating system.
  The crate \<^verbatim>\<open>snare-interpose\<close> hooks the calls a program makes of its host (time, threads, files, sockets) and
  routes them to the simulation of the calling thread; the crate \<^verbatim>\<open>snare\<close> is that simulation: a virtual clock
  with timers, a file system, network interfaces and streams. Under \<^verbatim>\<open>shims\<close> are copies of published crates that
  take their time or I/O from the simulation. The clock is what ties the parts together: a blocking call
  registers a timer and waits, and when every participant waits the clock skips to the next deadline.
  Paths below are relative to \<^verbatim>\<open>src/crates\<close> unless they begin with \<^verbatim>\<open>shims\<close>.

  \<^bold>\<open>Conventions.\<close> A struct is a record, an enum a datatype, an operation a function from the state before to the
  result and the state after. What \<^verbatim>\<open>cfg(target_os)\<close> selects is an argument of type \<open>target_os\<close>. The unsigned integers
  of Rust are natural numbers with saturation and wrap-around written out (\<^verbatim>\<open>Prelude\<close>), signed ones integers with
  their ranges checked (\<^verbatim>\<open>Signed_Arith\<close>), file modes words. A panic is \<open>None\<close>. What an operation reads of code that
  is not modelled (real time, the bytes of a file, the state of the rest of the simulation, what a wait answered)
  is an argument. A mutex makes what is done under it one step; where the source lets go of a lock in the middle
  of a call, or uses atomics, each section is a step of its own and the theorems quantify over interleavings.

  \<^bold>\<open>Shared theories.\<close> \<^verbatim>\<open>Prelude\<close> holds the collections of lemmas and the arithmetic of \<^verbatim>\<open>u64\<close>; \<^verbatim>\<open>Signed_Arith\<close> that of
  \<^verbatim>\<open>i32\<close> and \<^verbatim>\<open>i64\<close>; \<^verbatim>\<open>Rust_Bytes\<close> byte strings and UTF-8; \<^verbatim>\<open>BTree_Map\<close> ordered maps; \<^verbatim>\<open>Errno\<close> the error numbers.

  \<^bold>\<open>The clock\<close> (\<^verbatim>\<open>snare/src/clock.rs\<close>).
  \<^item> \<^verbatim>\<open>Clock_Line\<close> is \<^verbatim>\<open>Line\<close>, virtual time as a line over real time. Its inverse is the earliest real time that
    reads the value, and there is a line on which the inverse saturates and falls short.
  \<^item> \<^verbatim>\<open>Timer_Table\<close> is \<^verbatim>\<open>Timers\<close>, \<^verbatim>\<open>Entry\<close> and \<^verbatim>\<open>TimerOwners\<close>. Cancelling a wake removes that wake and no other.
  \<^item> \<^verbatim>\<open>Virtual_Clock\<close> is the state of the clock with readings, rates, pauses, grants and the process timeline;
    \<^verbatim>\<open>Clock_Timers\<close> registers and delivers timers, charges latency, spins and skips.
  \<^item> \<^verbatim>\<open>Clock_Runs\<close> makes every operation a step of \<open>clock_op\<close>. Along a run no reading goes back; a skip lands just
    past the earliest timer; a spin never passes one; a charge is exact; a new clock starts after every reading
    handed out before.

  \<^bold>\<open>Locks and threads.\<close>
  \<^item> \<^verbatim>\<open>Mutex_Owners\<close> is the open-addressing table of held mutexes (\<^verbatim>\<open>snare-interpose/src/sched.rs\<close>). It implements the
    contract \<open>bounded_map\<close> of \<^verbatim>\<open>Table_Spec\<close> (interpretation \<open>owners\<close>), from which the effect of a whole log follows.
  \<^item> \<^verbatim>\<open>Pending_Ring\<close> is the lock-free ring of \<^verbatim>\<open>snare-interpose/src/pending.rs\<close>, one step for each atomic access of any
    number of pushing threads and one drain at a time. It refines a FIFO queue. Memory is sequentially consistent.

  \<^bold>\<open>Files.\<close>
  \<^item> \<^verbatim>\<open>Fs_Perm\<close> is \<^verbatim>\<open>snare/src/fs_perm.rs\<close>: permission checks and changes of mode and owner. No sequence of calls
    without privilege escalates a file.
  \<^item> \<^verbatim>\<open>Fs_Locks\<close> is \<^verbatim>\<open>snare/src/fs_locks.rs\<close>: record locks and flock locks. Locks exclude one another whatever the
    interleaving, a set changes exactly the bytes of its range, and a race of flock calls is exhibited.

  \<^bold>\<open>Local time\<close> (\<^verbatim>\<open>snare-interpose/src/os/tz.rs\<close> and \<^verbatim>\<open>tz_mktime.rs\<close>).
  \<^item> \<^verbatim>\<open>Civil_Date\<close> has the calendar, \<^verbatim>\<open>Tz_Rule\<close> the rules and zones, \<^verbatim>\<open>Local_Time\<close> the breaking down of a time, \<^verbatim>\<open>Tz_Names\<close>
    the names of a sim, \<^verbatim>\<open>Tz_Parse\<close> the parser of TZ strings, \<^verbatim>\<open>Tz_Resolve\<close> the TZif reader, the resolution of a
    setting and its cache. Each is shown to compute what its format or calendar says, and no input file leads
    to an index or an offset out of range.
  \<^item> \<^verbatim>\<open>Mktime_Glibc\<close> and \<^verbatim>\<open>Mktime_Tzcode\<close> are the two searches for the instant of a local time. They know local time
    only through the contract \<open>localtime\<close>, interpreted on the resolved zones (\<open>resolved_time\<close>).

  \<^bold>\<open>Timers of the shim\<close> (\<^verbatim>\<open>shims/futures-timer/src/native\<close>). \<^verbatim>\<open>Timer_Heap\<close> is the heap of \<^verbatim>\<open>heap.rs\<close>, which implements the
  contract \<open>slot_queue\<close> of \<^verbatim>\<open>Slot_Queue\<close> (interpretation \<open>timer_queue\<close>); \<^verbatim>\<open>Futures_Timer\<close> is its client, \<^verbatim>\<open>timer.rs\<close> and
  \<^verbatim>\<open>heap_timer.rs\<close>: it fires exactly what is due.

  \<^bold>\<open>The network.\<close>
  \<^item> \<^verbatim>\<open>Qdisc\<close> is \<^verbatim>\<open>snare/src/qdisc.rs\<close> with the requests of \<^verbatim>\<open>simhost.rs\<close> that reach it: the tables stay well formed, the
    requests that panic are characterised, and a dump recreates what it shows.
  \<^item> \<^verbatim>\<open>Net_Holds\<close> has the stalls of \<^verbatim>\<open>snare/src/netpolicy.rs\<close> and \<^verbatim>\<open>LinkState\<close> of \<^verbatim>\<open>netif.rs\<close>: on macOS a chunk arrives
    at the first moment clear of outages and stalls.
  \<^item> \<^verbatim>\<open>Sock_Buf\<close> has the buffer sizes and charges of \<^verbatim>\<open>snare/src/limits.rs\<close>; \<^verbatim>\<open>Tcp_Transport\<close> is \<^verbatim>\<open>tcp_transport.rs\<close>, the
    segments and the window of Linux.
  \<^item> \<^verbatim>\<open>Stream_Pipe\<close> is \<^verbatim>\<open>snare/src/stream.rs\<close>, one direction of a stream, over these three. The rest of the simulation
    is the record \<open>pipe_env\<close> of each call and the log of \<open>pipe_event\<close>s. \<^verbatim>\<open>Stream_Order\<close> makes every call a step of
    \<open>pipe_step\<close>: bytes are read in the order written, and on Linux none is lost. Its steps have one premise the
    source does not enforce, \<open>keeps_path\<close>: no write goes around a transport that still holds bytes.
  \<^item> \<^verbatim>\<open>Stream_Send\<close> is the loop \<^verbatim>\<open>Pipe::send\<close> as a client of the contract \<open>byte_sink\<close>, which the pipes provide
    (interpretation \<open>stream_sink\<close>): the count reported is the count written, for waits that are \<open>settled\<close>.

  \<^bold>\<open>Loops.\<close> No loop is cut off by fuel. Loops that may run on are \<^verbatim>\<open>partial_function (option)\<close>: the backward shift of
  \<^verbatim>\<open>Mutex_Owners\<close>, and \<open>transmit\<close> and \<open>read_loop\<close> of \<^verbatim>\<open>Stream_Pipe\<close>. Each is proved to return on well-formed states:
  the shift meets a free place since the table is never full, every turn of \<open>transmit\<close> sends at least one byte of
  what is pending, and every further turn of \<open>read_loop\<close> has read at least one byte. The others end by a
  measure: the searches of mktime halve an interval or go out in strides to a fixed bound, and the number of
  probes of \<open>probe\<close> is the source's own limit. The waits of a blocking call are a list of what each of them answered.

  \<^bold>\<open>Not modelled.\<close>
  \<^item> The hooks, detours, patching of binaries and the Windows API surface: raw pointers, machine code and
    foreign structures.
  \<^item> \<^verbatim>\<open>fabric.rs\<close>, \<^verbatim>\<open>fs_sim.rs\<close>, \<^verbatim>\<open>sched.rs\<close>, \<^verbatim>\<open>executive.rs\<close>, \<^verbatim>\<open>readiness.rs\<close>, \<^verbatim>\<open>signals.rs\<close> and most of \<^verbatim>\<open>simhost.rs\<close>: they join
    the modelled parts over shared state of the whole simulation and host threads, and are covered only where a
    component above reads their answers as an argument.
  \<^item> The queue of datagrams, the privileges and the option table of \<^verbatim>\<open>limits.rs\<close>; the fault policies of
    \<^verbatim>\<open>netpolicy.rs\<close>, which draw floating-point numbers; the topology and the counters of \<^verbatim>\<open>netif.rs\<close>.
  \<^item> Formatters and readers of host files (\<^verbatim>\<open>procnet.rs\<close>, \<^verbatim>\<open>pcapng.rs\<close>, \<^verbatim>\<open>tracefs.rs\<close> and the like), the command-line
    tool \<^verbatim>\<open>cargo-snare\<close> and the shims other than futures-timer.
\<close>

end
